(* ===== verification/Prelude.thy ===== *)
theory Prelude
  imports Main "HOL-Library.Word" "HOL-Library.Multiset" "HOL-Library.Monad_Syntax"
begin

text \<open>
  Shared vocabulary of the development: names for the machine types of the program,
  Rust's checked and saturating arithmetic, the status values its operations return,
  and the generic facts on words, lists and options that the component theories use.

  Conventions.
  \<^item> \<open>u8\<close>, \<open>u32\<close> and \<open>u64\<close> are words, so \<open>+\<close>, \<open>*\<close> wrap as \<open>wrapping_add\<close> and
    \<open>wrapping_mul\<close> do, and the bitwise operators are the machine's.
  \<^item> \<open>usize\<close> values (lengths, indexes) are naturals; \<open>i64\<close> values are integers whose
    range is written out by the checked operations below.
  \<^item> A panic of the source is \<open>None\<close>; a \<open>Result\<close> is a sum with the error on the left.
\<close>

unbundle bit_operations_syntax

type_synonym u8 = "8 word"
type_synonym u32 = "32 word"
type_synonym u64 = "64 word"
type_synonym bytes = "u8 list"

definition bytes_of :: "string \<Rightarrow> bytes" where
  "bytes_of s = map of_char s"

section \<open>Fact collections\<close>

named_theorems bits_simps "abstraction of the packed bitmaps"
named_theorems code_step "one-step unfolding rules of the modelled loops"

section \<open>Status values\<close>

text \<open>The codes of \<open>tonic::Status\<close> the modelled code returns, each with its message.\<close>

datatype status_code =
    InvalidArgument | FailedPrecondition | NotFound | AlreadyExists | PermissionDenied
  | ResourceExhausted | DataLoss | Internal | Unauthenticated | Unimplemented

type_synonym status = "status_code \<times> string"
type_synonym 'a result = "status + 'a"

definition bind_result :: "'e + 'a \<Rightarrow> ('a \<Rightarrow> 'e + 'b) \<Rightarrow> 'e + 'b" where
  "bind_result r f = (case r of Inl e \<Rightarrow> Inl e | Inr x \<Rightarrow> f x)"

lemma bind_result_simps [simp]:
  "bind_result (Inl e) f = Inl e"
  "bind_result (Inr x) f = f x"
  by (simp_all add: bind_result_def)

lemma bind_result_eq_Inr:
  "bind_result r f = Inr y \<longleftrightarrow> (\<exists>x. r = Inr x \<and> f x = Inr y)"
  by (cases r) auto

lemma bind_result_eq_Inl:
  "bind_result r f = Inl e \<longleftrightarrow> r = Inl e \<or> (\<exists>x. r = Inr x \<and> f x = Inl e)"
  by (cases r) auto

text \<open>An early return: the error unless the condition holds.\<close>

definition ensure :: "bool \<Rightarrow> 'e \<Rightarrow> 'e + unit" where
  "ensure b e = (if b then Inr () else Inl e)"

lemma ensure_simps [simp]:
  "ensure True e = Inr ()"
  "ensure False e = Inl e"
  by (simp_all add: ensure_def)

lemma ensure_eq_Inr [simp]: "ensure b e = Inr u \<longleftrightarrow> b"
  by (simp add: ensure_def)

lemma ensure_eq_Inl: "ensure b e = Inl e' \<longleftrightarrow> \<not> b \<and> e' = e"
  by (auto simp: ensure_def)

section \<open>Bounded integers\<close>

definition i64_min :: int where "i64_min = - (2 ^ 63)"
definition i64_max :: int where "i64_max = 2 ^ 63 - 1"

definition in_i64 :: "int \<Rightarrow> bool" where
  "in_i64 x \<longleftrightarrow> i64_min \<le> x \<and> x \<le> i64_max"

text \<open>\<open>checked_add\<close>, \<open>checked_sub\<close>, \<open>checked_mul\<close> on \<open>i64\<close>: \<open>None\<close> when the exact
  result leaves the type.\<close>

definition checked_i64 :: "int \<Rightarrow> int option" where
  "checked_i64 x = (if in_i64 x then Some x else None)"

lemma checked_i64_eq_Some [simp]: "checked_i64 x = Some y \<longleftrightarrow> in_i64 x \<and> y = x"
  by (auto simp: checked_i64_def)

lemma checked_i64_eq_None [simp]: "checked_i64 x = None \<longleftrightarrow> \<not> in_i64 x"
  by (simp add: checked_i64_def)

lemma in_i64_simps: "in_i64 x \<longleftrightarrow> - 9223372036854775808 \<le> x \<and> x \<le> 9223372036854775807"
  by (simp add: in_i64_def i64_min_def i64_max_def)

text \<open>\<open>checked_add\<close> and \<open>saturating_add\<close> on unsigned words.\<close>

definition checked_add_word :: "'n::len word \<Rightarrow> 'n word \<Rightarrow> 'n word option" where
  "checked_add_word a b = (if unat a + unat b < 2 ^ LENGTH('n) then Some (a + b) else None)"

definition saturating_add_word :: "'n::len word \<Rightarrow> 'n word \<Rightarrow> 'n word" where
  "saturating_add_word a b = (if unat a + unat b < 2 ^ LENGTH('n) then a + b else - 1)"

lemma checked_add_word_Some:
  "checked_add_word a b = Some c \<Longrightarrow> unat c = unat a + unat b"
  by (auto simp: checked_add_word_def unat_word_ariths split: if_splits)

section \<open>Bits of machine words\<close>

text \<open>\<open>1u64 << i\<close> for \<open>i < 64\<close>, \<open>count_ones\<close> and \<open>trailing_zeros\<close>.\<close>

definition bit_mask :: "nat \<Rightarrow> u64" where
  "bit_mask i = push_bit i 1"

definition count_ones :: "u64 \<Rightarrow> nat" where
  "count_ones w = length (filter (bit w) [0..<64])"

definition trailing_zeros :: "u64 \<Rightarrow> nat" where
  "trailing_zeros w = length (takeWhile (\<lambda>i. \<not> bit w i) [0..<64])"

lemma bit_bit_mask [simp]: "bit (bit_mask i) j \<longleftrightarrow> i = j \<and> i < 64"
  by (auto simp: bit_mask_def bit_simps)

lemma word64_eqI: "(\<And>i. i < 64 \<Longrightarrow> bit v i = bit w i) \<Longrightarrow> v = (w :: u64)"
  by (rule bit_word_eqI) simp

lemma word64_neq_0: "(w :: u64) \<noteq> 0 \<longleftrightarrow> (\<exists>i<64. bit w i)"
  using word64_eqI [of w 0] by auto

lemma and_bit_mask_neq_0: "i < 64 \<Longrightarrow> w AND bit_mask i \<noteq> 0 \<longleftrightarrow> bit w i"
  by (auto simp: word64_neq_0 bit_simps)

lemma word64_bit_bound: "bit (w :: u64) i \<Longrightarrow> i < 64"
  using bit_imp_le_length [of w i] by simp

lemma bit_minus_1_u64 [simp]: "bit (- 1 :: u64) i \<longleftrightarrow> i < 64"
  by (auto simp: bit_simps)

lemma bit_mask_minus_1: "i < 64 \<Longrightarrow> bit (bit_mask i - 1) j \<longleftrightarrow> j < i"
proof -
  assume i: "i < 64"
  have "bit_mask i - 1 = mask i"
    by (simp add: bit_mask_def mask_eq_exp_minus_1 push_bit_eq_mult)
  with i show ?thesis by (auto simp: bit_simps)
qed

section \<open>Lists\<close>

text \<open>\<open>div_ceil\<close> and the checked read \<open>xs[i]\<close>, whose out-of-range case is a panic.\<close>

definition div_ceil :: "nat \<Rightarrow> nat \<Rightarrow> nat" where
  "div_ceil a b = (a + b - 1) div b"

definition slice_opt :: "'a list \<Rightarrow> nat \<Rightarrow> nat \<Rightarrow> 'a list option" where
  "slice_opt xs a b = (if a \<le> b \<and> b \<le> length xs then Some (take (b - a) (drop a xs)) else None)"

definition nth_opt :: "'a list \<Rightarrow> nat \<Rightarrow> 'a option" where
  "nth_opt xs i = (if i < length xs then Some (xs ! i) else None)"

lemma nth_opt_simps [simp]:
  "i < length xs \<Longrightarrow> nth_opt xs i = Some (xs ! i)"
  "length xs \<le> i \<Longrightarrow> nth_opt xs i = None"
  by (simp_all add: nth_opt_def)

lemma nth_opt_eq_Some: "nth_opt xs i = Some x \<longleftrightarrow> i < length xs \<and> xs ! i = x"
  by (auto simp: nth_opt_def)

lemma div_ceil_64:
  assumes "i < n"
  shows "i div 64 < div_ceil n 64"
proof -
  have "(i + 64) div 64 \<le> (n + 63) div 64"
    using assms by (intro div_le_mono) simp
  moreover have "(i + 64) div 64 = i div 64 + 1" by simp
  ultimately show ?thesis by (simp add: div_ceil_def)
qed

text \<open>A loop whose body may panic: the first \<open>None\<close> ends it.\<close>

fun fold_opt :: "('a \<Rightarrow> 's \<Rightarrow> 's option) \<Rightarrow> 'a list \<Rightarrow> 's \<Rightarrow> 's option" where
  "fold_opt f [] s = Some s"
| "fold_opt f (x # xs) s = Option.bind (f x s) (fold_opt f xs)"

lemma fold_opt_append:
  "fold_opt f (xs @ ys) s = Option.bind (fold_opt f xs s) (fold_opt f ys)"
  by (induction xs arbitrary: s) (auto split: bind_splits)

text \<open>Loop rule: an invariant indexed by the elements already processed.\<close>

lemma fold_opt_rule:
  assumes "I [] s"
    and "\<And>ys x t. x \<in> set xs \<Longrightarrow> I ys t \<Longrightarrow> \<exists>t'. f x t = Some t' \<and> I (ys @ [x]) t'"
  shows "\<exists>t. fold_opt f xs s = Some t \<and> I xs t"
proof -
  have "I ps s \<Longrightarrow> set ys \<subseteq> set xs \<Longrightarrow> \<exists>t. fold_opt f ys s = Some t \<and> I (ps @ ys) t" for ps ys
  proof (induction ys arbitrary: ps s)
    case Nil
    then show ?case by simp
  next
    case (Cons y ys)
    then obtain t where "f y s = Some t" "I (ps @ [y]) t"
      using assms(2) by fastforce
    with Cons.IH [of "ps @ [y]" t] Cons.prems show ?case by simp
  qed
  from this [of "[]" xs] assms(1) show ?thesis by simp
qed

section \<open>Word blocks and index ranges\<close>

lemma div_ceil_64_eq: "div_ceil n 64 = n div 64 + (if n mod 64 = 0 then 0 else 1)"
proof -
  have "(n + 63) div 64 = (n mod 64 + 63 + n div 64 * 64) div 64"
    by (metis add.assoc add.commute div_mult_mod_eq)
  also have "\<dots> = n div 64 + (n mod 64 + 63) div 64"
    by (rule div_mult_self1) simp
  also have "(n mod 64 + 63) div 64 = (if n mod 64 = 0 then 0 else 1)"
  proof (cases "n mod 64 = 0")
    case False
    have "n mod 64 < 64" by simp
    then have "(n mod 64 + 63) div 64 = (n mod 64 - 1 + 64) div 64"
      using False by simp
    also have "\<dots> = (n mod 64 - 1) div 64 + 1"
      by simp
    finally show ?thesis using False \<open>n mod 64 < 64\<close> by simp
  qed simp
  finally show ?thesis by (simp add: div_ceil_def)
qed

lemma ivl_subset_lessThan [simp]: "{a..<b} \<subseteq> {..<n :: nat} \<longleftrightarrow> b \<le> a \<or> b \<le> n"
proof
  assume sub: "{a..<b} \<subseteq> {..<n}"
  show "b \<le> a \<or> b \<le> n"
  proof (cases "b \<le> a")
    case False
    then have "b - 1 \<in> {a..<b}" by auto
    with sub have "b - 1 < n" by blast
    then show ?thesis by linarith
  qed simp
qed auto

lemma or_exp_eq: "c < 2 ^ p \<Longrightarrow> c OR 2 ^ p = c + (2 ^ p :: nat)"
proof -
  assume c: "c < 2 ^ p"
  have "take_bit p c = c" using c by (simp add: take_bit_nat_eq_self)
  then have "c AND 2 ^ p = 0"
    by (metis and_exp_eq_0_iff_not_bit bit_take_bit_iff less_irrefl)
  then show ?thesis by (simp add: disjunctive_add_eq_or)
qed

lemma length_filter_mono:
  "(\<And>y. y \<in> set xs \<Longrightarrow> P y \<Longrightarrow> Q y) \<Longrightarrow> length (filter P xs) \<le> length (filter Q xs)"
  by (induction xs) (auto simp: le_SucI)

lemma upt_split: "i \<le> j \<Longrightarrow> j \<le> k \<Longrightarrow> [i..<k] = [i..<j] @ [j..<k]"
  by (metis le_add_diff_inverse upt_add_eq_append)

lemma trailing_zeros_props:
  assumes "w \<noteq> 0"
  shows "trailing_zeros w < 64" "bit w (trailing_zeros w)" "i < trailing_zeros w \<Longrightarrow> \<not> bit w i"
proof -
  let ?t = "length (takeWhile (\<lambda>i. \<not> bit w i) [0..<64])"
  have bound: "?t \<le> 64" using length_takeWhile_le [of "\<lambda>i. \<not> bit w i" "[0..<64]"] by simp
  show below: "\<not> bit w i" if "i < trailing_zeros w" for i
  proof -
    have i: "i < ?t" using that by (simp add: trailing_zeros_def)
    then have "takeWhile (\<lambda>i. \<not> bit w i) [0..<64] ! i = i"
      using bound by (simp add: takeWhile_nth)
    with i show ?thesis using nth_mem [OF i] set_takeWhileD by metis
  qed
  show lt: "trailing_zeros w < 64"
  proof (rule ccontr)
    assume "\<not> trailing_zeros w < 64"
    then have "\<forall>i < 64. \<not> bit w i" using below by simp
    with assms show False by (auto simp: word64_neq_0)
  qed
  have "\<not> \<not> bit w ([0..<64] ! ?t)"
    by (rule nth_length_takeWhile) (use lt in \<open>simp add: trailing_zeros_def\<close>)
  then show "bit w (trailing_zeros w)"
    using lt by (simp add: trailing_zeros_def)
qed

lemma bit_clear_lowest:
  assumes "w \<noteq> 0"
  shows "bit (w AND (w - 1)) i \<longleftrightarrow> bit w i \<and> i \<noteq> trailing_zeros w"
proof -
  let ?t = "trailing_zeros w"
  define v where "v = w AND NOT (bit_mask ?t)"
  note tz = trailing_zeros_props [OF assms]
  have v_bits: "bit v j \<longleftrightarrow> bit w j \<and> j \<noteq> ?t" for j
    using tz(1) word64_bit_bound [of w j] by (auto simp: v_def bit_simps)
  have "v AND bit_mask ?t = 0"
    by (rule word64_eqI) (auto simp: bit_simps v_bits)
  then have "v + bit_mask ?t = v OR bit_mask ?t"
    by (rule disjunctive_add_eq_or)
  also have "\<dots> = w"
    by (rule word64_eqI) (use tz in \<open>auto simp: bit_simps v_bits\<close>)
  finally have "w - 1 = v + (bit_mask ?t - 1)" by (simp add: algebra_simps)
  also have "\<dots> = v OR (bit_mask ?t - 1)"
    by (rule disjunctive_add_eq_or, rule word64_eqI)
       (use tz in \<open>auto simp: bit_simps v_bits bit_mask_minus_1\<close>)
  finally show ?thesis
    using tz by (auto simp: bit_simps v_bits bit_mask_minus_1)
qed

lemma filter_split_first:
  assumes "t < n" "P t" "\<And>i. i < t \<Longrightarrow> \<not> P i"
  shows "filter P [0..<n] = t # filter (\<lambda>i. P i \<and> i \<noteq> t) [0..<n]"
proof -
  have split: "[0..<n] = [0..<t] @ t # [Suc t..<n]"
    using assms(1) upt_split [of 0 t n] by (simp add: upt_conv_Cons)
  show ?thesis unfolding split using assms(2,3) by (auto simp: filter_empty_conv intro!: filter_cong)
qed

lemma less_divmod_64:
  "i < j \<longleftrightarrow> i div 64 < j div 64 \<or> i div 64 = j div 64 \<and> i mod 64 < j mod (64 :: nat)"
proof -
  have "i = i div 64 * 64 + i mod 64" "j = j div 64 * 64 + j mod 64" "i mod 64 < 64" "j mod 64 < 64"
    by simp_all
  then show ?thesis by linarith
qed

lemma pred_divmod_64:
  assumes "0 < (n :: nat)"
  shows "(n - 1) mod 64 = (if n mod 64 = 0 then 63 else n mod 64 - 1)"
proof -
  obtain m where "n = Suc m" using assms by (cases n) auto
  then show ?thesis by (simp add: mod_Suc)
qed

lemma filter_upt_mono:
  assumes "a \<le> c" "d \<le> b" "\<And>i. a \<le> i \<Longrightarrow> i < b \<Longrightarrow> P i \<longleftrightarrow> c \<le> i \<and> i < d \<and> Q i"
  shows "filter P [a..<b] = filter Q [c..<d]"
proof (cases "c \<le> d")
  case True
  have "[a..<b] = [a..<c] @ [c..<d] @ [d..<b]"
    using assms(1,2) True by (simp add: upt_split [of a c b] upt_split [of c d b])
  then show ?thesis
    using assms True by (auto simp: filter_empty_conv intro!: filter_cong)
next
  case False
  then show ?thesis using assms(3) by (auto simp: filter_empty_conv)
qed

lemma count_ones_eq_card: "count_ones w = card {i. bit w i}"
proof -
  have "{i. bit w i} = set (filter (bit w) [0..<64])"
    by (auto intro: word64_bit_bound)
  then show ?thesis by (simp add: count_ones_def distinct_card [symmetric] del: set_filter)
qed

section \<open>Loops that may fail\<close>

text \<open>A loop over a slice with \<open>?\<close>: the first error ends it.\<close>

fun fold_result :: "('a \<Rightarrow> 's \<Rightarrow> 'e + 's) \<Rightarrow> 'a list \<Rightarrow> 's \<Rightarrow> 'e + 's" where
  "fold_result f [] s = Inr s"
| "fold_result f (x # xs) s = bind_result (f x s) (fold_result f xs)"

fun each :: "('a \<Rightarrow> 'e + unit) \<Rightarrow> 'a list \<Rightarrow> 'e + unit" where
  "each f [] = Inr ()"
| "each f (x # xs) = bind_result (f x) (\<lambda>_. each f xs)"

lemma each_eq_Inr [simp]: "each f xs = Inr u \<longleftrightarrow> (\<forall>x \<in> set xs. f x = Inr ())"
  by (induction xs) (auto simp: bind_result_eq_Inr)

lemma each_eq_Inl: "each f xs = Inl e \<Longrightarrow> \<exists>x \<in> set xs. f x = Inl e"
  by (induction xs) (auto simp: bind_result_eq_Inl)

lemma fold_result_append:
  "fold_result f (xs @ ys) s = bind_result (fold_result f xs s) (fold_result f ys)"
  by (induction xs arbitrary: s) (auto simp: bind_result_def split: sum.splits)

lemma fold_result_rule:
  assumes "fold_result f xs s = Inr t" "I [] s"
    and "\<And>ys x t t'. x \<in> set xs \<Longrightarrow> I ys t \<Longrightarrow> f x t = Inr t' \<Longrightarrow> I (ys @ [x]) t'"
  shows "I xs t"
proof -
  have "I ps s \<Longrightarrow> set ys \<subseteq> set xs \<Longrightarrow> fold_result f ys s = Inr t \<Longrightarrow> I (ps @ ys) t" for ps ys s
  proof (induction ys arbitrary: ps s)
    case (Cons y ys)
    then obtain s' where "f y s = Inr s'" "fold_result f ys s' = Inr t" by (auto simp: bind_result_eq_Inr)
    with Cons.IH [of "ps @ [y]" s'] Cons.prems assms(3) [of y ps s s'] show ?case by simp
  qed simp
  then show ?thesis using assms(1,2) by fastforce
qed

end
