(* ===== verification/Boolean_Bits.thy ===== *)
theory Boolean_Bits
  imports Prelude
begin

text \<open>
  Slot bitmaps of the shard-side Boolean planner, \<open>src/boolean_bits.rs\<close>: one bit per
  local slot, packed 64 to a \<open>u64\<close> word, the word-wise set algebra, the bit-sliced
  "at least \<open>t\<close> of these" count, and the MUST / SHOULD / MUST_NOT group rule.

  \<open>slots\<close> abstracts a bitmap to the set of slots it holds and \<open>bits_inv\<close> is the
  representation invariant (the word count fits \<open>len\<close> and no bit is set at or past
  \<open>len\<close>). The locale \<open>slot_algebra\<close> is the contract the group rule relies on.
\<close>

section \<open>Representation\<close>

record bits =
  words :: "u64 list"
  len :: nat

definition raw_slots :: "u64 list \<Rightarrow> nat set" where
  "raw_slots ws = {i. i div 64 < length ws \<and> bit (ws ! (i div 64)) (i mod 64)}"

definition slots :: "bits \<Rightarrow> nat set" where
  "slots b = raw_slots (words b)"

definition bits_inv :: "bits \<Rightarrow> bool" where
  "bits_inv b \<longleftrightarrow> length (words b) = div_ceil (len b) 64 \<and> slots b \<subseteq> {..<len b}"

section \<open>Operations\<close>

definition bits_trim :: "bits \<Rightarrow> bits" where
  "bits_trim b =
     (let used = len b mod 64
      in if used \<noteq> 0 \<and> words b \<noteq> []
         then b\<lparr>words := butlast (words b) @ [last (words b) AND (bit_mask used - 1)]\<rparr>
         else b)"

definition bits_empty :: "nat \<Rightarrow> bits" where
  "bits_empty n = \<lparr>words = replicate (div_ceil n 64) 0, len = n\<rparr>"

definition bits_full :: "nat \<Rightarrow> bits" where
  "bits_full n = bits_trim \<lparr>words = replicate (div_ceil n 64) (- 1), len = n\<rparr>"

text \<open>\<open>test\<close> is guarded by \<open>len\<close>; \<open>set\<close> and \<open>clear\<close> index the words and panic past them.\<close>

definition bits_test :: "bits \<Rightarrow> nat \<Rightarrow> bool" where
  "bits_test b slot \<longleftrightarrow> slot < len b \<and> words b ! (slot div 64) AND bit_mask (slot mod 64) \<noteq> 0"

definition bits_set :: "nat \<Rightarrow> bits \<Rightarrow> bits option" where
  "bits_set slot b =
     (if slot div 64 < length (words b)
      then Some (b\<lparr>words := (words b)[slot div 64 := words b ! (slot div 64) OR bit_mask (slot mod 64)]\<rparr>)
      else None)"

definition bits_clear :: "nat \<Rightarrow> bits \<Rightarrow> bits option" where
  "bits_clear slot b =
     (if slot div 64 < length (words b)
      then Some (b\<lparr>words := (words b)[slot div 64 := words b ! (slot div 64) AND NOT (bit_mask (slot mod 64))]\<rparr>)
      else None)"

definition bits_prefix :: "nat \<Rightarrow> nat \<Rightarrow> bits option" where
  "bits_prefix n rows = fold_opt bits_clear [min rows n..<n] (bits_full n)"

text \<open>\<open>base.saturating_add(rows)\<close> saturates at \<open>usize::MAX\<close>, past every bitmap length, so
  the minimum with \<open>len\<close> is the same as with the exact sum.\<close>

definition bits_ranges :: "nat \<Rightarrow> (nat \<times> nat) list \<Rightarrow> bits option" where
  "bits_ranges n rs =
     fold_opt (\<lambda>(base, rows). fold_opt bits_set [min base n..<min (base + rows) n]) rs (bits_empty n)"

definition bits_from_bools :: "bool list \<Rightarrow> bits option" where
  "bits_from_bools allow =
     fold_opt (\<lambda>slot b. if allow ! slot then bits_set slot b else Some b)
       [0..<length allow] (bits_empty (length allow))"

text \<open>The word-wise loops zip the two word lists: words past the shorter list stay.\<close>

definition zip_words :: "(u64 \<Rightarrow> u64 \<Rightarrow> u64) \<Rightarrow> u64 list \<Rightarrow> u64 list \<Rightarrow> u64 list" where
  "zip_words f xs ys = map2 f xs ys @ drop (length ys) xs"

definition bits_and_with :: "bits \<Rightarrow> bits \<Rightarrow> bits" where
  "bits_and_with a b = a\<lparr>words := zip_words (\<lambda>x y. x AND y) (words a) (words b)\<rparr>"

definition bits_or_with :: "bits \<Rightarrow> bits \<Rightarrow> bits" where
  "bits_or_with a b = a\<lparr>words := zip_words (\<lambda>x y. x OR y) (words a) (words b)\<rparr>"

definition bits_and_not :: "bits \<Rightarrow> bits \<Rightarrow> bits" where
  "bits_and_not a b = a\<lparr>words := zip_words (\<lambda>x y. x AND NOT y) (words a) (words b)\<rparr>"

definition bits_live :: "u64 list option \<Rightarrow> nat \<Rightarrow> bits" where
  "bits_live deleted n =
     (case deleted of
        None \<Rightarrow> bits_full n
      | Some ws \<Rightarrow> (let b = bits_full n
                    in b\<lparr>words := zip_words (\<lambda>w tomb. w AND NOT tomb) (words b) ws\<rparr>))"

definition bits_count :: "bits \<Rightarrow> nat" where
  "bits_count b = sum_list (map count_ones (words b))"

definition bits_clear_all :: "bits \<Rightarrow> bits" where
  "bits_clear_all b = b\<lparr>words := map (\<lambda>_. 0) (words b)\<rparr>"

definition bits_to_bools :: "bits \<Rightarrow> bool list" where
  "bits_to_bools b = map (bits_test b) [0..<len b]"

text \<open>The set bits of one word, lowest first: \<open>trailing_zeros\<close> then \<open>held &= held - 1\<close>.\<close>

lemma clear_lowest_less: "held \<noteq> 0 \<Longrightarrow> unat (held AND (held - 1)) < unat (held :: u64)"
proof -
  assume h: "held \<noteq> 0"
  have "held AND (held - 1) \<le> held - 1"
    by (rule word_and_le1)
  then have "unat (held AND (held - 1)) \<le> unat (held - 1)"
    by (simp add: word_le_nat_alt)
  also have "\<dots> < unat held"
    using h by (simp add: unat_minus_one unat_gt_0)
  finally show ?thesis .
qed

function drain_word :: "u64 \<Rightarrow> nat list" where
  "drain_word held =
     (if held = 0 then [] else trailing_zeros held # drain_word (held AND (held - 1)))"
  by pat_completeness auto
termination
  by (relation "measure unat") (simp_all add: clear_lowest_less)

declare drain_word.simps [simp del]

definition bits_iter :: "bits \<Rightarrow> nat list" where
  "bits_iter b = concat (map (\<lambda>wi. map (\<lambda>bit. wi * 64 + bit) (drain_word (words b ! wi)))
                          [0..<length (words b)])"

text \<open>
  \<open>iter_range\<close> is a generator over the state (word index, held bits); \<open>range_from\<close> is the
  list of slots it still yields from that state. Every index is at most \<open>last_word\<close>.
\<close>

definition range_mask :: "nat \<Rightarrow> nat \<Rightarrow> nat \<Rightarrow> u64" where
  "range_mask start stop wi =
     (let last_word = (stop - 1) div 64;
          m = (- 1 :: u64);
          m = (if wi = start div 64 then m AND push_bit (start mod 64) (- 1) else m)
      in if wi = last_word \<and> stop mod 64 \<noteq> 0 then m AND (bit_mask (stop mod 64) - 1) else m)"

function range_from :: "u64 list \<Rightarrow> nat \<Rightarrow> nat \<Rightarrow> nat \<Rightarrow> u64 \<Rightarrow> nat list" where
  "range_from ws start stop wi held =
     (if held \<noteq> 0 then (wi * 64 + trailing_zeros held) # range_from ws start stop wi (held AND (held - 1))
      else if (stop - 1) div 64 \<le> wi then []
      else range_from ws start stop (wi + 1) (ws ! (wi + 1) AND range_mask start stop (wi + 1)))"
  by pat_completeness auto
termination
  by (relation "measures [\<lambda>(ws, start, stop, wi, held). (stop - 1) div 64 - wi,
                          \<lambda>(ws, start, stop, wi, held). unat held]")
     (simp_all add: clear_lowest_less)

declare range_from.simps [simp del]

definition bits_iter_range :: "bits \<Rightarrow> nat \<Rightarrow> nat \<Rightarrow> nat list" where
  "bits_iter_range b start stop =
     (let stop = min stop (len b);
          start = min start stop;
          wi = start div 64;
          held = (if start < stop then words b ! wi AND range_mask start stop wi else 0)
      in range_from (words b) start stop wi held)"

text \<open>
  The bit-sliced counters of \<open>at_least\<close>: \<open>planes\<close> words per column, plane \<open>p\<close> carrying
  bit \<open>p\<close> of the count. \<open>bit_length n\<close> is \<open>usize::BITS - n.leading_zeros()\<close>.
\<close>

fun bit_length :: "nat \<Rightarrow> nat" where
  "bit_length n = (if n = 0 then 0 else Suc (bit_length (n div 2)))"

declare bit_length.simps [simp del]

fun plane_add :: "nat \<Rightarrow> u64 \<Rightarrow> u64 list list \<Rightarrow> u64 list list" where
  "plane_add wi carry [] = []"
| "plane_add wi carry (p # ps) =
     p[wi := p ! wi XOR carry] # plane_add wi (carry AND p ! wi) ps"

definition count_set :: "nat \<Rightarrow> bits \<Rightarrow> u64 list list \<Rightarrow> u64 list list option" where
  "count_set n s counter =
     fold_opt (\<lambda>wi c. map_option (\<lambda>carry. plane_add wi carry c) (nth_opt (words s) wi)) [0..<n] counter"

fun slot_count :: "nat \<Rightarrow> nat \<Rightarrow> nat \<Rightarrow> u64 list list \<Rightarrow> nat \<Rightarrow> nat" where
  "slot_count wi b p [] c = c"
| "slot_count wi b p (plane # planes) c =
     slot_count wi b (Suc p) planes
       (if plane ! wi AND bit_mask b \<noteq> 0 then c OR 2 ^ p else c)"

definition admitted_word :: "u64 list list \<Rightarrow> nat \<Rightarrow> nat \<Rightarrow> u64" where
  "admitted_word counter minimum wi =
     fold (\<lambda>b admitted. if slot_count wi b 0 counter 0 \<ge> minimum then admitted OR bit_mask b else admitted)
       [0..<64] 0"

definition bits_at_least :: "bits list \<Rightarrow> nat \<Rightarrow> nat \<Rightarrow> bits option" where
  "bits_at_least sets minimum n =
     (if minimum = 0 then Some (bits_full n)
      else if minimum > length sets then Some (bits_empty n)
      else if minimum = 1 then Some (fold (\<lambda>s out. bits_or_with out s) sets (bits_empty n))
      else if minimum = length sets then Some (fold (\<lambda>s out. bits_and_with out s) sets (bits_full n))
      else do {
        let planes = bit_length (length sets);
        let nwords = div_ceil n 64;
        counter \<leftarrow> fold_opt (count_set nwords) sets (replicate planes (replicate nwords 0));
        Some (bits_trim \<lparr>words = map (admitted_word counter minimum) [0..<nwords], len = n\<rparr>)
      })"

text \<open>The group rule. The second component tells whether the live set was the seed.\<close>

definition group_members ::
  "bits list \<Rightarrow> bits list \<Rightarrow> bits list \<Rightarrow> nat \<Rightarrow> bits \<Rightarrow> (bits \<times> bool) option" where
  "group_members must should must_not minimum_should_match live = do {
     let n = len live;
     (members, seeded_live) \<leftarrow>
       (case must of
          first # rest \<Rightarrow> Some (fold (\<lambda>m out. bits_and_with out m) rest first, False)
        | [] \<Rightarrow> if minimum_should_match = 0 then Some (live, True)
               else map_option (\<lambda>m. (m, False)) (bits_at_least should minimum_should_match n));
     members \<leftarrow>
       (if must \<noteq> [] \<and> minimum_should_match > 0
        then map_option (bits_and_with members) (bits_at_least should minimum_should_match n)
        else Some members);
     Some (fold (\<lambda>m out. bits_and_not out m) must_not members, seeded_live)
   }"


section \<open>Abstraction of the constructors\<close>

lemma slot_past_len:
  assumes "i div 64 < div_ceil n 64" "n \<le> i"
  shows "n mod 64 \<noteq> 0 \<and> i div 64 = n div 64 \<and> n mod 64 \<le> i mod 64"
proof -
  have le: "n div 64 \<le> i div 64" using assms(2) by (rule div_le_mono)
  with assms(1) have r: "n mod 64 \<noteq> 0" and q: "i div 64 = n div 64"
    by (auto simp: div_ceil_64_eq split: if_splits)
  have "n mod 64 \<le> i mod 64"
    using assms(2) q div_mult_mod_eq [of n 64] div_mult_mod_eq [of i 64] by linarith
  with r q show ?thesis by simp
qed

lemma slot_before_len:
  assumes "i < n" "i div 64 = n div 64"
  shows "i mod 64 < n mod (64 :: nat)"
  using assms div_mult_mod_eq [of n 64] div_mult_mod_eq [of i 64] by linarith

lemma mem_raw_slots [bits_simps]:
  "i \<in> raw_slots ws \<longleftrightarrow> i div 64 < length ws \<and> bit (ws ! (i div 64)) (i mod 64)"
  by (simp add: raw_slots_def)

lemma len_trim [simp]: "len (bits_trim b) = len b"
  by (simp add: bits_trim_def Let_def)

lemma length_words_trim [simp]: "length (words (bits_trim b)) = length (words b)"
  by (simp add: bits_trim_def Let_def)

lemma nth_trim:
  assumes "wi < length (words b)"
  shows "words (bits_trim b) ! wi =
    (if len b mod 64 \<noteq> 0 \<and> Suc wi = length (words b)
     then words b ! wi AND (bit_mask (len b mod 64) - 1) else words b ! wi)"
proof (cases "Suc wi = length (words b)")
  case True
  then have "wi = length (words b) - 1" by simp
  with assms show ?thesis
    by (auto simp: bits_trim_def Let_def nth_append last_conv_nth)
next
  case False
  with assms have "wi < length (words b) - 1" by simp
  with assms False show ?thesis
    by (auto simp: bits_trim_def Let_def nth_append nth_butlast)
qed

lemma slots_trim [bits_simps]:
  assumes "length (words b) = div_ceil (len b) 64"
  shows "slots (bits_trim b) = slots b \<inter> {..<len b}"
proof (rule set_eqI)
  fix i :: nat
  let ?n = "len b" and ?wi = "i div 64"
  show "i \<in> slots (bits_trim b) \<longleftrightarrow> i \<in> slots b \<inter> {..<?n}"
  proof (cases "?wi < length (words b)")
    case False
    then show ?thesis by (simp add: slots_def mem_raw_slots)
  next
    case True
    show ?thesis
    proof (cases "i < ?n")
      case less: True
      have "\<not> (?n mod 64 \<noteq> 0 \<and> Suc ?wi = length (words b)) \<or> i mod 64 < ?n mod 64"
        using less assms by (auto simp: div_ceil_64_eq intro: slot_before_len)
      with True less show ?thesis
        by (auto simp: slots_def mem_raw_slots nth_trim bit_simps bit_mask_minus_1)
    next
      case False
      then have past: "?n mod 64 \<noteq> 0 \<and> ?wi = ?n div 64 \<and> ?n mod 64 \<le> i mod 64"
        using True assms by (intro slot_past_len) simp_all
      then have "Suc ?wi = length (words b)"
        by (simp add: assms div_ceil_64_eq)
      with past have "\<not> bit (words (bits_trim b) ! ?wi) (i mod 64)"
        using True by (simp add: nth_trim bit_simps bit_mask_minus_1)
      with False show ?thesis
        by (simp add: slots_def mem_raw_slots)
    qed
  qed
qed

lemma inv_trim: "length (words b) = div_ceil (len b) 64 \<Longrightarrow> bits_inv (bits_trim b)"
  by (simp add: bits_inv_def slots_trim)

lemma slots_empty [bits_simps, simp]: "slots (bits_empty n) = {}"
  by (auto simp: slots_def mem_raw_slots bits_empty_def)

lemma len_empty [simp]: "len (bits_empty n) = n" "len (bits_full n) = n"
  by (simp_all add: bits_empty_def bits_full_def)

lemma inv_empty [simp]: "bits_inv (bits_empty n)"
  by (auto simp: bits_inv_def) (simp_all add: bits_empty_def)

lemma inv_full [simp]: "bits_inv (bits_full n)"
  by (simp add: bits_full_def inv_trim)

lemma slots_full [bits_simps, simp]: "slots (bits_full n) = {..<n}"
  by (auto simp: bits_full_def slots_trim) (auto simp: slots_def mem_raw_slots div_ceil_64)

section \<open>Abstraction of the updates\<close>

lemma slot_eqI: "i div 64 = j div 64 \<Longrightarrow> i mod 64 = j mod 64 \<Longrightarrow> i = (j :: nat)"
  by (metis div_mult_mod_eq)

lemma slots_set:
  assumes "slot div 64 < length (words b)"
  shows "\<exists>c. bits_set slot b = Some c \<and> slots c = insert slot (slots b) \<and> len c = len b
           \<and> length (words c) = length (words b)"
  using assms
  by (auto simp: bits_set_def slots_def mem_raw_slots nth_list_update bit_simps split: if_splits dest: slot_eqI)

lemma slots_clear:
  assumes "slot div 64 < length (words b)"
  shows "\<exists>c. bits_clear slot b = Some c \<and> slots c = slots b - {slot} \<and> len c = len b
           \<and> length (words c) = length (words b)"
  using assms
  by (auto simp: bits_clear_def slots_def mem_raw_slots nth_list_update bit_simps split: if_splits dest: slot_eqI)

lemma bits_test_iff: "bits_inv b \<Longrightarrow> bits_test b slot \<longleftrightarrow> slot \<in> slots b"
  by (auto simp: bits_test_def bits_inv_def and_bit_mask_neq_0 slots_def mem_raw_slots div_ceil_64)

lemma inv_setD:
  assumes "bits_inv b" "slot < len b"
  shows "slot div 64 < length (words b)"
  using assms by (simp add: bits_inv_def div_ceil_64)

lemma bits_set_inv:
  assumes "bits_inv b" "slot < len b"
  shows "\<exists>c. bits_set slot b = Some c \<and> bits_inv c \<and> slots c = insert slot (slots b) \<and> len c = len b"
  using slots_set [OF inv_setD [OF assms]] assms by (auto simp: bits_inv_def)

lemma bits_clear_inv:
  assumes "bits_inv b" "slot < len b"
  shows "\<exists>c. bits_clear slot b = Some c \<and> bits_inv c \<and> slots c = slots b - {slot} \<and> len c = len b"
  using slots_clear [OF inv_setD [OF assms]] assms by (auto simp: bits_inv_def)

lemma fold_bits_set:
  assumes "bits_inv b" "set xs \<subseteq> {..<len b}"
  shows "\<exists>c. fold_opt bits_set xs b = Some c \<and> bits_inv c \<and> slots c = slots b \<union> set xs \<and> len c = len b"
  using assms
proof (induction xs arbitrary: b)
  case (Cons x xs)
  then obtain c where c: "bits_set x b = Some c" "bits_inv c" "slots c = insert x (slots b)" "len c = len b"
    using bits_set_inv [of b x] by auto
  with Cons.IH [of c] Cons.prems show ?case by auto
qed simp

lemma fold_bits_clear:
  assumes "bits_inv b" "set xs \<subseteq> {..<len b}"
  shows "\<exists>c. fold_opt bits_clear xs b = Some c \<and> bits_inv c \<and> slots c = slots b - set xs \<and> len c = len b"
  using assms
proof (induction xs arbitrary: b)
  case (Cons x xs)
  then obtain c where c: "bits_clear x b = Some c" "bits_inv c" "slots c = slots b - {x}" "len c = len b"
    using bits_clear_inv [of b x] by auto
  with Cons.IH [of c] Cons.prems show ?case by auto
qed simp

lemma bits_prefix_correct:
  "\<exists>b. bits_prefix n rows = Some b \<and> bits_inv b \<and> len b = n \<and> slots b = {..<min rows n}"
proof -
  have "{..<n} - {min rows n..<n} = {..<min rows n}" by auto
  with fold_bits_clear [of "bits_full n" "[min rows n..<n]"] show ?thesis
    by (auto simp: bits_prefix_def)
qed

lemma bits_ranges_correct:
  "\<exists>b. bits_ranges n rs = Some b \<and> bits_inv b \<and> len b = n
     \<and> slots b = (\<Union>(base, rows) \<in> set rs. {base..<base + rows}) \<inter> {..<n}"
proof -
  have "\<exists>c. fold_opt (\<lambda>(base, rows). fold_opt bits_set [min base n..<min (base + rows) n]) rs b = Some c
      \<and> bits_inv c \<and> len c = n
      \<and> slots c = slots b \<union> (\<Union>(base, rows) \<in> set rs. {base..<base + rows}) \<inter> {..<n}"
    if "bits_inv b" "len b = n" for b
    using that
  proof (induction rs arbitrary: b)
    case (Cons r rs)
    obtain base rows where r: "r = (base, rows)" by (cases r)
    obtain c where c: "fold_opt bits_set [min base n..<min (base + rows) n] b = Some c" "bits_inv c"
        "slots c = slots b \<union> {min base n..<min (base + rows) n}" "len c = n"
      using fold_bits_set [of b "[min base n..<min (base + rows) n]"] Cons.prems by auto
    moreover have "{min base n..<min (base + rows) n} = {base..<base + rows} \<inter> {..<n}"
      by auto
    ultimately show ?case
      using Cons.IH [OF c(2) c(4)] by (auto simp: r)
  qed simp
  from this [of "bits_empty n"] show ?thesis
    by (simp add: bits_ranges_def)
qed

lemma bits_from_bools_correct:
  "\<exists>b. bits_from_bools allow = Some b \<and> bits_inv b \<and> len b = length allow
     \<and> slots b = {i. i < length allow \<and> allow ! i}"
proof -
  let ?f = "\<lambda>slot b. if allow ! slot then bits_set slot b else Some b"
  have "\<exists>c. fold_opt ?f xs b = Some c \<and> bits_inv c \<and> len c = len b
      \<and> slots c = slots b \<union> {i \<in> set xs. allow ! i}"
    if "bits_inv b" "set xs \<subseteq> {..<len b}" for xs b
    using that
  proof (induction xs arbitrary: b)
    case (Cons x xs)
    then obtain c where c: "?f x b = Some c" "bits_inv c" "len c = len b"
        "slots c = slots b \<union> (if allow ! x then {x} else {})"
      using bits_set_inv [of b x] by (cases "allow ! x") auto
    with Cons.IH [of c] Cons.prems show ?case by auto
  qed simp
  from this [of "bits_empty (length allow)" "[0..<length allow]"] show ?thesis
    by (auto simp: bits_from_bools_def)
qed

lemma length_zip_words [simp]: "length (zip_words f xs ys) = length xs"
  by (simp add: zip_words_def)

lemma nth_zip_words:
  "i < length xs \<Longrightarrow> zip_words f xs ys ! i = (if i < length ys then f (xs ! i) (ys ! i) else xs ! i)"
  by (auto simp: zip_words_def nth_append)

lemma bits_ops_len [simp]:
  "len (bits_and_with a b) = len a" "len (bits_or_with a b) = len a" "len (bits_and_not a b) = len a"
  by (simp_all add: bits_and_with_def bits_or_with_def bits_and_not_def)

lemma inv_same_words: "bits_inv a \<Longrightarrow> bits_inv b \<Longrightarrow> len a = len b \<Longrightarrow> length (words a) = length (words b)"
  by (simp add: bits_inv_def)

lemma slots_word_ops:
  assumes "length (words a) = length (words b)"
  shows "slots (bits_and_with a b) = slots a \<inter> slots b"
    and "slots (bits_or_with a b) = slots a \<union> slots b"
    and "slots (bits_and_not a b) = slots a - slots b"
  using assms
  by (auto simp: slots_def mem_raw_slots bits_and_with_def bits_or_with_def bits_and_not_def
      nth_zip_words bit_simps)

section \<open>The contract of the set algebra\<close>

locale slot_algebra =
  fixes invar :: "'b \<Rightarrow> bool" and size_of :: "'b \<Rightarrow> nat" and abs :: "'b \<Rightarrow> nat set"
    and inter :: "'b \<Rightarrow> 'b \<Rightarrow> 'b" and union :: "'b \<Rightarrow> 'b \<Rightarrow> 'b" and diff :: "'b \<Rightarrow> 'b \<Rightarrow> 'b"
  assumes abs_bound: "invar a \<Longrightarrow> abs a \<subseteq> {..<size_of a}"
    and inter_law: "invar a \<Longrightarrow> invar b \<Longrightarrow> size_of b = size_of a \<Longrightarrow>
      invar (inter a b) \<and> size_of (inter a b) = size_of a \<and> abs (inter a b) = abs a \<inter> abs b"
    and union_law: "invar a \<Longrightarrow> invar b \<Longrightarrow> size_of b = size_of a \<Longrightarrow>
      invar (union a b) \<and> size_of (union a b) = size_of a \<and> abs (union a b) = abs a \<union> abs b"
    and diff_law: "invar a \<Longrightarrow> invar b \<Longrightarrow> size_of b = size_of a \<Longrightarrow>
      invar (diff a b) \<and> size_of (diff a b) = size_of a \<and> abs (diff a b) = abs a - abs b"
begin

definition all_of :: "nat \<Rightarrow> 'b list \<Rightarrow> bool" where
  "all_of n ss \<longleftrightarrow> (\<forall>s \<in> set ss. invar s \<and> size_of s = n)"

lemma all_of_simps [simp]:
  "all_of n []" "all_of n (s # ss) \<longleftrightarrow> invar s \<and> size_of s = n \<and> all_of n ss"
  by (auto simp: all_of_def)

lemma fold_inter:
  "invar a \<Longrightarrow> all_of (size_of a) ss \<Longrightarrow>
   invar (fold (\<lambda>s out. inter out s) ss a) \<and> size_of (fold (\<lambda>s out. inter out s) ss a) = size_of a
   \<and> abs (fold (\<lambda>s out. inter out s) ss a) = {i \<in> abs a. \<forall>s \<in> set ss. i \<in> abs s}"
  by (induction ss arbitrary: a) (use inter_law in \<open>auto simp: conj_ac\<close>)

lemma fold_union:
  "invar a \<Longrightarrow> all_of (size_of a) ss \<Longrightarrow>
   invar (fold (\<lambda>s out. union out s) ss a) \<and> size_of (fold (\<lambda>s out. union out s) ss a) = size_of a
   \<and> abs (fold (\<lambda>s out. union out s) ss a) = abs a \<union> {i. \<exists>s \<in> set ss. i \<in> abs s}"
  by (induction ss arbitrary: a) (use union_law in \<open>auto simp: conj_ac\<close>)

lemma fold_diff:
  "invar a \<Longrightarrow> all_of (size_of a) ss \<Longrightarrow>
   invar (fold (\<lambda>s out. diff out s) ss a) \<and> size_of (fold (\<lambda>s out. diff out s) ss a) = size_of a
   \<and> abs (fold (\<lambda>s out. diff out s) ss a) = {i \<in> abs a. \<forall>s \<in> set ss. i \<notin> abs s}"
  by (induction ss arbitrary: a) (use diff_law in \<open>auto simp: conj_ac\<close>)

end

lemma length_word_ops [simp]:
  "length (words (bits_and_with a b)) = length (words a)"
  "length (words (bits_or_with a b)) = length (words a)"
  "length (words (bits_and_not a b)) = length (words a)"
  by (simp_all add: bits_and_with_def bits_or_with_def bits_and_not_def)

lemma bits_inv_frame:
  "bits_inv a \<Longrightarrow> length (words c) = length (words a) \<Longrightarrow> len c = len a \<Longrightarrow> slots c \<subseteq> {..<len a} \<Longrightarrow> bits_inv c"
  by (simp add: bits_inv_def)

lemma bits_inv_slots: "bits_inv a \<Longrightarrow> slots a \<subseteq> {..<len a}"
  by (simp add: bits_inv_def)

lemma bits_word_op_inv:
  assumes "bits_inv a" "bits_inv b" "len b = len a"
  shows "bits_inv (bits_and_with a b)" "bits_inv (bits_or_with a b)" "bits_inv (bits_and_not a b)"
proof -
  have w: "length (words a) = length (words b)"
    by (rule inv_same_words) (use assms in simp_all)
  have sub: "slots a \<subseteq> {..<len a}" "slots b \<subseteq> {..<len a}"
    using assms bits_inv_slots by metis+
  show "bits_inv (bits_and_with a b)"
    by (rule bits_inv_frame [OF assms(1)]) (use sub in \<open>auto simp: slots_word_ops [OF w]\<close>)
  show "bits_inv (bits_or_with a b)"
    by (rule bits_inv_frame [OF assms(1)]) (use sub in \<open>auto simp: slots_word_ops [OF w]\<close>)
  show "bits_inv (bits_and_not a b)"
    by (rule bits_inv_frame [OF assms(1)]) (use sub in \<open>auto simp: slots_word_ops [OF w]\<close>)
qed

interpretation bits_algebra: slot_algebra bits_inv len slots bits_and_with bits_or_with bits_and_not
  by unfold_locales
     (simp_all add: bits_inv_slots bits_word_op_inv slots_word_ops [OF inv_same_words])

subsection \<open>The bit-sliced count\<close>

fun col_value :: "nat \<Rightarrow> nat \<Rightarrow> u64 list list \<Rightarrow> nat" where
  "col_value wi b [] = 0"
| "col_value wi b (p # ps) = of_bool (bit (p ! wi) b) + 2 * col_value wi b ps"

lemma col_value_less: "col_value wi b ps < 2 ^ length ps"
  by (induction ps) auto

lemma length_plane_add [simp]: "length (plane_add wi carry ps) = length ps"
  by (induction ps arbitrary: carry) auto

lemma plane_add_lengths:
  "\<forall>p \<in> set ps. length p = n \<Longrightarrow> \<forall>p \<in> set (plane_add wi carry ps). length p = n"
  by (induction ps arbitrary: carry) auto

lemma col_value_plane_add_same:
  assumes "\<forall>p \<in> set ps. length p = n" "wi < n"
  shows "col_value wi b (plane_add wi carry ps) = (col_value wi b ps + of_bool (bit carry b)) mod 2 ^ length ps"
  using assms(1)
proof (induction ps arbitrary: carry)
  case (Cons p ps)
  let ?v = "col_value wi b ps" and ?c = "carry AND p ! wi"
  have split: "(x + 2 * y) mod 2 ^ Suc k = x + 2 * (y mod 2 ^ k)" if "x < 2" for x y k :: nat
    using that by (simp add: mod_mult2_eq)
  have "col_value wi b (plane_add wi carry (p # ps))
      = of_bool (bit (p ! wi) b \<noteq> bit carry b) + 2 * ((?v + of_bool (bit ?c b)) mod 2 ^ length ps)"
    using Cons assms(2) by (simp add: bit_simps)
  also have "\<dots> = (of_bool (bit (p ! wi) b \<noteq> bit carry b) + 2 * (?v + of_bool (bit ?c b))) mod 2 ^ Suc (length ps)"
    by (rule split [symmetric]) simp
  also have "of_bool (bit (p ! wi) b \<noteq> bit carry b) + 2 * (?v + of_bool (bit ?c b))
      = of_bool (bit (p ! wi) b) + 2 * ?v + (of_bool (bit carry b) :: nat)"
    by (auto simp: bit_simps)
  finally show ?case by simp
qed simp

lemma col_value_plane_add_other:
  "wi' \<noteq> wi \<Longrightarrow> col_value wi' b (plane_add wi carry ps) = col_value wi' b ps"
  by (induction ps arbitrary: carry) auto

lemma count_set_col:
  assumes "\<forall>p \<in> set ps. length p = n" "n \<le> length (words s)"
  shows "\<exists>qs. count_set n s ps = Some qs \<and> length qs = length ps \<and> (\<forall>p \<in> set qs. length p = n)
    \<and> (\<forall>wi < n. \<forall>b. col_value wi b qs
          = (col_value wi b ps + of_bool (bit (words s ! wi) b)) mod 2 ^ length ps)"
proof -
  have "\<exists>qs. fold_opt (\<lambda>wi c. map_option (\<lambda>carry. plane_add wi carry c) (nth_opt (words s) wi)) [0..<m] ps = Some qs
      \<and> length qs = length ps \<and> (\<forall>p \<in> set qs. length p = n)
      \<and> (\<forall>wi b. col_value wi b qs = (if wi < m then (col_value wi b ps + of_bool (bit (words s ! wi) b)) mod 2 ^ length ps
                 else col_value wi b ps))"
    if "m \<le> n" for m
    using that
  proof (induction m)
    case 0
    with assms show ?case by simp
  next
    case (Suc m)
    then obtain qs where qs: "fold_opt (\<lambda>wi c. map_option (\<lambda>carry. plane_add wi carry c) (nth_opt (words s) wi)) [0..<m] ps = Some qs"
      "length qs = length ps" "\<forall>p \<in> set qs. length p = n"
      "\<forall>wi b. col_value wi b qs = (if wi < m then (col_value wi b ps + of_bool (bit (words s ! wi) b)) mod 2 ^ length ps
                 else col_value wi b ps)"
      by auto
    let ?qs = "plane_add m (words s ! m) qs"
    have "col_value wi b ?qs = (if wi < Suc m then (col_value wi b ps + of_bool (bit (words s ! wi) b)) mod 2 ^ length ps
                 else col_value wi b ps)" for wi b
    proof (cases "wi = m")
      case True
      then show ?thesis
        using col_value_plane_add_same [OF qs(3), of m] qs Suc.prems by simp
    next
      case False
      then show ?thesis
        using qs by (auto simp: col_value_plane_add_other)
    qed
    with qs Suc.prems assms(2) plane_add_lengths [OF qs(3)] show ?case
      by (simp add: fold_opt_append)
  qed
  from this [of n] show ?thesis by (auto simp: count_set_def)
qed

subsection \<open>Counting members\<close>

definition hits :: "bits list \<Rightarrow> nat \<Rightarrow> nat" where
  "hits sets i = length (filter (\<lambda>s. i \<in> slots s) sets)"

lemma hits_simps [simp]: "hits [] i = 0" "hits (s # ss) i = of_bool (i \<in> slots s) + hits ss i"
  by (simp_all add: hits_def)

lemma hits_le_length: "hits sets i \<le> length sets"
  by (simp add: hits_def)

lemma less_2_pow_bit_length: "n < 2 ^ bit_length n"
proof (induction n rule: bit_length.induct)
  case (1 n)
  show ?case
  proof (cases "n = 0")
    case False
    with 1 have "n div 2 < 2 ^ bit_length (n div 2)" by simp
    then have "n < 2 * 2 ^ bit_length (n div 2)" by linarith
    with False show ?thesis by (simp add: bit_length.simps [of n])
  qed (simp add: bit_length.simps)
qed

lemma count_sets_col:
  assumes "\<forall>p \<in> set ps. length p = n" "\<forall>s \<in> set sets. n \<le> length (words s)"
  shows "\<exists>qs. fold_opt (count_set n) sets ps = Some qs \<and> length qs = length ps \<and> (\<forall>p \<in> set qs. length p = n)
    \<and> (\<forall>wi < n. \<forall>b < 64. col_value wi b qs = (col_value wi b ps + hits sets (wi * 64 + b)) mod 2 ^ length ps)"
  using assms
proof (induction sets arbitrary: ps)
  case Nil
  then show ?case using col_value_less by simp
next
  case (Cons s sets)
  then obtain qs where qs: "count_set n s ps = Some qs" "length qs = length ps" "\<forall>p \<in> set qs. length p = n"
    "\<forall>wi < n. \<forall>b. col_value wi b qs = (col_value wi b ps + of_bool (bit (words s ! wi) b)) mod 2 ^ length ps"
    using count_set_col [of ps n s] by auto
  from Cons.IH [OF qs(3)] Cons.prems(2) obtain rs where
    rs: "fold_opt (count_set n) sets qs = Some rs" "length rs = length ps" "\<forall>p \<in> set rs. length p = n"
    "\<forall>wi < n. \<forall>b < 64. col_value wi b rs = (col_value wi b qs + hits sets (wi * 64 + b)) mod 2 ^ length ps"
    using qs(2) by auto
  have "col_value wi b rs = (col_value wi b ps + hits (s # sets) (wi * 64 + b)) mod 2 ^ length ps"
    if "wi < n" "b < 64" for wi b
  proof -
    have "wi * 64 + b \<in> slots s \<longleftrightarrow> bit (words s ! wi) b"
      using that Cons.prems(2) by (auto simp: slots_def mem_raw_slots)
    then show ?thesis
      using that rs(4) qs(4) by (simp add: mod_add_left_eq add.assoc)
  qed
  with rs qs show ?case by auto
qed

lemma slot_count_eq:
  "b < 64 \<Longrightarrow> c < 2 ^ p \<Longrightarrow> slot_count wi b p ps c = c + 2 ^ p * col_value wi b ps"
proof (induction ps arbitrary: p c)
  case (Cons q ps)
  have "c OR 2 ^ p < 2 ^ Suc p" using Cons.prems(2) by (simp add: or_exp_eq)
  moreover have "c < 2 ^ Suc p" using Cons.prems(2) by simp
  ultimately show ?case
    using Cons by (simp add: and_bit_mask_neq_0 or_exp_eq algebra_simps)
qed simp

lemma bit_admitted_word:
  "bit (admitted_word counter minimum wi) b \<longleftrightarrow> b < 64 \<and> minimum \<le> col_value wi b counter"
proof -
  have "bit (fold (\<lambda>b admitted. if slot_count wi b 0 counter 0 \<ge> minimum then admitted OR bit_mask b else admitted) xs w) b
      \<longleftrightarrow> bit w b \<or> b \<in> set xs \<and> minimum \<le> col_value wi b counter" if "set xs \<subseteq> {..<64}" for xs w
    using that by (induction xs arbitrary: w) (auto simp: bit_simps slot_count_eq)
  from this [of "[0..<64]" 0] show ?thesis
    by (auto simp: admitted_word_def)
qed

lemma at_least_general:
  assumes "bits_algebra.all_of n sets"
  shows "\<exists>counter. fold_opt (count_set (div_ceil n 64)) sets
      (replicate (bit_length (length sets)) (replicate (div_ceil n 64) 0)) = Some counter
    \<and> slots (bits_trim \<lparr>words = map (admitted_word counter minimum) [0..<div_ceil n 64], len = n\<rparr>)
        = {i. i < n \<and> minimum \<le> hits sets i}"
proof -
  let ?m = "div_ceil n 64" and ?planes = "bit_length (length sets)"
  let ?ps = "replicate ?planes (replicate ?m (0 :: u64))"
  have zero: "col_value wi b (replicate k (replicate ?m 0)) = 0" if "wi < ?m" for wi b k
    using that by (induction k) auto
  have "\<forall>s \<in> set sets. ?m \<le> length (words s)"
    using assms by (auto simp: bits_algebra.all_of_def bits_inv_def)
  then obtain counter where counter: "fold_opt (count_set ?m) sets ?ps = Some counter"
    "\<forall>wi < ?m. \<forall>b < 64. col_value wi b counter = hits sets (wi * 64 + b) mod 2 ^ ?planes"
    using count_sets_col [of ?ps ?m sets] zero by auto
  have no_wrap: "hits sets i mod 2 ^ ?planes = hits sets i" for i
    using le_less_trans [OF hits_le_length less_2_pow_bit_length] by simp
  have "i div 64 < ?m \<Longrightarrow> col_value (i div 64) (i mod 64) counter = hits sets i" for i
    using counter(2) no_wrap by (simp add: div_mult_mod_eq)
  then have "slots (bits_trim \<lparr>words = map (admitted_word counter minimum) [0..<?m], len = n\<rparr>)
      = {i. i < n \<and> minimum \<le> hits sets i}"
    by (subst slots_trim) (auto simp: slots_def mem_raw_slots bit_admitted_word div_ceil_64)
  with counter(1) show ?thesis by blast
qed

lemma hits_eq_length: "hits sets i = length sets \<longleftrightarrow> (\<forall>s \<in> set sets. i \<in> slots s)"
proof (induction sets)
  case (Cons s sets)
  with hits_le_length [of sets i] show ?case by auto
qed simp

lemma hits_pos: "Suc 0 \<le> hits sets i \<longleftrightarrow> (\<exists>s \<in> set sets. i \<in> slots s)"
  by (induction sets) auto

lemma at_least_correct:
  assumes "bits_algebra.all_of n sets"
  shows "\<exists>b. bits_at_least sets minimum n = Some b \<and> bits_inv b \<and> len b = n
    \<and> slots b = {i. i < n \<and> minimum \<le> hits sets i}"
proof -
  have sub: "s \<in> set sets \<Longrightarrow> slots s \<subseteq> {..<n}" for s
    using assms bits_inv_slots [of s] by (auto simp: bits_algebra.all_of_def)
  consider "minimum = 0" | "minimum > length sets" | "minimum = 1" "1 \<le> length sets"
    | "minimum = length sets" "minimum \<noteq> 1" "minimum \<noteq> 0"
    | "minimum \<noteq> 0" "minimum \<noteq> 1" "minimum < length sets"
    by linarith
  then show ?thesis
  proof cases
    case 1
    then show ?thesis by (auto simp: bits_at_least_def)
  next
    case 2
    then show ?thesis using hits_le_length [of sets] by (auto simp: bits_at_least_def not_le intro: le_less_trans)
  next
    case 3
    then show ?thesis
      using bits_algebra.fold_union [of "bits_empty n" sets] assms sub
      by (auto simp: bits_at_least_def hits_pos)
  next
    case 4
    have "length sets \<le> hits sets i \<longleftrightarrow> (\<forall>s \<in> set sets. i \<in> slots s)" for i
      using hits_le_length [of sets i] hits_eq_length [of sets i] by auto
    with 4 show ?thesis
      using bits_algebra.fold_inter [of "bits_full n" sets] assms
      by (auto simp: bits_at_least_def)
  next
    case 5
    then show ?thesis
      using at_least_general [OF assms, of minimum] by (auto simp: bits_at_least_def inv_trim)
  qed
qed


lemma group_members_correct:
  assumes "bits_inv live"
    and "\<forall>s \<in> set must \<union> set should \<union> set must_not. bits_inv s \<and> len s = len live"
  shows "\<exists>b seeded. group_members must should must_not msm live = Some (b, seeded)
    \<and> bits_inv b \<and> len b = len live \<and> (seeded \<longleftrightarrow> must = [] \<and> msm = 0)
    \<and> slots b = {i. i < len live \<and> (must = [] \<and> msm = 0 \<longrightarrow> i \<in> slots live)
                     \<and> (\<forall>m \<in> set must. i \<in> slots m) \<and> msm \<le> hits should i
                     \<and> (\<forall>m \<in> set must_not. i \<notin> slots m)}"
proof -
  let ?n = "len live"
  have all: "bits_algebra.all_of ?n must" "bits_algebra.all_of ?n should" "bits_algebra.all_of ?n must_not"
    using assms(2) by (auto simp: bits_algebra.all_of_def)
  obtain sh where sh: "bits_at_least should msm ?n = Some sh" "bits_inv sh" "len sh = ?n"
    "slots sh = {i. i < ?n \<and> msm \<le> hits should i}"
    using at_least_correct [OF all(2), of msm] by auto
  have live: "slots live \<subseteq> {..<?n}" using assms(1) by (rule bits_inv_slots)
  define members where "members =
    (case must of
       first # rest \<Rightarrow> (let a = fold (\<lambda>m out. bits_and_with out m) rest first
                       in if msm > 0 then bits_and_with a sh else a)
     | [] \<Rightarrow> if msm = 0 then live else sh)"
  have run: "group_members must should must_not msm live
      = Some (fold (\<lambda>m out. bits_and_not out m) must_not members, must = [] \<and> msm = 0)"
    by (simp add: group_members_def members_def sh(1) Let_def split: list.split)
  have mem: "bits_inv members \<and> len members = ?n
      \<and> slots members = {i. i < ?n \<and> (must = [] \<and> msm = 0 \<longrightarrow> i \<in> slots live)
                           \<and> (\<forall>m \<in> set must. i \<in> slots m) \<and> msm \<le> hits should i}"
  proof (cases must)
    case Nil
    then show ?thesis using sh live assms(1) by (auto simp: members_def)
  next
    case (Cons first rest)
    let ?a = "fold (\<lambda>m out. bits_and_with out m) rest first"
    have a: "bits_inv ?a" "len ?a = ?n" "slots ?a = {i \<in> slots first. \<forall>m \<in> set rest. i \<in> slots m}"
      using bits_algebra.fold_inter [of first rest] all(1) Cons by simp_all
    have "slots first \<subseteq> {..<?n}" using all(1) Cons bits_inv_slots [of first] by simp
    with a bits_algebra.inter_law [of ?a sh] sh Cons show ?thesis
      by (auto simp: members_def Let_def)
  qed
  then have "bits_inv members" "len members = ?n" by simp_all
  with bits_algebra.fold_diff [of members must_not] all(3) mem show ?thesis
    by (auto simp: run)
qed

section \<open>Iteration\<close>

lemma drain_word_eq: "drain_word w = filter (bit w) [0..<64]"
proof (induction w rule: drain_word.induct)
  case (1 w)
  show ?case
  proof (cases "w = 0")
    case False
    note tz = trailing_zeros_props [OF False]
    have "filter (bit w) [0..<64] = trailing_zeros w # filter (\<lambda>i. bit w i \<and> i \<noteq> trailing_zeros w) [0..<64]"
      by (rule filter_split_first) (use tz in auto)
    with 1 [OF False] False show ?thesis
      by (simp add: drain_word.simps [of w] bit_clear_lowest)
  qed (simp add: drain_word.simps)
qed

text \<open>Both iterators list the slots of a range in ascending order.\<close>

lemma filter_block:
  "map (\<lambda>b. wi * 64 + b) (filter (bit w) [0..<64]) = filter (\<lambda>i. bit w (i mod 64)) [wi * 64..<wi * 64 + 64]"
proof -
  have "[wi * 64..<wi * 64 + 64] = map (\<lambda>b. wi * 64 + b) [0..<64]"
    by (simp add: map_add_upt add.commute)
  then show ?thesis by (auto simp: filter_map o_def intro!: filter_cong)
qed

definition block :: "(nat \<Rightarrow> u64) \<Rightarrow> nat \<Rightarrow> nat list" where
  "block w wi = map (\<lambda>b. wi * 64 + b) (drain_word (w wi))"

lemma concat_blocks:
  assumes "a \<le> m"
  shows "concat (map (block w) [a..<m]) = filter (\<lambda>i. bit (w (i div 64)) (i mod 64)) [a * 64..<m * 64]"
  using assms
proof (induction rule: dec_induct)
  case (step m)
  have "[a * 64..<Suc m * 64] = [a * 64..<m * 64] @ [m * 64..<m * 64 + 64]"
    using step.hyps by (subst upt_split [of "a * 64" "m * 64"]) (simp_all add: add.commute)
  moreover have "filter (\<lambda>i. bit (w (i div 64)) (i mod 64)) [m * 64..<m * 64 + 64]
      = filter (\<lambda>i. bit (w m) (i mod 64)) [m * 64..<m * 64 + 64]"
  proof (rule filter_cong)
    fix i assume "i \<in> set [m * 64..<m * 64 + 64]"
    then have "i div 64 = m" by (simp add: div_nat_eqI)
    then show "bit (w (i div 64)) (i mod 64) = bit (w m) (i mod 64)" by simp
  qed simp
  ultimately show ?case
    using step by (simp add: block_def drain_word_eq filter_block)
qed simp

lemma range_from_eq:
  "wi \<le> (stop - 1) div 64 \<Longrightarrow>
   range_from ws start stop wi held =
     map (\<lambda>b. wi * 64 + b) (drain_word held)
     @ concat (map (block (\<lambda>v. ws ! v AND range_mask start stop v)) [Suc wi..<Suc ((stop - 1) div 64)])"
proof (induction ws start stop wi held rule: range_from.induct)
  case (1 ws start stop wi held)
  show ?case
  proof (cases "held = 0")
    case False
    then show ?thesis
      using 1 by (simp add: range_from.simps [of ws start stop wi held] drain_word.simps [of held])
  next
    case True
    show ?thesis
    proof (cases "(stop - 1) div 64 \<le> wi")
      case last: True
      with 1(3) True show ?thesis
        by (simp add: range_from.simps [of ws start stop wi 0] drain_word.simps [of 0])
    next
      case False
      then have "[Suc wi..<Suc ((stop - 1) div 64)] = Suc wi # [Suc (Suc wi)..<Suc ((stop - 1) div 64)]"
        by (simp add: upt_conv_Cons)
      with 1(2) False True show ?thesis
        by (simp add: range_from.simps [of ws start stop wi 0] drain_word.simps [of 0] block_def)
    qed
  qed
qed

lemma bit_range_mask:
  assumes "start < stop" "start div 64 \<le> i div 64" "i div 64 \<le> (stop - 1) div 64"
  shows "bit (range_mask start stop (i div 64)) (i mod 64) \<longleftrightarrow> start \<le> i \<and> i < stop"
proof -
  have lo: "start \<le> i \<longleftrightarrow> (i div 64 = start div 64 \<longrightarrow> start mod 64 \<le> i mod 64)"
    using assms(2) less_divmod_64 [of i start] by linarith
  have "i < stop \<longleftrightarrow> \<not> stop - 1 < i" using assms(1) by linarith
  also have "\<dots> \<longleftrightarrow> (i div 64 = (stop - 1) div 64 \<longrightarrow> i mod 64 \<le> (stop - 1) mod 64)"
    using assms(3) less_divmod_64 [of "stop - 1" i] by linarith
  also have "\<dots> \<longleftrightarrow> (i div 64 = (stop - 1) div 64 \<and> stop mod 64 \<noteq> 0 \<longrightarrow> i mod 64 < stop mod 64)"
  proof (cases "stop mod 64 = 0")
    case True
    then have "(stop - 1) mod 64 = 63" using pred_divmod_64 [of stop] assms(1) by simp
    moreover have "i mod 64 \<le> 63" using mod_less_divisor [of 64 i] by linarith
    ultimately show ?thesis using True by simp
  next
    case False
    then have "(stop - 1) mod 64 = stop mod 64 - 1" using pred_divmod_64 [of stop] assms(1) by simp
    then have "i mod 64 \<le> (stop - 1) mod 64 \<longleftrightarrow> i mod 64 < stop mod 64" using False by linarith
    then show ?thesis using False by simp
  qed
  finally have hi: "i < stop \<longleftrightarrow> (i div 64 = (stop - 1) div 64 \<and> stop mod 64 \<noteq> 0 \<longrightarrow> i mod 64 < stop mod 64)" .
  show ?thesis
    by (auto simp: range_mask_def Let_def bit_simps bit_mask_minus_1 lo hi)
qed


lemma bits_iter_correct: "bits_inv b \<Longrightarrow> bits_iter b = filter (\<lambda>i. i \<in> slots b) [0..<len b]"
proof -
  assume inv: "bits_inv b"
  have "bits_iter b = concat (map (block (\<lambda>v. words b ! v)) [0..<length (words b)])"
    by (simp add: bits_iter_def block_def [abs_def])
  also have "\<dots> = filter (\<lambda>i. bit (words b ! (i div 64)) (i mod 64)) [0..<length (words b) * 64]"
    by (simp add: concat_blocks)
  also have "\<dots> = filter (\<lambda>i. i \<in> slots b) [0..<len b]"
  proof (rule filter_upt_mono)
    show "len b \<le> length (words b) * 64"
      using inv by (simp add: bits_inv_def div_ceil_def)
    show "bit (words b ! (i div 64)) (i mod 64) \<longleftrightarrow> 0 \<le> i \<and> i < len b \<and> i \<in> slots b"
      if "i < length (words b) * 64" for i
    proof -
      have "bit (words b ! (i div 64)) (i mod 64) \<longleftrightarrow> i \<in> slots b"
        using less_mult_imp_div_less [OF that] by (simp add: slots_def mem_raw_slots)
      then show ?thesis using bits_inv_slots [OF inv] by auto
    qed
  qed simp
  finally show ?thesis .
qed

lemma bits_iter_range_correct:
  assumes "bits_inv b"
  shows "bits_iter_range b start stop = filter (\<lambda>i. i \<in> slots b) [start..<min stop (len b)]"
proof -
  define e where "e = min stop (len b)"
  define a where "a = min start e"
  have e_le: "e \<le> len b" by (simp add: e_def)
  show ?thesis
  proof (cases "a < e")
    case False
    then have "a = e" "e \<le> start" by (simp_all add: a_def)
    moreover have "(e - 1) div 64 \<le> e div 64" by (rule div_le_mono) simp
    ultimately show ?thesis
      by (simp add: bits_iter_range_def Let_def flip: e_def a_def)
         (simp add: range_from.simps [of "words b" e e "e div 64" 0])
  next
    case True
    let ?w = "\<lambda>v. words b ! v AND range_mask a e v"
    have a: "a = start" using True by (simp add: a_def)
    have last: "a div 64 \<le> (e - 1) div 64" using True by (intro div_le_mono) simp
    have "bits_iter_range b start stop = range_from (words b) a e (a div 64) (?w (a div 64))"
      using True by (simp add: bits_iter_range_def Let_def flip: e_def a_def)
    also have "\<dots> = concat (map (block ?w) [a div 64..<Suc ((e - 1) div 64)])"
      using last by (simp add: range_from_eq [OF last] upt_conv_Cons block_def del: upt_Suc)
    also have "\<dots> = filter (\<lambda>i. bit (?w (i div 64)) (i mod 64)) [a div 64 * 64..<Suc ((e - 1) div 64) * 64]"
      using last by (simp only: concat_blocks le_SucI)
    also have "\<dots> = filter (\<lambda>i. i \<in> slots b) [a..<e]"
    proof (rule filter_upt_mono)
      show "e \<le> Suc ((e - 1) div 64) * 64"
        using div_mult_mod_eq [of "e - 1" 64] mod_less_divisor [of 64 "e - 1"] by simp
      show "bit (?w (i div 64)) (i mod 64) \<longleftrightarrow> a \<le> i \<and> i < e \<and> i \<in> slots b"
        if i: "a div 64 * 64 \<le> i" "i < Suc ((e - 1) div 64) * 64" for i
      proof -
        have "a div 64 \<le> i div 64" using div_le_mono [OF i(1), of 64] by simp
        moreover have "i div 64 \<le> (e - 1) div 64" using less_mult_imp_div_less [OF i(2)] by simp
        ultimately have m: "bit (range_mask a e (i div 64)) (i mod 64) \<longleftrightarrow> a \<le> i \<and> i < e"
          by (rule bit_range_mask [OF True])
        show ?thesis
          using inv_setD [OF assms, of i] e_le by (auto simp: bit_simps m slots_def mem_raw_slots)
      qed
    qed simp
    finally show ?thesis by (simp add: a e_def)
  qed
qed


lemma count_ones_length: "count_ones w = length (drain_word w)"
  by (simp add: count_ones_def drain_word_eq)

lemma bits_count_correct:
  assumes "bits_inv b"
  shows "bits_count b = card (slots b)"
proof -
  have "bits_count b = length (bits_iter b)"
    by (simp add: bits_count_def bits_iter_def count_ones_length length_concat o_def
        flip: map_nth [of "words b", THEN arg_cong [where f = "\<lambda>ws. map count_ones ws"]])
  also have "\<dots> = card (set (bits_iter b))"
    by (rule distinct_card [symmetric]) (simp add: bits_iter_correct [OF assms])
  also have "set (bits_iter b) = slots b"
    using bits_inv_slots [OF assms] by (auto simp: bits_iter_correct [OF assms])
  finally show ?thesis .
qed

lemma bits_live_correct:
  "bits_inv (bits_live deleted n) \<and> len (bits_live deleted n) = n
   \<and> slots (bits_live deleted n)
       = {i. i < n \<and> (case deleted of None \<Rightarrow> True | Some ws \<Rightarrow> i \<notin> raw_slots ws)}"
proof (cases deleted)
  case None
  then show ?thesis by (auto simp: bits_live_def)
next
  case (Some ws)
  let ?b = "bits_full n"
  have "slots (bits_live deleted n) = slots ?b - raw_slots ws"
    by (auto simp: Some bits_live_def Let_def slots_def mem_raw_slots nth_zip_words bit_simps split: if_splits)
  moreover have "length (words (bits_live deleted n)) = length (words ?b)" "len (bits_live deleted n) = n"
    by (simp_all add: Some bits_live_def Let_def)
  ultimately show ?thesis
    using bits_inv_frame [of ?b "bits_live deleted n"] by (auto simp: Some)
qed

lemma to_bools_from_bools:
  assumes "bits_from_bools allow = Some b"
  shows "bits_to_bools b = allow"
proof -
  from assms bits_from_bools_correct [of allow]
  have b: "bits_inv b" "len b = length allow" "slots b = {i. i < length allow \<and> allow ! i}"
    by auto
  have "bits_to_bools b = map ((!) allow) [0..<length allow]"
    unfolding bits_to_bools_def b(2) by (rule map_cong) (auto simp: bits_test_iff [OF b(1)] b(3))
  then show ?thesis by (simp add: map_nth)
qed

section \<open>Properties of the bitsets\<close>

text \<open>
  C36: the members of a boolean group are exactly the slots that satisfy every \<open>must\<close> clause,
  at least \<open>minimum_should_match\<close> of the \<open>should\<close> clauses and no \<open>must_not\<close> clause (a group
  with neither \<open>must\<close> nor a minimum starts from the live slots), and the word-parallel
  evaluation never panics.
\<close>

theorem group_members_semantics:
  assumes "bits_inv live"
    and "\<forall>s \<in> set must \<union> set should \<union> set must_not. bits_inv s \<and> len s = len live"
  shows "\<exists>b. group_members must should must_not msm live = Some (b, must = [] \<and> msm = 0)
    \<and> bits_inv b \<and> len b = len live
    \<and> slots b = {i. i < len live \<and> (must = [] \<and> msm = 0 \<longrightarrow> i \<in> slots live)
                     \<and> (\<forall>m \<in> set must. i \<in> slots m)
                     \<and> msm \<le> length (filter (\<lambda>s. i \<in> slots s) should)
                     \<and> (\<forall>m \<in> set must_not. i \<notin> slots m)}"
  using group_members_correct [OF assms, of msm] by (auto simp: hits_def)

theorem group_members_semantics_witness:
  "\<exists>b. group_members [] [bits_full 3, bits_empty 3] [] 1 (bits_full 3) = Some (b, False) \<and> slots b = {0, 1, 2}"
  using group_members_semantics [of "bits_full 3" "[]" "[bits_full 3, bits_empty 3]" "[]" 1]
  by (auto simp: lessThan_Suc numeral_3_eq_3)

text \<open>
  C37: \<open>at_least\<close> counts with carry-save planes, one word of slots at a time; the result
  holds exactly the slots that are in at least \<open>minimum\<close> of the sets.
\<close>

theorem at_least_counts:
  assumes "\<forall>s \<in> set sets. bits_inv s \<and> len s = n"
  shows "\<exists>b. bits_at_least sets minimum n = Some b \<and> bits_inv b \<and> len b = n
    \<and> slots b = {i. i < n \<and> minimum \<le> length (filter (\<lambda>s. i \<in> slots s) sets)}"
  using at_least_correct [of n sets minimum] assms by (simp add: bits_algebra.all_of_def hits_def)

theorem at_least_counts_witness:
  "\<exists>b. bits_at_least [bits_full 3, bits_empty 3, bits_full 3] 2 3 = Some b \<and> slots b = {0, 1, 2}"
  using at_least_counts [of "[bits_full 3, bits_empty 3, bits_full 3]" 3 2]
  by (auto simp: lessThan_Suc numeral_3_eq_3)

text \<open>
  C38: \<open>iter_range\<close> yields the set slots of a range, each once and in ascending order, for
  any bounds (also past the end or inverted).
\<close>

theorem iter_range_enumerates:
  assumes "bits_inv b"
  shows "bits_iter_range b start stop = filter (\<lambda>i. i \<in> slots b) [start..<min stop (len b)]"
  using assms by (rule bits_iter_range_correct)

theorem iter_range_enumerates_witness: "bits_iter_range (bits_full 70) 62 100 = [62, 63, 64, 65, 66, 67, 68, 69]"
  using iter_range_enumerates [of "bits_full 70" 62 100] by (simp add: upt_rec)

text \<open>
  C39: converting an allowlist to a bitset succeeds on every input and converting back
  returns the same allowlist.
\<close>

theorem from_bools_to_bools:
  "\<exists>b. bits_from_bools allow = Some b \<and> bits_inv b \<and> bits_to_bools b = allow"
  using bits_from_bools_correct [of allow] to_bools_from_bools [of allow] by auto

text \<open>
  C40: \<open>live\<close> is the complement of the tombstone words inside the row count, and \<open>count\<close>
  is the number of live rows.
\<close>

theorem live_rows:
  "slots (bits_live deleted n) = {i. i < n \<and> (case deleted of None \<Rightarrow> True | Some ws \<Rightarrow> i \<notin> raw_slots ws)}
   \<and> bits_count (bits_live deleted n) = card (slots (bits_live deleted n))"
  using bits_live_correct [of deleted n] bits_count_correct [of "bits_live deleted n"] by blast

end
