(* ===== verification/Ranking.thy ===== *)
theory Ranking
  imports Prelude "HOL-Library.Product_Lexorder"
begin

text \<open>
  Rankings: Rust's \<open>Ordering\<close>, its stable \<open>sort_by\<close>, and the contract every ranking of
  the program satisfies. The locale \<open>ranking\<close> states that a comparison is a total order
  on the records it is used on (the carrier \<open>ok\<close>); its lemmas are what the merge, the
  chunked scan and the candidate rankings rely on: the sorted list is unique, a top-\<open>k\<close>
  list depends only on the multiset ranked, it can be built from partial top-\<open>k\<close> lists,
  and a record that \<open>k\<close> others beat may be dropped (the lossless pruning rule).
\<close>

section \<open>Orderings and the stable sort\<close>

datatype ordering = Less | Equal | Greater

fun reverse_ordering :: "ordering \<Rightarrow> ordering" where
  "reverse_ordering Less = Greater"
| "reverse_ordering Equal = Equal"
| "reverse_ordering Greater = Less"

text \<open>\<open>Ord::cmp\<close> on a linear order, and \<open>Ordering::then_with\<close>.\<close>

definition cmp_lin :: "'a::linorder \<Rightarrow> 'a \<Rightarrow> ordering" where
  "cmp_lin a b = (if a < b then Less else if b < a then Greater else Equal)"

definition then_with :: "ordering \<Rightarrow> ordering \<Rightarrow> ordering" where
  "then_with a b = (if a = Equal then b else a)"

lemma cmp_lin_simps [simp]:
  "cmp_lin a b = Less \<longleftrightarrow> a < b"
  "cmp_lin a b = Greater \<longleftrightarrow> b < a"
  "cmp_lin a b = Equal \<longleftrightarrow> a = b"
  by (auto simp: cmp_lin_def)

lemma then_with_simps [simp]:
  "then_with a b = Less \<longleftrightarrow> a = Less \<or> a = Equal \<and> b = Less"
  "then_with a b = Greater \<longleftrightarrow> a = Greater \<or> a = Equal \<and> b = Greater"
  "then_with a b = Equal \<longleftrightarrow> a = Equal \<and> b = Equal"
  by (auto simp: then_with_def)

text \<open>
  \<open>slice::sort_by\<close> is a stable sort; for a total preorder its result is unique, so the
  insertion sort below computes the same list.
\<close>

fun insert_by :: "('a \<Rightarrow> 'a \<Rightarrow> ordering) \<Rightarrow> 'a \<Rightarrow> 'a list \<Rightarrow> 'a list" where
  "insert_by cmp x [] = [x]"
| "insert_by cmp x (y # ys) = (if cmp y x = Less then y # insert_by cmp x ys else x # y # ys)"

fun sort_by :: "('a \<Rightarrow> 'a \<Rightarrow> ordering) \<Rightarrow> 'a list \<Rightarrow> 'a list" where
  "sort_by cmp [] = []"
| "sort_by cmp (x # xs) = insert_by cmp x (sort_by cmp xs)"

lemma mset_insert_by [simp]: "mset (insert_by cmp x xs) = add_mset x (mset xs)"
  by (induction xs) auto

lemma mset_sort_by [simp]: "mset (sort_by cmp xs) = mset xs"
  by (induction xs) auto

lemma set_sort_by [simp]: "set (sort_by cmp xs) = set xs"
  by (metis mset_sort_by set_mset_mset)

lemma length_sort_by [simp]: "length (sort_by cmp xs) = length xs"
  by (metis mset_sort_by size_mset)

lemma distinct_sort_by [simp]: "distinct (sort_by cmp xs) = distinct xs"
  by (metis mset_sort_by mset_eq_imp_distinct_iff)

lemma insert_by_cong:
  "(\<And>y. y \<in> set xs \<Longrightarrow> cmp y x = cmp' y x) \<Longrightarrow> insert_by cmp x xs = insert_by cmp' x xs"
  by (induction xs) auto

lemma sort_by_cong:
  "(\<And>x y. x \<in> set xs \<Longrightarrow> y \<in> set xs \<Longrightarrow> cmp x y = cmp' x y) \<Longrightarrow> sort_by cmp xs = sort_by cmp' xs"
proof (induction xs)
  case (Cons x xs)
  then have "sort_by cmp xs = sort_by cmp' xs" by simp
  then show ?case using Cons.prems by (auto intro: insert_by_cong)
qed simp

lemma distinct_mset_subset:
  assumes "distinct xs" "set xs \<subseteq> set ys"
  shows "mset xs \<subseteq># mset ys"
proof -
  have "mset xs = mset_set (set xs)" using assms(1) by (simp add: mset_set_set)
  also have "\<dots> \<subseteq># mset_set (set ys)" using assms(2) by (simp add: subset_imp_msubset_mset_set)
  also have "\<dots> \<subseteq># mset ys" by (metis mset_set_set_mset_msubset set_mset_mset)
  finally show ?thesis .
qed

section \<open>Rankings\<close>

locale preranking =
  fixes ok :: "'a \<Rightarrow> bool" and cmp :: "'a \<Rightarrow> 'a \<Rightarrow> ordering"
  assumes swap: "ok x \<Longrightarrow> ok y \<Longrightarrow> cmp y x = reverse_ordering (cmp x y)"
    and trans: "ok x \<Longrightarrow> ok y \<Longrightarrow> ok z \<Longrightarrow> cmp x y \<noteq> Greater \<Longrightarrow> cmp y z \<noteq> Greater \<Longrightarrow> cmp x z \<noteq> Greater"
begin

definition le :: "'a \<Rightarrow> 'a \<Rightarrow> bool" where
  "le x y \<longleftrightarrow> cmp x y \<noteq> Greater"

definition all_ok :: "'a list \<Rightarrow> bool" where
  "all_ok xs \<longleftrightarrow> (\<forall>x \<in> set xs. ok x)"

lemma all_ok_simps [simp]:
  "all_ok []" "all_ok (x # xs) \<longleftrightarrow> ok x \<and> all_ok xs" "all_ok (xs @ ys) \<longleftrightarrow> all_ok xs \<and> all_ok ys"
  by (auto simp: all_ok_def)

lemma all_ok_mono: "all_ok xs \<Longrightarrow> set ys \<subseteq> set xs \<Longrightarrow> all_ok ys"
  by (auto simp: all_ok_def)

lemma all_ok_sort_by [simp]: "all_ok (sort_by cmp xs) = all_ok xs"
  by (simp add: all_ok_def)

lemma not_less: "ok x \<Longrightarrow> ok y \<Longrightarrow> cmp y x \<noteq> Less \<longleftrightarrow> le x y"
  using swap [of x y] by (cases "cmp x y") (auto simp: le_def)

lemma le_refl: "ok x \<Longrightarrow> le x x"
  using swap [of x x] by (cases "cmp x x") (auto simp: le_def)

lemma le_trans: "ok x \<Longrightarrow> ok y \<Longrightarrow> ok z \<Longrightarrow> le x y \<Longrightarrow> le y z \<Longrightarrow> le x z"
  unfolding le_def by (rule trans)

lemma less_le: "ok x \<Longrightarrow> ok y \<Longrightarrow> cmp x y = Less \<longleftrightarrow> le x y \<and> \<not> le y x"
  using swap [of x y] by (cases "cmp x y") (auto simp: le_def)

lemma le_total: "ok x \<Longrightarrow> ok y \<Longrightarrow> le x y \<or> le y x"
  using swap [of x y] by (cases "cmp x y") (auto simp: le_def)

lemma sorted_insert_by:
  "ok x \<Longrightarrow> all_ok xs \<Longrightarrow> sorted_wrt le xs \<Longrightarrow> sorted_wrt le (insert_by cmp x xs)"
proof (induction xs)
  case (Cons y ys)
  have set_ins: "set (insert_by cmp x ys) = insert x (set ys)"
    by (metis mset_insert_by set_mset_add_mset_insert set_mset_mset)
  show ?case
  proof (cases "cmp y x = Less")
    case True
    then have "le y x" by (simp add: le_def)
    with True Cons show ?thesis by (auto simp: set_ins)
  next
    case False
    then have "le x y" using Cons.prems by (simp add: not_less)
    moreover have "le x z" if "z \<in> set ys" for z
      using le_trans [of x y z] calculation Cons.prems that by (auto simp: all_ok_def)
    ultimately show ?thesis using False Cons.prems by simp
  qed
qed simp

lemma sorted_sort_by: "all_ok xs \<Longrightarrow> sorted_wrt le (sort_by cmp xs)"
  by (induction xs) (auto intro: sorted_insert_by)

end

locale ranking = preranking +
  assumes antisym: "ok x \<Longrightarrow> ok y \<Longrightarrow> cmp x y = Equal \<Longrightarrow> x = y"
begin

lemma le_antisym: "ok x \<Longrightarrow> ok y \<Longrightarrow> le x y \<Longrightarrow> le y x \<Longrightarrow> x = y"
  using antisym [of x y] less_le [of x y] by (cases "cmp x y") (auto simp: le_def)

lemma sorted_unique:
  "all_ok xs \<Longrightarrow> sorted_wrt le xs \<Longrightarrow> sorted_wrt le ys \<Longrightarrow> mset xs = mset ys \<Longrightarrow> xs = ys"
proof (induction xs arbitrary: ys)
  case (Cons x xs)
  then obtain y zs where ys: "ys = y # zs" by (cases ys) auto
  have sets: "insert x (set xs) = insert y (set zs)"
    using Cons.prems(4) ys by (metis set_mset_mset list.simps(15))
  have oky: "ok y" using sets Cons.prems(1) by (auto simp: all_ok_def)
  have "x = y"
  proof (rule ccontr)
    assume "x \<noteq> y"
    with sets have "y \<in> set xs" "x \<in> set zs" by auto
    then have "le x y" "le y x" using Cons.prems(2,3) ys by auto
    with \<open>x \<noteq> y\<close> le_antisym [of x y] oky Cons.prems(1) show False by simp
  qed
  with Cons ys show ?case by simp
qed simp

lemma sort_by_eqI:
  "all_ok xs \<Longrightarrow> sorted_wrt le ys \<Longrightarrow> mset ys = mset xs \<Longrightarrow> sort_by cmp xs = ys"
  using sorted_unique [of "sort_by cmp xs" ys] sorted_sort_by by simp

lemma sort_by_mset: "all_ok xs \<Longrightarrow> mset xs = mset ys \<Longrightarrow> sort_by cmp xs = sort_by cmp ys"
proof -
  assume ok: "all_ok xs" and m: "mset xs = mset ys"
  then have "set ys = set xs" by (metis set_mset_mset)
  with ok have "all_ok ys" by (simp add: all_ok_def)
  with ok m show ?thesis by (intro sort_by_eqI) (simp_all add: sorted_sort_by)
qed

lemma sort_by_least:
  assumes "all_ok (x # xs)" "\<And>y. y \<in> set xs \<Longrightarrow> le x y" "mset zs = mset (x # xs)"
  shows "sort_by cmp zs = x # sort_by cmp xs"
proof -
  have "sort_by cmp (x # xs) = x # sort_by cmp xs"
    using assms by (intro sort_by_eqI) (auto simp: sorted_sort_by)
  then show ?thesis using sort_by_mset [OF assms(1), of zs] assms(3) by simp
qed

lemma sort_by_sorted: "all_ok xs \<Longrightarrow> sorted_wrt le xs \<Longrightarrow> sort_by cmp xs = xs"
  by (rule sort_by_eqI) simp_all

lemma sort_by_filter: "all_ok xs \<Longrightarrow> sort_by cmp (filter P xs) = filter P (sort_by cmp xs)"
  by (rule sort_by_eqI) (auto simp: all_ok_def sorted_sort_by sorted_wrt_filter)

text \<open>The first \<open>k\<close> of a ranking, and the records that \<open>k\<close> others beat.\<close>

definition topk :: "nat \<Rightarrow> 'a list \<Rightarrow> 'a list" where
  "topk k xs = take k (sort_by cmp xs)"

definition beaten :: "nat \<Rightarrow> 'a list \<Rightarrow> 'a \<Rightarrow> bool" where
  "beaten k xs x \<longleftrightarrow> k \<le> length (filter (\<lambda>y. cmp y x = Less) xs)"

lemma topk_mset: "all_ok xs \<Longrightarrow> mset xs = mset ys \<Longrightarrow> topk k xs = topk k ys"
  unfolding topk_def using sort_by_mset by metis

lemma set_topk_subset: "set (topk k xs) \<subseteq> set xs"
  using set_take_subset [of k "sort_by cmp xs"] by (simp add: topk_def)

lemma length_topk [simp]: "length (topk k xs) = min k (length xs)"
  by (simp add: topk_def min.commute)

lemma sorted_topk: "all_ok xs \<Longrightarrow> sorted_wrt le (topk k xs)"
  by (simp add: topk_def sorted_wrt_take sorted_sort_by)

lemma beaten_mset: "mset xs = mset ys \<Longrightarrow> beaten k xs x = beaten k ys x"
  unfolding beaten_def by (metis mset_filter size_mset)

lemma beaten_mono: "mset xs \<subseteq># mset ys \<Longrightarrow> beaten k xs x \<Longrightarrow> beaten k ys x"
  unfolding beaten_def
  by (metis multiset_filter_mono mset_filter order_trans size_mset size_mset_mono)

lemma topk_not_beaten:
  assumes "all_ok xs" "x \<in> set (topk k xs)"
  shows "\<not> beaten k xs x"
proof -
  let ?s = "sort_by cmp xs"
  obtain i where i: "i < k" "i < length ?s" "?s ! i = x"
    using assms(2) by (auto simp: topk_def in_set_conv_nth)
  have okn: "j < length xs \<Longrightarrow> ok (?s ! j)" for j
    using assms(1) by (metis all_ok_def length_sort_by nth_mem set_sort_by)
  have "filter (\<lambda>y. cmp y x = Less) (drop i ?s) = []"
  proof (clarsimp simp: filter_empty_conv in_set_conv_nth)
    fix j assume j: "j < length xs - i" "cmp (?s ! (i + j)) x = Less"
    have "le (?s ! i) (?s ! (i + j))"
    proof (cases "j = 0")
      case True
      then show ?thesis using le_refl okn [of i] i by simp
    next
      case False
      then show ?thesis
        using sorted_wrt_nth_less [OF sorted_sort_by [OF assms(1)], of i "i + j"] j(1) by simp
    qed
    then show False using j i less_le [of "?s ! (i + j)" "?s ! i"] okn [of i] okn [of "i + j"] by simp
  qed
  then have "filter (\<lambda>y. cmp y x = Less) ?s = filter (\<lambda>y. cmp y x = Less) (take i ?s)"
    by (metis append_Nil2 append_take_drop_id filter_append)
  then have "length (filter (\<lambda>y. cmp y x = Less) ?s) \<le> i"
    by (metis length_filter_le length_take min.bounded_iff order_trans min_def nle_le)
  then show ?thesis
    using i(1) beaten_mset [of xs ?s k x] by (simp add: beaten_def)
qed

lemma not_in_topk_beaten:
  assumes "all_ok xs" "distinct xs" "x \<in> set xs" "x \<notin> set (topk k xs)"
  shows "beaten k xs x"
proof -
  let ?s = "sort_by cmp xs"
  obtain i where i: "i < length ?s" "?s ! i = x"
    using assms(3) by (metis in_set_conv_nth set_sort_by)
  with assms(4) have k: "k \<le> i"
    by (metis in_set_conv_nth length_take linorder_not_le min_less_iff_conj nth_take topk_def)
  have okn: "j < length xs \<Longrightarrow> ok (?s ! j)" for j
    using assms(1) by (metis all_ok_def length_sort_by nth_mem set_sort_by)
  have "filter (\<lambda>y. cmp y x = Less) (take k ?s) = take k ?s"
  proof (clarsimp simp: filter_id_conv in_set_conv_nth)
    fix j assume j: "j < length xs" "j < k"
    then have le: "le (?s ! j) (?s ! i)"
      using sorted_wrt_nth_less [OF sorted_sort_by [OF assms(1)], of j i] k i by simp
    have "?s ! j \<noteq> ?s ! i"
      using assms(2) j k i(1) by (subst nth_eq_iff_index_eq) simp_all
    then show "cmp (?s ! j) x = Less"
      using le le_antisym [of "?s ! j" "?s ! i"] less_le [of "?s ! j" "?s ! i"] okn [of j] okn [of i] i j by auto
  qed
  then have "k \<le> length (filter (\<lambda>y. cmp y x = Less) (take k ?s))"
    using k i(1) by simp
  also have "\<dots> \<le> length (filter (\<lambda>y. cmp y x = Less) ?s)"
    by (metis append_take_drop_id filter_append le_add1 length_append)
  finally show ?thesis
    using beaten_mset [of xs ?s k x] by (simp add: beaten_def)
qed

text \<open>A top-\<open>k\<close> list stands for the whole list in any larger ranking.\<close>

lemma take_insert_by: "take k (insert_by cmp x (take k xs)) = take k (insert_by cmp x xs)"
proof (induction xs arbitrary: k)
  case (Cons y ys)
  show ?case
  proof (cases k)
    case (Suc n)
    then show ?thesis using Cons.IH [of n]
      by (cases n) (simp_all add: take_Cons')
  qed simp
qed simp

lemma take_sort_append:
  "take k (sort_by cmp (ys @ xs)) = take k (foldr (insert_by cmp) ys (take k (sort_by cmp xs)))"
proof (induction ys)
  case (Cons y ys)
  then show ?case
    using take_insert_by [of k y "sort_by cmp (ys @ xs)"]
      take_insert_by [of k y "foldr (insert_by cmp) ys (take k (sort_by cmp xs))"] by simp
qed simp

lemma topk_absorb:
  assumes "all_ok xs"
  shows "topk k (ys @ topk k xs) = topk k (ys @ xs)"
proof -
  have "sort_by cmp (topk k xs) = topk k xs"
    using assms set_topk_subset by (intro sort_by_sorted sorted_topk all_ok_mono [OF assms]) auto
  then show ?thesis
    using take_sort_append [of k ys xs] take_sort_append [of k ys "topk k xs"]
    by (simp add: topk_def)
qed

lemma topk_concat:
  "(\<And>x. ok x) \<Longrightarrow> topk k (concat (map (topk k) xss)) = topk k (concat xss)"
proof (induction xss)
  case (Cons xs xss)
  have ok: "all_ok zs" for zs using Cons.prems by (simp add: all_ok_def)
  have "topk k (topk k xs @ concat (map (topk k) xss)) = topk k (concat (map (topk k) xss) @ topk k xs)"
    by (rule topk_mset) (simp_all add: ok)
  also have "\<dots> = topk k (concat (map (topk k) xss) @ xs)"
    by (rule topk_absorb [OF ok])
  also have "\<dots> = topk k (xs @ concat (map (topk k) xss))"
    by (rule topk_mset) (simp_all add: ok)
  also have "\<dots> = topk k (xs @ concat xss)"
    using Cons topk_absorb [OF ok, of k xs "concat (map (topk k) xss)"]
      topk_absorb [OF ok, of k xs "concat xss"] by simp
  finally show ?case by simp
qed simp

text \<open>The lossless pruning rule: dropping beaten records never changes the top \<open>k\<close>.\<close>

lemma topk_prune:
  assumes "all_ok xs" "\<And>x. x \<in> set xs \<Longrightarrow> \<not> P x \<Longrightarrow> beaten k xs x"
  shows "topk k (filter P xs) = topk k xs"
proof -
  let ?s = "sort_by cmp xs"
  have keep: "filter P (take k ?s) = take k ?s"
    using topk_not_beaten [OF assms(1)] assms(2) set_topk_subset [of k xs]
    by (auto simp: filter_id_conv topk_def)
  have "filter P ?s = take k ?s @ filter P (drop k ?s)"
    by (metis append_take_drop_id filter_append keep)
  moreover have "take k (take k ?s @ filter P (drop k ?s)) = take k ?s"
    by (cases "k \<le> length ?s") simp_all
  ultimately show ?thesis
    using sort_by_filter [OF assms(1), of P] by (simp add: topk_def)
qed

lemma topk_covering:
  assumes "all_ok xs" "distinct xs" "distinct ys" "set ys \<subseteq> set xs"
    "\<And>x. x \<in> set xs \<Longrightarrow> x \<notin> set ys \<Longrightarrow> beaten k xs x"
  shows "topk k ys = topk k xs"
proof -
  have "mset ys = mset (filter (\<lambda>x. x \<in> set ys) xs)"
    using assms(2-4) by (intro set_eq_iff_mset_eq_distinct [THEN iffD1]) auto
  then have "topk k ys = topk k (filter (\<lambda>x. x \<in> set ys) xs)"
    using all_ok_mono [OF assms(1,4)] by (rule topk_mset [rotated])
  also have "\<dots> = topk k xs"
    using assms(1,5) by (rule topk_prune)
  finally show ?thesis .
qed

end

section \<open>Cutoffs\<close>

text \<open>
  A cutoff keeps the records that fewer than \<open>k\<close> others outrank. Plain top-\<open>k\<close> outranks by
  the ranking itself; a tie-complete top-\<open>k\<close> outranks by a coarser strict order (the score
  alone), so a whole tie group at the boundary survives.
\<close>

locale cutoff = ranking +
  fixes outr :: "'a \<Rightarrow> 'a \<Rightarrow> bool"
  assumes outr_less: "ok y \<Longrightarrow> ok x \<Longrightarrow> outr y x \<Longrightarrow> cmp y x = Less"
    and outr_up: "ok y \<Longrightarrow> ok z \<Longrightarrow> ok x \<Longrightarrow> le y z \<Longrightarrow> outr z x \<Longrightarrow> outr y x"
begin

definition beats :: "nat \<Rightarrow> 'a list \<Rightarrow> 'a \<Rightarrow> bool" where
  "beats k xs x \<longleftrightarrow> k \<le> length (filter (\<lambda>y. outr y x) xs)"

definition survivors :: "nat \<Rightarrow> 'a list \<Rightarrow> 'a list" where
  "survivors k xs = filter (\<lambda>x. \<not> beats k xs x) (sort_by cmp xs)"

lemma beats_mset: "mset xs = mset ys \<Longrightarrow> beats k xs x = beats k ys x"
  unfolding beats_def by (metis mset_filter size_mset)

lemma beats_mono: "mset xs \<subseteq># mset ys \<Longrightarrow> beats k xs x \<Longrightarrow> beats k ys x"
  unfolding beats_def
  by (metis multiset_filter_mono mset_filter order_trans size_mset size_mset_mono)

lemma beats_sort [simp]: "beats k (sort_by cmp xs) x = beats k xs x"
  by (rule beats_mset) simp

lemma outrankers_prefix:
  assumes "all_ok s" "ok x" "sorted_wrt le s"
  shows "filter (\<lambda>y. outr y x) s = takeWhile (\<lambda>y. outr y x) s"
  using assms
proof (induction s)
  case (Cons a s)
  have "filter (\<lambda>y. outr y x) s = []" if "\<not> outr a x"
    using that Cons.prems outr_up [of a _ x] by (auto simp: filter_empty_conv all_ok_def)
  with Cons show ?case by simp
qed simp

lemma beats_iff:
  assumes "all_ok s" "ok x" "sorted_wrt le s"
  shows "beats k s x \<longleftrightarrow> k \<le> length s \<and> (\<forall>y \<in> set (take k s). outr y x)"
proof
  let ?t = "takeWhile (\<lambda>y. outr y x) s"
  assume "beats k s x"
  then have k: "k \<le> length ?t" by (simp add: beats_def outrankers_prefix [OF assms])
  then have "take k s = take k ?t"
    by (metis takeWhile_eq_take take_take min.absorb1 length_takeWhile_le length_take min_def)
  with k show "k \<le> length s \<and> (\<forall>y \<in> set (take k s). outr y x)"
    by (metis in_set_takeD length_takeWhile_le order_trans set_takeWhileD)
next
  assume *: "k \<le> length s \<and> (\<forall>y \<in> set (take k s). outr y x)"
  have "filter (\<lambda>y. outr y x) s = filter (\<lambda>y. outr y x) (take k s) @ filter (\<lambda>y. outr y x) (drop k s)"
    by (metis append_take_drop_id filter_append)
  moreover have "filter (\<lambda>y. outr y x) (take k s) = take k s"
    using * by (simp add: filter_id_conv)
  ultimately show "beats k s x" using * by (simp add: beats_def)
qed

lemma beats_sorted:
  assumes "all_ok xs" "ok x"
  shows "beats k xs x \<longleftrightarrow> k \<le> length xs \<and> (\<forall>y \<in> set (topk k xs). outr y x)"
  using beats_iff [of "sort_by cmp xs" x k] assms by (simp add: sorted_sort_by topk_def)

lemma topk_unbeaten:
  assumes "all_ok xs" "x \<in> set (topk k xs)"
  shows "\<not> beats k xs x"
proof -
  have "ok x" using assms set_topk_subset by (auto simp: all_ok_def)
  then have "\<not> outr x x" using outr_less [of x x] le_refl [of x] less_le [of x x] by auto
  then show ?thesis using beats_sorted [of xs x k] assms \<open>ok x\<close> by auto
qed

lemma survivors_split:
  assumes "all_ok xs"
  shows "survivors k xs = topk k xs @ filter (\<lambda>x. \<not> beats k xs x) (drop k (sort_by cmp xs))"
proof -
  have "filter (\<lambda>x. \<not> beats k xs x) (take k (sort_by cmp xs)) = take k (sort_by cmp xs)"
    using topk_unbeaten [OF assms] by (simp add: filter_id_conv topk_def)
  then show ?thesis
    unfolding survivors_def topk_def by (metis append_take_drop_id filter_append)
qed

lemma set_survivors: "set (survivors k xs) = {x \<in> set xs. \<not> beats k xs x}"
  by (auto simp: survivors_def)

lemma sorted_survivors: "all_ok xs \<Longrightarrow> sorted_wrt le (survivors k xs)"
  by (simp add: survivors_def sorted_wrt_filter sorted_sort_by)

lemma distinct_survivors: "distinct xs \<Longrightarrow> distinct (survivors k xs)"
  by (simp add: survivors_def)

lemma all_ok_survivors: "all_ok xs \<Longrightarrow> all_ok (survivors k xs)"
  by (auto simp: all_ok_def set_survivors)

lemma mset_survivors: "mset (survivors k xs) \<subseteq># mset xs"
  by (metis mset_filter mset_sort_by multiset_filter_subset survivors_def)

lemma survivors_mset: "all_ok xs \<Longrightarrow> mset xs = mset ys \<Longrightarrow> survivors k xs = survivors k ys"
  using sort_by_mset [of xs ys] beats_mset [of xs ys k] by (simp add: survivors_def)

lemma beats_survivors:
  assumes "all_ok xs" "ok x"
  shows "beats k (survivors k xs) x \<longleftrightarrow> beats k xs x"
proof
  assume "beats k xs x"
  then have "k \<le> length (filter (\<lambda>y. outr y x) (topk k xs))"
    using beats_sorted [OF assms, of k] by (auto simp: filter_id_conv)
  then show "beats k (survivors k xs) x"
    by (simp add: beats_def survivors_split [OF assms(1)])
qed (rule beats_mono [OF mset_survivors])

lemma length_survivors: "all_ok xs \<Longrightarrow> min k (length xs) \<le> length (survivors k xs)"
  using survivors_split [of xs k] length_topk [of k xs] by simp

text \<open>Dropping what is beaten, by the kept records or overall, loses nothing.\<close>

lemma survivors_covering:
  assumes "all_ok xs" "distinct xs" "distinct ys" "set ys \<subseteq> set xs" "survivors k ys = ys"
    and drop: "\<And>x. x \<in> set xs \<Longrightarrow> x \<notin> set ys \<Longrightarrow> beats k ys x \<or> beats k xs x"
  shows "survivors k xs = ys"
proof -
  have okx: "x \<in> set xs \<Longrightarrow> ok x" for x using assms(1) by (auto simp: all_ok_def)
  have oky: "all_ok ys" using all_ok_mono assms(1,4) .
  have sub: "mset ys \<subseteq># mset xs"
    using assms(3,4) by (rule distinct_mset_subset)
  have beats: "beats k xs x \<longleftrightarrow> beats k ys x" if "x \<in> set xs" for x
  proof
    assume b: "beats k xs x"
    show "beats k ys x"
    proof (cases "set (topk k xs) \<subseteq> set ys")
      case True
      have "distinct (topk k xs)" using assms(2) by (simp add: topk_def)
      then have "mset (topk k xs) \<subseteq># mset ys"
        using True by (rule distinct_mset_subset)
      moreover have "k \<le> length (filter (\<lambda>y. outr y x) (topk k xs))"
        using b beats_sorted [OF assms(1) okx [OF that], of k] by (auto simp: filter_id_conv)
      ultimately show ?thesis using beats_mono [of "topk k xs" ys k x] by (simp add: beats_def)
    next
      case False
      then obtain z where z: "z \<in> set (topk k xs)" "z \<notin> set ys" by auto
      then have zx: "z \<in> set xs" using set_topk_subset by auto
      have "outr z x" using b z beats_sorted [OF assms(1) okx [OF that], of k] by auto
      then have up: "outr y x" if "outr y z" "ok y" for y
        using outr_up [of y z x] outr_less [of y z] less_le [of y z] that okx zx \<open>x \<in> set xs\<close> by auto
      have "beats k ys z" using drop [OF zx z(2)] topk_unbeaten [OF assms(1) z(1)] by simp
      then show ?thesis
        using beats_sorted [OF oky, of z k] beats_sorted [OF oky, of x k] up okx zx that
          set_topk_subset [of k ys] oky by (auto simp: all_ok_def)
    qed
  qed (rule beats_mono [OF sub])
  have "set (survivors k xs) = set ys"
    using drop beats set_survivors [of k ys] assms(4,5) by (auto simp: set_survivors)
  then have "mset (survivors k xs) = mset ys"
    using distinct_survivors [OF assms(2)] assms(3) by (metis set_eq_iff_mset_eq_distinct)
  moreover have "sorted_wrt le ys" using sorted_survivors [OF oky, of k] assms(5) by simp
  ultimately show ?thesis
    using sorted_unique [OF all_ok_survivors [OF assms(1)] sorted_survivors [OF assms(1)]] by blast
qed

lemma survivors_idem: "all_ok xs \<Longrightarrow> survivors k (survivors k xs) = survivors k xs"
proof -
  assume ok: "all_ok xs"
  have "sort_by cmp (survivors k xs) = survivors k xs"
    using ok by (intro sort_by_sorted all_ok_survivors sorted_survivors)
  moreover have "\<not> beats k (survivors k xs) x" if "x \<in> set (survivors k xs)" for x
    using that ok beats_survivors [OF ok, of x k] by (auto simp: set_survivors all_ok_def)
  ultimately show ?thesis
    by (metis (no_types, lifting) filter_True survivors_def)
qed

end

section \<open>Rankings by a key\<close>

text \<open>
  Every comparison of the program compares some key of the record; where the key determines
  the record, the comparison is a ranking.
\<close>

locale keyed_ranking =
  fixes ok :: "'a \<Rightarrow> bool" and cmp :: "'a \<Rightarrow> 'a \<Rightarrow> ordering" and key :: "'a \<Rightarrow> 'b::linorder"
  assumes cmp_key: "ok x \<Longrightarrow> ok y \<Longrightarrow> cmp x y = cmp_lin (key x) (key y)"
    and key_inject: "ok x \<Longrightarrow> ok y \<Longrightarrow> key x = key y \<Longrightarrow> x = y"

sublocale keyed_ranking \<subseteq> ranking ok cmp
proof
  fix x y z assume ok: "ok x" "ok y"
  show "cmp y x = reverse_ordering (cmp x y)"
    using ok by (auto simp: cmp_key cmp_lin_def)
  show "cmp x y = Equal \<Longrightarrow> x = y"
    using ok key_inject by (simp add: cmp_key)
  show "ok z \<Longrightarrow> cmp x y \<noteq> Greater \<Longrightarrow> cmp y z \<noteq> Greater \<Longrightarrow> cmp x z \<noteq> Greater"
    using ok by (simp add: cmp_key)
qed

lemma cmp_lin_prod: "cmp_lin (a, b) (c, d) = then_with (cmp_lin a c) (cmp_lin b d)"
  by (auto simp: cmp_lin_def then_with_def)

lemma cmp_lin_uminus: "cmp_lin (- a) (- b) = cmp_lin b (a :: int)"
  by (simp add: cmp_lin_def)

end
