(* ===== verification/Score.thy ===== *)
theory Score
  imports Ranking
begin

text \<open>
  Scores: Rust's \<open>f32\<close> at its bit pattern. The comparisons of the program
  (\<open><\<close>, \<open>==\<close>, \<open>total_cmp\<close>, \<open>is_nan\<close>, \<open>f32::max\<close>) only read the sign and the
  magnitude of a float, so they are defined on the 32-bit pattern and agree with IEEE 754.
\<close>

type_synonym f32 = u32

definition sign_bit :: "f32 \<Rightarrow> bool" where
  "sign_bit w = bit w 31"

definition magnitude :: "f32 \<Rightarrow> int" where
  "magnitude w = uint (take_bit 31 w)"

definition NEG_INFINITY :: f32 where
  "NEG_INFINITY = 0xFF800000"

definition INFINITY :: f32 where
  "INFINITY = 0x7F800000"

definition is_nan :: "f32 \<Rightarrow> bool" where
  "is_nan w = (0x7F800000 < magnitude w)"

definition is_infinite :: "f32 \<Rightarrow> bool" where
  "is_infinite w = (magnitude w = 0x7F800000)"

definition is_finite :: "f32 \<Rightarrow> bool" where
  "is_finite w = (magnitude w < 0x7F800000)"

text \<open>The value order: \<open>-0.0\<close> and \<open>+0.0\<close> have the same key, a NaN compares to nothing.\<close>

definition f32_key :: "f32 \<Rightarrow> int" where
  "f32_key w = (if sign_bit w then - magnitude w else magnitude w)"

definition f32_lt :: "f32 \<Rightarrow> f32 \<Rightarrow> bool" where
  "f32_lt a b = (\<not> is_nan a \<and> \<not> is_nan b \<and> f32_key a < f32_key b)"

definition f32_le :: "f32 \<Rightarrow> f32 \<Rightarrow> bool" where
  "f32_le a b = (\<not> is_nan a \<and> \<not> is_nan b \<and> f32_key a \<le> f32_key b)"

definition f32_eq :: "f32 \<Rightarrow> f32 \<Rightarrow> bool" where
  "f32_eq a b = (\<not> is_nan a \<and> \<not> is_nan b \<and> f32_key a = f32_key b)"

text \<open>\<open>f32::max\<close> and \<open>f32::min\<close>: a NaN operand loses against a number.\<close>

definition f32_min :: "f32 \<Rightarrow> f32 \<Rightarrow> f32" where
  "f32_min a b = (if is_nan a then b else if is_nan b then a
     else if f32_key b < f32_key a then b else a)"

definition f32_max :: "f32 \<Rightarrow> f32 \<Rightarrow> f32" where
  "f32_max a b = (if is_nan a then b else if is_nan b then a
     else if f32_key a < f32_key b then b else a)"

text \<open>
  \<open>f32::total_cmp\<close>: the bits as a signed integer, the magnitude bits of a negative float
  flipped.
\<close>

definition total_key :: "f32 \<Rightarrow> int" where
  "total_key w = sint (if sign_bit w then w XOR 0x7FFFFFFF else w)"

definition total_cmp :: "f32 \<Rightarrow> f32 \<Rightarrow> ordering" where
  "total_cmp a b = cmp_lin (total_key a) (total_key b)"

section \<open>The keys\<close>

lemma magnitude_nonneg: "0 \<le> magnitude w"
  by (simp add: magnitude_def)

lemma magnitude_uint: "magnitude w = take_bit 31 (uint w)"
  by (simp add: magnitude_def unsigned_take_bit_eq)

lemma f32_eqI: "sign_bit a = sign_bit b \<Longrightarrow> magnitude a = magnitude b \<Longrightarrow> a = b"
proof (rule bit_word_eqI)
  fix n assume s: "sign_bit a = sign_bit b" and m: "magnitude a = magnitude b" and n: "n < LENGTH(32)"
  have "take_bit 31 a = take_bit 31 b" using m unfolding magnitude_def by (rule unsigned_word_eqI)
  then have "n < 31 \<Longrightarrow> bit a n = bit b n" by (metis bit_take_bit_iff)
  with s n show "bit a n = bit b n"
    by (cases "n = 31") (auto simp: sign_bit_def)
qed

lemma sint_sign_magnitude:
  fixes w :: f32
  shows "sint w = (if bit w 31 then magnitude w - 2 ^ 31 else magnitude w)"
proof -
  have "sint w = signed_take_bit 31 (uint w)" by (simp add: sint_uint)
  also have "\<dots> = (if bit w 31 then magnitude w - 2 ^ 31 else magnitude w)"
    using take_bit_Suc_from_most [of 31 "uint w"]
    by (simp add: signed_take_bit_eq_take_bit_minus magnitude_uint bit_uint_iff)
  finally show ?thesis .
qed

lemma magnitude_flip: "magnitude (w XOR 0x7FFFFFFF) = 2 ^ 31 - 1 - magnitude w"
proof -
  let ?x = "take_bit 31 (uint w)"
  have m: "(mask 31 :: int) = 0x7FFFFFFF" by (simp add: mask_eq_exp_minus_1)
  have "magnitude (w XOR 0x7FFFFFFF) = ?x XOR take_bit 31 0x7FFFFFFF"
    by (simp add: magnitude_uint unsigned_xor_eq del: take_bit_numeral_numeral)
  then have flip: "magnitude (w XOR 0x7FFFFFFF) = ?x XOR mask 31"
    by (simp add: m)
  have "(?x XOR mask 31) AND ?x = 0"
    by (rule bit_eqI) (auto simp: bit_simps)
  then have "(?x XOR mask 31) + ?x = (?x XOR mask 31) OR ?x"
    by (rule disjunctive_add_eq_or)
  also have "\<dots> = mask 31"
    by (rule bit_eqI) (auto simp: bit_simps)
  finally show ?thesis using flip by (simp add: magnitude_uint mask_eq_exp_minus_1)
qed

lemma total_key_eq: "total_key w = (if sign_bit w then - magnitude w - 1 else magnitude w)"
proof -
  have "bit (w XOR 0x7FFFFFFF) 31 = bit w 31" by (simp add: bit_xor_iff)
  then show ?thesis
    using magnitude_flip [of w] by (simp add: total_key_def sint_sign_magnitude sign_bit_def)
qed

lemma total_key_inject: "total_key a = total_key b \<Longrightarrow> a = b"
  using magnitude_nonneg [of a] magnitude_nonneg [of b]
  by (intro f32_eqI) (auto simp: total_key_eq split: if_splits)

lemma total_key_key: "f32_key a < f32_key b \<Longrightarrow> total_key a < total_key b"
  using magnitude_nonneg [of a] magnitude_nonneg [of b]
  by (auto simp: total_key_eq f32_key_def split: if_splits)

text \<open>Two floats are \<open>==\<close> without having the same bits only when both are zero.\<close>

lemma f32_key_eq_iff:
  "f32_key a = f32_key b \<longleftrightarrow> a = b \<or> magnitude a = 0 \<and> magnitude b = 0"
  using magnitude_nonneg [of a] magnitude_nonneg [of b] f32_eqI [of a b]
  by (auto simp: f32_key_def split: if_splits)

lemma not_nan_NEG_INFINITY [simp]: "\<not> is_nan NEG_INFINITY"
  by (simp add: is_nan_def magnitude_def NEG_INFINITY_def)

lemma f32_key_NEG_INFINITY: "f32_key NEG_INFINITY = - 0x7F800000"
  by (simp add: f32_key_def sign_bit_def magnitude_def NEG_INFINITY_def)

lemma NEG_INFINITY_least: "\<not> is_nan a \<Longrightarrow> f32_key NEG_INFINITY \<le> f32_key a"
  unfolding f32_key_NEG_INFINITY using magnitude_nonneg [of a]
  by (auto simp: f32_key_def is_nan_def split: if_splits)

lemma f32_max_nan [simp]: "is_nan (f32_max a b) \<longleftrightarrow> is_nan a \<and> is_nan b"
  by (auto simp: f32_max_def)

lemma f32_max_key:
  "\<not> is_nan a \<Longrightarrow> \<not> is_nan b \<Longrightarrow> f32_key (f32_max a b) = max (f32_key a) (f32_key b)"
  by (auto simp: f32_max_def)

lemma f32_max_cases: "f32_max a b = a \<or> f32_max a b = b"
  by (auto simp: f32_max_def)

lemma not_nan_INFINITY [simp]: "\<not> is_nan INFINITY"
  by (simp add: is_nan_def magnitude_def INFINITY_def)

lemma f32_min_nan [simp]: "is_nan (f32_min a b) \<longleftrightarrow> is_nan a \<and> is_nan b"
  by (auto simp: f32_min_def)

lemma f32_min_key:
  "\<not> is_nan a \<Longrightarrow> \<not> is_nan b \<Longrightarrow> f32_key (f32_min a b) = min (f32_key a) (f32_key b)"
  by (auto simp: f32_min_def)

end
