(* ===== verification/Chunked.thy ===== *)
theory Chunked
  imports Score
begin

text \<open>
  The chunked shard scan with mid-scan floor adoption (\<open>src/chunked.rs\<close>) over the search
  interface of a vector index (\<open>src/vector.rs\<close>). The kernel behind the index is a parameter:
  the function \<open>engine_search\<close> of the index record. The closures of the scan (external floor,
  floor publication, pass observer, clock) are state-passing functions over an arbitrary
  environment type, so what other threads do between two calls is part of the environment.
  A panic is \<open>None\<close>.
\<close>

section \<open>The vector index\<close>

record search_options =
  opt_allow :: "bool list option"
  opt_minimum_score :: "f32 option"

record search_results =
  res_scores :: "f32 list"
  res_slots :: "int list"
  res_query_count :: nat
  res_result_count :: nat

definition scores_for_query :: "search_results \<Rightarrow> nat \<Rightarrow> f32 list option" where
  "scores_for_query r q =
     slice_opt (res_scores r) (q * res_result_count r) ((q + 1) * res_result_count r)"

definition slots_for_query :: "search_results \<Rightarrow> nat \<Rightarrow> int list option" where
  "slots_for_query r q =
     slice_opt (res_slots r) (q * res_result_count r) ((q + 1) * res_result_count r)"

record vector_index =
  index_len :: nat
  dim_opt :: "nat option"
  bits_per_dimension :: "nat option"
  engine_search :: "f32 list \<Rightarrow> nat \<Rightarrow> search_options \<Rightarrow> string + search_results"

definition search_with_options ::
  "vector_index \<Rightarrow> f32 list \<Rightarrow> nat \<Rightarrow> search_options \<Rightarrow> search_results option" where
  "search_with_options idx queries k options =
     (case engine_search idx queries k options of Inl _ \<Rightarrow> None | Inr r \<Rightarrow> Some r)"

section \<open>Hits, statistics and geometry\<close>

definition BLOCK_VECTORS :: nat where
  "BLOCK_VECTORS = 32"

definition usize_max :: nat where
  "usize_max = 2 ^ 64 - 1"

record chunk_hit =
  slot :: u32
  score :: f32

record scan_stats =
  chunk_calls :: u32
  candidates_collected :: u64
  floors_offered :: u64
  floors_published :: u64
  floor_updates_applied :: u64
  segments_total :: u32
  segments_skipped :: u32
  bytes_scanned :: u64
  scan_nanos :: u64

definition stats_default :: scan_stats where
  "stats_default = \<lparr>chunk_calls = 0, candidates_collected = 0, floors_offered = 0,
     floors_published = 0, floor_updates_applied = 0, segments_total = 0, segments_skipped = 0,
     bytes_scanned = 0, scan_nanos = 0\<rparr>"

record scan_pass =
  pass_bytes :: u64
  pass_nanos :: u64

definition encoded_row_bytes :: "nat \<Rightarrow> nat \<Rightarrow> u64" where
  "encoded_row_bytes dim bits =
     (if dim = 0 \<or> bits = 0 \<or> bits > 8 then 0 else of_nat (dim div (8 div bits)) + 4)"

definition index_row_bytes :: "vector_index \<Rightarrow> u64" where
  "index_row_bytes idx =
     (case (dim_opt idx, bits_per_dimension idx) of
        (Some dim, Some bits) \<Rightarrow> encoded_row_bytes dim bits | _ \<Rightarrow> 0)"

function masked_rows_from :: "bool list \<Rightarrow> nat \<Rightarrow> nat \<Rightarrow> nat \<Rightarrow> nat option" where
  "masked_rows_from allow block_start stop rows =
     (if block_start < stop then
        (let block_end = min (block_start + BLOCK_VECTORS) stop in
         case slice_opt allow block_start block_end of
           None \<Rightarrow> None
         | Some block \<Rightarrow>
             masked_rows_from allow block_end stop
               (if list_ex id block then rows + (block_end - block_start) else rows))
      else Some rows)"
  by auto
termination
  by (relation "measure (\<lambda>(_, block_start, stop, _). stop - block_start)") (auto simp: BLOCK_VECTORS_def)

definition masked_rows :: "bool list \<Rightarrow> nat \<Rightarrow> nat \<Rightarrow> nat option" where
  "masked_rows allow start stop = masked_rows_from allow start stop 0"

section \<open>Ranking and merging hits\<close>

definition ranks_before :: "chunk_hit \<Rightarrow> chunk_hit \<Rightarrow> bool" where
  "ranks_before a b \<longleftrightarrow>
     f32_lt (score b) (score a) \<or> f32_eq (score a) (score b) \<and> slot a < slot b"

definition cmp_chunk :: "chunk_hit \<Rightarrow> chunk_hit \<Rightarrow> ordering" where
  "cmp_chunk a b =
     (if ranks_before a b then Less else if ranks_before b a then Greater else Equal)"

text \<open>
  The two-pointer loop of \<open>merge_chunk_hits\<close>: at most \<open>room\<close> hits are taken; the result
  holds the merged prefix and what is left on each side.
\<close>

fun merge_front ::
  "nat \<Rightarrow> chunk_hit list \<Rightarrow> chunk_hit list \<Rightarrow> chunk_hit list \<times> chunk_hit list \<times> chunk_hit list" where
  "merge_front 0 hs cs = ([], hs, cs)"
| "merge_front (Suc room) [] [] = ([], [], [])"
| "merge_front (Suc room) (h # hs) [] =
     (case merge_front room hs [] of (m, rest) \<Rightarrow> (h # m, rest))"
| "merge_front (Suc room) [] (c # cs) =
     (case merge_front room [] cs of (m, rest) \<Rightarrow> (c # m, rest))"
| "merge_front (Suc room) (h # hs) (c # cs) =
     (if ranks_before h c
      then (case merge_front room hs (c # cs) of (m, rest) \<Rightarrow> (h # m, rest))
      else (case merge_front room (h # hs) cs of (m, rest) \<Rightarrow> (c # m, rest)))"

text \<open>\<open>heap[k - 1]\<close>: a panic for \<open>k = 0\<close> and for a short heap.\<close>

definition kth :: "chunk_hit list \<Rightarrow> nat \<Rightarrow> chunk_hit option" where
  "kth heap k = (if k = 0 then None else nth_opt heap (k - 1))"

definition merge_chunk_hits ::
  "chunk_hit list \<Rightarrow> chunk_hit list \<Rightarrow> nat \<Rightarrow> bool \<Rightarrow> chunk_hit list option" where
  "merge_chunk_hits heap chunk k keep_ties =
     (if chunk = [] then Some heap
      else do {
        let chunk = sort_by cmp_chunk chunk;
        skip \<leftarrow>
          (if k \<le> length heap then
             (if keep_ties then do { b \<leftarrow> kth heap k; Some (f32_lt (score (hd chunk)) (score b)) }
              else if length heap = k then do { b \<leftarrow> kth heap k; Some (\<not> ranks_before (hd chunk) b) }
              else Some False)
           else Some False);
        if skip then Some heap
        else (case merge_front k heap chunk of (merged, hs, cs) \<Rightarrow>
          if keep_ties \<and> length merged = k then do {
            b \<leftarrow> kth merged k;
            let tied = (\<lambda>h. f32_eq (score h) (score b));
            Some (merged @ sort_by (\<lambda>a b. cmp_lin (slot a) (slot b))
                    (takeWhile tied hs @ takeWhile tied cs))
          }
          else Some merged)
      })"

section \<open>The merge step keeps exactly the survivors\<close>

text \<open>
  Hits of one scan have one score per slot and no NaN; on them \<open>ranks_before\<close> is a total
  order. With \<open>keep_ties\<close> a hit is outranked by the score alone.
\<close>

definition hit_ok :: "(u32 \<Rightarrow> f32) \<Rightarrow> chunk_hit \<Rightarrow> bool" where
  "hit_ok f h \<longleftrightarrow> \<not> is_nan (score h) \<and> score h = f (slot h)"

definition chunk_key :: "chunk_hit \<Rightarrow> int \<times> u32" where
  "chunk_key h = (- f32_key (score h), slot h)"

definition outranks :: "bool \<Rightarrow> chunk_hit \<Rightarrow> chunk_hit \<Rightarrow> bool" where
  "outranks keep_ties y x = (if keep_ties then f32_lt (score x) (score y) else ranks_before y x)"

lemma cmp_chunk_key:
  "\<not> is_nan (score a) \<Longrightarrow> \<not> is_nan (score b) \<Longrightarrow> cmp_chunk a b = cmp_lin (chunk_key a) (chunk_key b)"
  by (auto simp: cmp_chunk_def ranks_before_def f32_lt_def f32_eq_def chunk_key_def cmp_lin_def)

lemma ranks_before_key:
  "\<not> is_nan (score a) \<Longrightarrow> \<not> is_nan (score b) \<Longrightarrow> ranks_before a b \<longleftrightarrow> chunk_key a < chunk_key b"
  by (auto simp: ranks_before_def f32_lt_def f32_eq_def chunk_key_def)

lemma cmp_chunk_Less [simp]: "cmp_chunk a b = Less \<longleftrightarrow> ranks_before a b"
  by (simp add: cmp_chunk_def)

interpretation chunk_rank: keyed_ranking "hit_ok f" cmp_chunk chunk_key for f
proof
  fix x y assume "hit_ok f x" "hit_ok f y"
  then show "cmp_chunk x y = cmp_lin (chunk_key x) (chunk_key y)" "chunk_key x = chunk_key y \<Longrightarrow> x = y"
    by (auto simp: hit_ok_def cmp_chunk_key chunk_key_def)
qed

lemma chunk_le: "hit_ok f x \<Longrightarrow> hit_ok f y \<Longrightarrow> chunk_rank.le x y \<longleftrightarrow> chunk_key x \<le> chunk_key y"
  by (auto simp: chunk_rank.le_def hit_ok_def cmp_chunk_key linorder_not_less)

interpretation chunk_cut: cutoff "hit_ok f" cmp_chunk "outranks keep_ties" for f keep_ties
proof
  fix x y z assume ok: "hit_ok f x" "hit_ok f y"
  show "outranks keep_ties y x \<Longrightarrow> cmp_chunk y x = Less"
    by (auto simp: outranks_def ranks_before_def split: if_splits)
  show "hit_ok f z \<Longrightarrow> chunk_rank.le y z \<Longrightarrow> outranks keep_ties z x \<Longrightarrow> outranks keep_ties y x"
    using ok chunk_le [of f y z] by (auto simp: outranks_def hit_ok_def ranks_before_def f32_lt_def f32_eq_def
        chunk_key_def split: if_splits)
qed

lemma chunk_le_not_before:
  "hit_ok f x \<Longrightarrow> hit_ok f y \<Longrightarrow> chunk_rank.le x y \<longleftrightarrow> \<not> ranks_before y x"
  using chunk_rank.not_less [of f x y] by simp

lemma merge_front_correct:
  assumes "chunk_rank.all_ok f (hs @ cs)" "sorted_wrt chunk_rank.le hs" "sorted_wrt chunk_rank.le cs"
    and "merge_front room hs cs = (m, hs', cs')"
  shows "sort_by cmp_chunk (hs @ cs) = m @ sort_by cmp_chunk (hs' @ cs')
    \<and> length m = min room (length hs + length cs) \<and> (\<exists>i. hs' = drop i hs) \<and> (\<exists>j. cs' = drop j cs)"
  using assms
proof (induction room hs cs arbitrary: m rule: merge_front.induct)
  case (1 hs cs)
  then show ?case by (auto intro: exI [of _ 0])
next
  case (3 room h hs)
  obtain n where n: "merge_front room hs [] = (n, hs', cs')" "m = h # n"
    using 3 by (auto split: prod.splits)
  note IH = 3(1) [OF _ _ _ n(1)]
  have "sort_by cmp_chunk (h # hs) = h # sort_by cmp_chunk hs"
    using 3 by (intro chunk_rank.sort_by_least [of f]) auto
  moreover have "\<exists>i. hs' = drop i (h # hs)" using IH 3 by (metis append_Nil2 chunk_rank.all_ok_simps(2) drop_Suc_Cons append_Cons sorted_wrt.simps(2))
  ultimately show ?case using IH 3 n by simp
next
  case (4 room c cs)
  obtain n where n: "merge_front room [] cs = (n, hs', cs')" "m = c # n"
    using 4 by (auto split: prod.splits)
  note IH = 4(1) [OF _ _ _ n(1)]
  have "sort_by cmp_chunk (c # cs) = c # sort_by cmp_chunk cs"
    using 4 by (intro chunk_rank.sort_by_least [of f]) auto
  moreover have "\<exists>i. cs' = drop i (c # cs)" using IH 4 by (metis append_Nil chunk_rank.all_ok_simps(2) drop_Suc_Cons sorted_wrt.simps(2))
  ultimately show ?case using IH 4 n by simp
next
  case (5 room h hs c cs)
  have ok: "hit_ok f h" "hit_ok f c" "chunk_rank.all_ok f hs" "chunk_rank.all_ok f cs"
    using 5(3) by auto
  show ?case
  proof (cases "ranks_before h c")
    case True
    obtain n where n: "merge_front room hs (c # cs) = (n, hs', cs')" "m = h # n"
      using 5(6) True by (auto split: prod.splits)
    have hc: "chunk_rank.le h c"
      using True ok chunk_rank.less_le [of f h c] by simp
    have "chunk_rank.le h y" if "y \<in> set (hs @ c # cs)" for y
      using that 5(4,5) hc chunk_rank.le_trans [of f h c y] ok by (auto simp: chunk_rank.all_ok_def)
    then have "sort_by cmp_chunk ((h # hs) @ c # cs) = h # sort_by cmp_chunk (hs @ c # cs)"
      using ok by (intro chunk_rank.sort_by_least [of f]) auto
    moreover note 5(1) [OF True _ _ _ n(1)]
    moreover have "hs' = drop i hs \<Longrightarrow> hs' = drop (Suc i) (h # hs)" for i by simp
    ultimately show ?thesis using 5 n by (simp del: drop_Suc_Cons) metis
  next
    case False
    obtain n where n: "merge_front room (h # hs) cs = (n, hs', cs')" "m = c # n"
      using 5(6) False by (auto split: prod.splits)
    have ch: "chunk_rank.le c h"
      using False ok chunk_le_not_before [of f c h] by simp
    have "chunk_rank.le c y" if "y \<in> set (h # hs @ cs)" for y
      using that 5(4,5) ch chunk_rank.le_trans [of f c h y] ok by (auto simp: chunk_rank.all_ok_def)
    then have "sort_by cmp_chunk ((h # hs) @ c # cs) = c # sort_by cmp_chunk ((h # hs) @ cs)"
      using ok by (intro chunk_rank.sort_by_least [of f]) auto
    moreover note 5(2) [OF False _ _ _ n(1)]
    moreover have "cs' = drop i cs \<Longrightarrow> cs' = drop (Suc i) (c # cs)" for i by simp
    ultimately show ?thesis using 5 n by (simp del: drop_Suc_Cons) metis
  qed
qed auto

abbreviation beats where "beats \<equiv> chunk_cut.beats"

abbreviation survivors where "survivors \<equiv> chunk_cut.survivors"

lemma survivors_plain:
  assumes "chunk_rank.all_ok f xs" "distinct xs"
  shows "survivors False k xs = take k (sort_by cmp_chunk xs)"
proof -
  have "beats False k xs x" if "x \<in> set (drop k (sort_by cmp_chunk xs))" for x
  proof -
    have "x \<in> set xs" using that in_set_dropD by fastforce
    moreover have "x \<notin> set (chunk_rank.topk k xs)"
      using that assms(2) set_take_disj_set_drop_if_distinct [of "sort_by cmp_chunk xs" k k]
      by (auto simp: chunk_rank.topk_def)
    ultimately show ?thesis
      using chunk_rank.not_in_topk_beaten [OF assms]
      by (simp add: chunk_rank.beaten_def chunk_cut.beats_def outranks_def)
  qed
  then show ?thesis
    using chunk_cut.survivors_split [OF assms(1), of False k] by (simp add: chunk_rank.topk_def filter_empty_conv)
qed

lemma survivors_ties:
  assumes "chunk_rank.all_ok f xs" "0 < k" "k \<le> length xs"
  shows "survivors True k xs = take k (sort_by cmp_chunk xs)
    @ filter (\<lambda>x. f32_eq (score x) (score (sort_by cmp_chunk xs ! (k - 1)))) (drop k (sort_by cmp_chunk xs))"
proof -
  let ?s = "sort_by cmp_chunk xs"
  let ?b = "?s ! (k - 1)"
  have sorted: "sorted_wrt chunk_rank.le ?s" using assms(1) by (rule chunk_rank.sorted_sort_by)
  have okn: "x \<in> set ?s \<Longrightarrow> hit_ok f x" for x using assms(1) by (simp add: chunk_rank.all_ok_def)
  have bin: "?b \<in> set (take k ?s)"
    using assms(2,3) by (auto simp: in_set_conv_nth intro!: exI [of _ "k - 1"])
  have "\<not> beats True k xs x \<longleftrightarrow> f32_eq (score x) (score ?b)" if x: "x \<in> set (drop k ?s)" for x
  proof -
    have okx: "hit_ok f x" and okb: "hit_ok f ?b"
      using x bin okn in_set_dropD in_set_takeD by metis+
    have bx: "chunk_rank.le ?b x"
      using sorted bin x by (metis append_take_drop_id sorted_wrt_append)
    have "chunk_rank.le y ?b" if y: "y \<in> set (take k ?s)" for y
    proof -
      obtain i where i: "i < k" "y = ?s ! i" using y by (auto simp: in_set_conv_nth)
      show ?thesis
        using i sorted_wrt_nth_less [OF sorted, of i "k - 1"] assms(2,3) chunk_rank.le_refl [OF okb]
        by (cases "i = k - 1") auto
    qed
    then have "outranks True y x" if "y \<in> set (take k ?s)" "outranks True ?b x" for y
      using that chunk_cut.outr_up [OF _ okb okx, of y True] okn in_set_takeD by metis
    then have "beats True k xs x \<longleftrightarrow> outranks True ?b x"
      unfolding chunk_cut.beats_sorted [OF assms(1) okx] chunk_rank.topk_def using bin assms(3) by blast
    then show ?thesis
      using bx okx okb chunk_le [OF okb okx]
      by (auto simp: outranks_def hit_ok_def f32_lt_def f32_eq_def chunk_key_def)
  qed
  then show ?thesis
    using chunk_cut.survivors_split [OF assms(1), of True k]
    by (simp add: chunk_rank.topk_def cong: filter_cong)
qed

lemma survivors_short:
  "chunk_rank.all_ok f xs \<Longrightarrow> length xs < k \<Longrightarrow> survivors t k xs = sort_by cmp_chunk xs"
proof -
  assume "length xs < k"
  then have "\<not> beats t k xs x" for x
    unfolding chunk_cut.beats_def using le_less_trans [OF length_filter_le] linorder_not_le by blast
  then show ?thesis by (simp add: chunk_cut.survivors_def)
qed

text \<open>What the \<open>k\<close>-th hit of a heap outranks, \<open>k\<close> hits of the heap outrank.\<close>

lemma beats_kth:
  assumes ok: "chunk_rank.all_ok f heap" "hit_ok f x" and surv: "survivors t k heap = heap"
    and k: "0 < k" "k \<le> length heap" and out: "outranks t (heap ! (k - 1)) x"
  shows "beats t k heap x"
proof -
  have sorted: "sorted_wrt chunk_rank.le heap"
    using chunk_cut.sorted_survivors [OF ok(1), of t k] surv by simp
  have "outranks t y x" if y: "y \<in> set (take k heap)" for y
  proof -
    obtain i where i: "i < k" "y = heap ! i" using y by (auto simp: in_set_conv_nth)
    have okn: "j < k \<Longrightarrow> hit_ok f (heap ! j)" for j using ok(1) k by (simp add: chunk_rank.all_ok_def)
    have "chunk_rank.le y (heap ! (k - 1))"
      using i sorted_wrt_nth_less [OF sorted, of i "k - 1"] k chunk_rank.le_refl [OF okn [of i]]
      by (cases "i = k - 1") auto
    then show ?thesis
      using chunk_cut.outr_up [OF okn [of i] okn [of "k - 1"] ok(2), of t] i k out by simp
  qed
  then show ?thesis unfolding chunk_cut.beats_iff [OF ok sorted] using k by blast
qed

lemma survivors_skip:
  assumes "0 < k" "chunk_rank.all_ok f (heap @ chunk)" "distinct (heap @ chunk)"
    and "survivors t k heap = heap" "k \<le> length heap"
    and out: "\<And>x. x \<in> set chunk \<Longrightarrow> outranks t (heap ! (k - 1)) x"
  shows "survivors t k (heap @ chunk) = heap"
proof (rule chunk_cut.survivors_covering [of f])
  fix x assume "x \<in> set (heap @ chunk)" "x \<notin> set heap"
  then have "x \<in> set chunk" by simp
  then show "beats t k heap x \<or> beats t k (heap @ chunk) x"
    using assms by (intro disjI1 beats_kth [of f]) (auto simp: chunk_rank.all_ok_def)
qed (use assms in auto)

lemma takeWhile_tied:
  assumes "chunk_rank.all_ok f (b # hs)" "sorted_wrt chunk_rank.le (b # hs)"
  shows "takeWhile (\<lambda>h. f32_eq (score h) (score b)) hs = filter (\<lambda>h. f32_eq (score h) (score b)) hs"
  using assms
proof (induction hs)
  case (Cons h hs)
  show ?case
  proof (cases "f32_eq (score h) (score b)")
    case False
    have "\<not> f32_eq (score y) (score b)" if "y \<in> set hs" for y
    proof -
      have ok: "hit_ok f b" "hit_ok f h" "hit_ok f y" using Cons.prems(1) that by (auto simp: chunk_rank.all_ok_def)
      then have "chunk_key b \<le> chunk_key h" "chunk_key h \<le> chunk_key y"
        using Cons.prems(2) that chunk_le by auto
      then show ?thesis using False ok
        by (auto simp: f32_eq_def hit_ok_def chunk_key_def)
    qed
    then show ?thesis using False by (simp add: filter_empty_conv)
  qed (use Cons in simp)
qed simp

lemma sort_tied:
  assumes "\<And>x. x \<in> set xs \<Longrightarrow> f32_eq (score x) (score b)"
  shows "sort_by (\<lambda>a b. cmp_lin (slot a) (slot b)) xs = sort_by cmp_chunk xs"
proof (rule sort_by_cong)
  fix x y assume "x \<in> set xs" "y \<in> set xs"
  then have "f32_eq (score x) (score b)" "f32_eq (score y) (score b)" using assms by auto
  then show "cmp_lin (slot x) (slot y) = cmp_chunk x y"
    by (auto simp: f32_eq_def cmp_chunk_key chunk_key_def cmp_lin_def)
qed

lemma merged_front_survivors:
  assumes "0 < k" "chunk_rank.all_ok f (heap @ chunk)" "distinct (heap @ chunk)"
    and "sorted_wrt chunk_rank.le heap" "sorted_wrt chunk_rank.le chunk"
    and front: "merge_front k heap chunk = (m, hs, cs)"
  shows "survivors t k (heap @ chunk) =
    (if t \<and> length m = k
     then m @ sort_by (\<lambda>a b. cmp_lin (slot a) (slot b))
       (takeWhile (\<lambda>h. f32_eq (score h) (score (m ! (k - 1)))) hs
        @ takeWhile (\<lambda>h. f32_eq (score h) (score (m ! (k - 1)))) cs)
     else m)"
proof -
  let ?s = "sort_by cmp_chunk (heap @ chunk)"
  have mf: "?s = m @ sort_by cmp_chunk (hs @ cs)" "length m = min k (length heap + length chunk)"
    "\<exists>i. hs = drop i heap" "\<exists>j. cs = drop j chunk"
    using merge_front_correct [OF assms(2,4,5) front] by auto
  show ?thesis
  proof (cases "t \<and> length m = k")
    case False
    have take: "take k ?s = m"
    proof (cases "length m = k")
      case True
      then show ?thesis using mf(1) by simp
    next
      case False
      then have "length ?s = length m" using mf(2) by (simp add: min_def split: if_splits)
      then show ?thesis using mf(1,2) by simp
    qed
    show ?thesis
    proof (cases t)
      case True
      then have "length (heap @ chunk) < k" using False mf(2) by (auto simp: min_def split: if_splits)
      then show ?thesis using survivors_short [OF assms(2)] take False by auto
    qed (use survivors_plain [OF assms(2,3)] take in simp)
  next
    case True
    let ?b = "m ! (k - 1)"
    let ?tied = "\<lambda>h. f32_eq (score h) (score ?b)"
    have sorted: "sorted_wrt chunk_rank.le (m @ sort_by cmp_chunk (hs @ cs))"
      using chunk_rank.sorted_sort_by [OF assms(2)] mf(1) by simp
    have oks: "chunk_rank.all_ok f (m @ sort_by cmp_chunk (hs @ cs))"
      using assms(2) mf(1) by (metis chunk_rank.all_ok_sort_by)
    have bm: "?b \<in> set m" using True assms(1) by simp
    have ok: "chunk_rank.all_ok f (?b # hs)" "chunk_rank.all_ok f (?b # cs)"
      using oks bm by (auto simp: chunk_rank.all_ok_def)
    have "sorted_wrt chunk_rank.le hs" "sorted_wrt chunk_rank.le cs"
      using mf(3,4) assms(4,5) by (auto simp: sorted_wrt_drop)
    then have "sorted_wrt chunk_rank.le (?b # hs)" "sorted_wrt chunk_rank.le (?b # cs)"
      using sorted bm by (auto simp: sorted_wrt_append)
    note tw = takeWhile_tied [OF ok(1) this(1)] takeWhile_tied [OF ok(2) this(2)]
    have "sort_by (\<lambda>a b. cmp_lin (slot a) (slot b)) (filter ?tied hs @ filter ?tied cs)
        = sort_by cmp_chunk (filter ?tied (hs @ cs))"
      by (subst sort_tied [of _ ?b]) auto
    also have "\<dots> = filter ?tied (drop k ?s)"
      using chunk_rank.sort_by_filter [of f "hs @ cs"] ok mf(1) True by simp
    finally show ?thesis
      using survivors_ties [OF assms(2,1)] mf(1,2) True assms(1) unfolding tw by (simp add: nth_append)
  qed
qed

lemma merge_chunk_hits_correct:
  assumes k: "0 < k" and ok: "chunk_rank.all_ok f (heap @ chunk)" and dist: "distinct (heap @ chunk)"
    and heap: "survivors t k heap = heap"
  shows "merge_chunk_hits heap chunk k t = Some (survivors t k (heap @ chunk))"
proof (cases "chunk = []")
  case False
  let ?c = "sort_by cmp_chunk chunk"
  have okh: "chunk_rank.all_ok f heap" and okc: "chunk_rank.all_ok f ?c" using ok by auto
  have sh: "sorted_wrt chunk_rank.le heap" using chunk_cut.sorted_survivors [OF okh, of t k] heap by simp
  have sc: "sorted_wrt chunk_rank.le ?c" using okc by (intro chunk_rank.sorted_sort_by) simp
  have cs: "survivors t k (heap @ ?c) = survivors t k (heap @ chunk)"
    using ok by (intro chunk_cut.survivors_mset [of f]) auto
  have ne: "?c \<noteq> []" using False by (metis length_0_conv length_sort_by)
  have hd: "chunk_rank.le (hd ?c) x" if "x \<in> set chunk" for x
    using that sc ne chunk_rank.le_refl [of f "hd ?c"] okc
    by (cases ?c) (auto simp flip: set_sort_by [of cmp_chunk chunk])
  have okhd: "hit_ok f (hd ?c)" using okc ne by (metis chunk_rank.all_ok_def list.set_sel(1))
  define b where "b = heap ! (k - 1)"
  have skip: "survivors t k (heap @ chunk) = heap"
    if "k \<le> length heap" "if t then f32_lt (score (hd ?c)) (score b) else \<not> ranks_before (hd ?c) b"
  proof (rule survivors_skip [OF k ok dist heap that(1)])
    fix x assume x: "x \<in> set chunk"
    have b: "b \<in> set heap" using that(1) k by (simp add: b_def)
    have okb: "hit_ok f b" and okx: "hit_ok f x" and ne: "b \<noteq> x"
      using okh ok x dist b by (auto simp: chunk_rank.all_ok_def)
    then have keys: "chunk_key (hd ?c) \<le> chunk_key x" "chunk_key b \<noteq> chunk_key x"
      using hd [OF x] chunk_le [OF okhd okx] chunk_rank.key_inject [OF okb okx] by auto
    then show "outranks t (heap ! (k - 1)) x"
      using that(2) okb okx okhd unfolding b_def [symmetric]
      by (auto simp: outranks_def ranks_before_key hit_ok_def f32_lt_def chunk_key_def split: if_splits)
  qed
  obtain m hs cs where front: "merge_front k heap ?c = (m, hs, cs)" by (cases "merge_front k heap ?c") auto
  note surv = merged_front_survivors [OF k _ _ sh sc front, of f t, unfolded cs]
  show ?thesis
    using False surv ok dist skip front k
    by (auto simp: merge_chunk_hits_def kth_def b_def Let_def nth_opt_def split: if_splits)
qed (use heap in \<open>simp add: merge_chunk_hits_def\<close>)

section \<open>Properties of the merge step\<close>

text \<open>
  The specification of a bounded result list: the hits that fewer than \<open>k\<close> others outrank,
  best first.
\<close>

definition top_hits :: "bool \<Rightarrow> nat \<Rightarrow> chunk_hit list \<Rightarrow> chunk_hit list" where
  "top_hits keep_ties k xs =
     filter (\<lambda>x. length (filter (\<lambda>y. outranks keep_ties y x) xs) < k) (sort_by cmp_chunk xs)"

lemma survivors_top_hits: "survivors t k xs = top_hits t k xs"
  by (simp add: chunk_cut.survivors_def top_hits_def chunk_cut.beats_def linorder_not_le)

text \<open>
  C26: merging a chunk into the running heap keeps exactly the hits of heap and chunk that
  fewer than \<open>k\<close> others outrank, best first: with \<open>keep_ties\<close> the whole tie group at the
  boundary, without it the first \<open>k\<close>.
\<close>

theorem merge_chunk_hits_top:
  assumes "0 < k" "\<forall>h \<in> set (heap @ chunk). hit_ok f h" "distinct (heap @ chunk)"
    and "top_hits keep_ties k heap = heap"
  shows "merge_chunk_hits heap chunk k keep_ties = Some (top_hits keep_ties k (heap @ chunk))"
  using merge_chunk_hits_correct [of k f heap chunk keep_ties] assms
  by (simp add: survivors_top_hits chunk_rank.all_ok_def)

theorem merge_chunk_hits_top_witness:
  "merge_chunk_hits [\<lparr>slot = 4, score = 0x40000000\<rparr>] [\<lparr>slot = 7, score = 0x3F800000\<rparr>, \<lparr>slot = 2, score = 0x40000000\<rparr>] 1 True
   = Some [\<lparr>slot = 2, score = 0x40000000\<rparr>, \<lparr>slot = 4, score = 0x40000000\<rparr>]"
  by (subst merge_chunk_hits_top [where f = "\<lambda>s. if s = 7 then 0x3F800000 else 0x40000000"])
    (simp_all add: hit_ok_def is_nan_def top_hits_def outranks_def f32_lt_def f32_eq_def f32_key_def
      sign_bit_def magnitude_def cmp_chunk_def ranks_before_def)

text \<open>Without \<open>keep_ties\<close> the specification is the plain top \<open>k\<close>.\<close>

lemma top_hits_plain:
  assumes "\<forall>h \<in> set xs. hit_ok f h" "distinct xs"
  shows "top_hits False k xs = take k (sort_by cmp_chunk xs)"
  using survivors_plain [of f xs k] assms by (simp add: survivors_top_hits chunk_rank.all_ok_def)

end
