(* ===== verification/Scan_Correct.thy ===== *)
theory Scan_Correct
  imports Scan
begin

text \<open>
  Losslessness of the chunked scan (\<open>src/chunked.rs\<close>): under the kernel's contract, every
  admitted row that is not in a query's result is outranked by \<open>k\<close> results or scores below a
  floor handed to the scan, whatever the chunk size, the batch and the environment.
\<close>

section \<open>The corpus of a query and the kernel's contract\<close>

text \<open>
  \<open>sc v i\<close> is the score the backend gives row \<open>i\<close> for the query vector \<open>v\<close>. The rows of a
  query are the rows its allowlist admits.
\<close>

definition hit_at :: "(nat \<Rightarrow> f32) \<Rightarrow> nat \<Rightarrow> chunk_hit" where
  "hit_at g i = \<lparr>slot = of_nat i, score = g i\<rparr>"

definition allowed :: "batch_query \<Rightarrow> nat \<Rightarrow> bool" where
  "allowed q i = (case bq_allow q of None \<Rightarrow> True | Some (_, a) \<Rightarrow> a ! i)"

definition rows :: "(f32 list \<Rightarrow> nat \<Rightarrow> f32) \<Rightarrow> batch_query \<Rightarrow> nat \<Rightarrow> nat \<Rightarrow> chunk_hit list" where
  "rows sc q start stop = map (hit_at (sc (bq_vector q))) (filter (allowed q) [start..<stop])"

text \<open>
  The contract of an exhaustive backend (\<open>QualityContract::ExhaustiveQuantized\<close>: every
  eligible row is evaluated under one score and total order): for queries of the index's
  dimension, a mask over every row and a floor, each result row holds the best \<open>k\<close> masked
  rows at or above the floor, in any order, and padding with negative slots.
\<close>

definition eligible :: "(nat \<Rightarrow> f32) \<Rightarrow> bool list \<Rightarrow> f32 \<Rightarrow> chunk_hit list" where
  "eligible g m fl = filter (\<lambda>h. \<not> f32_lt (score h) fl) (map (hit_at g) (filter (\<lambda>i. m ! i) [0..<length m]))"

definition real_entries :: "f32 list \<Rightarrow> int list \<Rightarrow> (f32 \<times> int) list" where
  "real_entries scores slots = filter (\<lambda>(s, i). 0 \<le> i) (zip scores slots)"

definition exhaustive_kernel :: "vector_index \<Rightarrow> (f32 list \<Rightarrow> nat \<Rightarrow> f32) \<Rightarrow> bool" where
  "exhaustive_kernel idx sc \<longleftrightarrow>
     (\<forall>v i. \<not> is_nan (sc v i)) \<and>
     (\<forall>vs k m fl. vs \<noteq> [] \<and> (\<forall>v \<in> set vs. dim_opt idx = Some (length v)) \<and> length m = index_len idx \<and> \<not> is_nan fl \<longrightarrow>
        (\<exists>r. engine_search idx (concat vs) k \<lparr>opt_allow = Some m, opt_minimum_score = Some fl\<rparr> = Inr r \<and>
          (\<forall>j < length vs. \<exists>ss is. scores_for_query r j = Some ss \<and> slots_for_query r j = Some is \<and>
             mset (real_entries ss is) =
             mset (map (\<lambda>h. (score h, uint (slot h))) (take k (sort_by cmp_chunk (eligible (sc (vs ! j)) m fl)))))))"

lemma exhaustive_kernelD:
  assumes "exhaustive_kernel idx sc" "vs \<noteq> []" "\<forall>v \<in> set vs. dim_opt idx = Some (length v)"
    and "length m = index_len idx" "\<not> is_nan fl"
  shows "\<exists>r. engine_search idx (concat vs) k \<lparr>opt_allow = Some m, opt_minimum_score = Some fl\<rparr> = Inr r \<and>
    (\<forall>j < length vs. \<exists>ss is. scores_for_query r j = Some ss \<and> slots_for_query r j = Some is \<and>
       mset (real_entries ss is) =
       mset (map (\<lambda>h. (score h, uint (slot h))) (take k (sort_by cmp_chunk (eligible (sc (vs ! j)) m fl)))))"
  using assms unfolding exhaustive_kernel_def by blast

section \<open>One chunk merged into one heap\<close>

definition slot_score :: "(nat \<Rightarrow> f32) \<Rightarrow> u32 \<Rightarrow> f32" where
  "slot_score g w = g (unat w)"

lemma unat_of_nat_u32: "i < 4294967296 \<Longrightarrow> unat (of_nat i :: u32) = i"
  by (simp add: unat_of_nat take_bit_nat_eq_self)

lemma hit_at_ok: "i < 4294967296 \<Longrightarrow> \<not> is_nan (g i) \<Longrightarrow> hit_ok (slot_score g) (hit_at g i)"
  by (simp add: hit_ok_def hit_at_def slot_score_def unat_of_nat_u32)

lemma hit_at_inject: "i < 4294967296 \<Longrightarrow> j < 4294967296 \<Longrightarrow> hit_at g i = hit_at g j \<Longrightarrow> i = j"
  by (metis hit_at_def chunk_hit.select_convs(1) unat_of_nat_u32)

lemma distinct_map_hit_at:
  "distinct is \<Longrightarrow> \<forall>i \<in> set is. i < 4294967296 \<Longrightarrow> distinct (map (hit_at g) is)"
  by (auto simp: distinct_map inj_on_def dest: hit_at_inject)

lemma set_rows: "set (rows sc q a b) = hit_at (sc (bq_vector q)) ` {i. a \<le> i \<and> i < b \<and> allowed q i}"
  by (auto simp: rows_def)

lemma rows_ok:
  "b \<le> 4294967296 \<Longrightarrow> \<forall>v i. \<not> is_nan (sc v i) \<Longrightarrow> chunk_rank.all_ok (slot_score (sc (bq_vector q))) (rows sc q a b)"
  by (auto simp: chunk_rank.all_ok_def set_rows intro!: hit_at_ok)

lemma distinct_rows: "b \<le> 4294967296 \<Longrightarrow> distinct (rows sc q a b)"
  unfolding rows_def by (intro distinct_map_hit_at) auto

lemma rows_append: "a \<le> b \<Longrightarrow> b \<le> c \<Longrightarrow> rows sc q a c = rows sc q a b @ rows sc q b c"
  unfolding rows_def by (metis filter_append map_append upt_add_eq_append le_add_diff_inverse)

text \<open>
  The invariant of one query after the rows below \<open>r\<close>: the heap is in top-hits form, holds
  admitted rows, and every admitted row it does not hold is outranked by \<open>k\<close> hits of the heap
  or scores below a floor handed to the scan.
\<close>

definition query_inv ::
  "(f32 list \<Rightarrow> nat \<Rightarrow> f32) \<Rightarrow> batch_query \<Rightarrow> (f32 \<Rightarrow> bool) \<Rightarrow> nat \<Rightarrow> chunk_hit list \<Rightarrow> bool" where
  "query_inv sc q floors r heap \<longleftrightarrow>
     distinct heap \<and> set heap \<subseteq> set (rows sc q 0 r) \<and>
     survivors (bq_keep_ties q) (bq_k q) heap = heap \<and>
     (\<forall>x \<in> set (rows sc q 0 r) - set heap.
        beats (bq_keep_ties q) (bq_k q) heap x \<or> (\<exists>f. floors f \<and> f32_lt (score x) f))"

text \<open>A floor is justified when what it drops is below a handed floor or below the heap's \<open>k\<close>-th.\<close>

definition justified :: "batch_query \<Rightarrow> (f32 \<Rightarrow> bool) \<Rightarrow> chunk_hit list \<Rightarrow> f32 \<Rightarrow> bool" where
  "justified q floors heap fl \<longleftrightarrow> \<not> is_nan fl \<and>
     (\<forall>s. f32_lt s fl \<longrightarrow> (\<exists>f. floors f \<and> f32_lt s f) \<or>
        0 < bq_k q \<and> bq_k q \<le> length heap \<and> f32_lt s (score (heap ! (bq_k q - 1))))"

lemma append_mset_subset: "mset xs \<subseteq># mset (xs @ ys)" "mset ys \<subseteq># mset (xs @ ys)"
  by (metis mset_append mset_subset_eq_add_left) (metis mset_append mset_subset_eq_add_right)

lemma below_kth_beats:
  assumes "chunk_rank.all_ok f heap" "hit_ok f x" "survivors t k heap = heap"
    and "0 < k" "k \<le> length heap" "f32_lt (score x) (score (heap ! (k - 1)))"
  shows "beats t k heap x"
  using assms by (intro beats_kth [of f]) (simp_all add: outranks_def ranks_before_def)

text \<open>What the kernel leaves out of a chunk is below the kernel floor or crowded out.\<close>

lemma crowded_out:
  assumes ok: "chunk_rank.all_ok f C" and dist: "distinct C"
    and x: "x \<in> set C" "\<not> f32_lt (score x) kf" "x \<notin> set (take ck (sort_by cmp_chunk (filter (\<lambda>h. \<not> f32_lt (score h) kf) C)))"
    and hits: "set hits = {h \<in> set (take ck (sort_by cmp_chunk (filter (\<lambda>h. \<not> f32_lt (score h) kf) C))). \<not> f32_lt (score h) fl}"
    and "distinct hits" and "\<not> f32_lt (score x) fl" "\<not> is_nan fl" and k: "k \<le> ck"
  shows "beats False k hits x"
proof -
  let ?E = "filter (\<lambda>h. \<not> f32_lt (score h) kf) C"
  let ?T = "chunk_rank.topk ck ?E"
  have okE: "chunk_rank.all_ok f ?E" using ok by (auto simp: chunk_rank.all_ok_def)
  have okx: "hit_ok f x" using ok x(1) by (simp add: chunk_rank.all_ok_def)
  have "chunk_rank.beaten ck ?E x"
    using x dist by (intro chunk_rank.not_in_topk_beaten [OF okE]) (auto simp: chunk_rank.topk_def)
  then have "chunk_cut.beats False ck ?E x"
    by (simp add: chunk_rank.beaten_def chunk_cut.beats_def outranks_def)
  then have T: "ck \<le> length ?E" "\<And>y. y \<in> set ?T \<Longrightarrow> ranks_before y x"
    using chunk_cut.beats_sorted [OF okE okx, of False ck] by (auto simp: outranks_def)
  have "set ?T \<subseteq> set hits"
  proof
    fix y assume y: "y \<in> set ?T"
    have "hit_ok f y" using y okE chunk_rank.set_topk_subset [of ck ?E] by (auto simp: chunk_rank.all_ok_def)
    then have "\<not> f32_lt (score y) fl"
      using T(2) [OF y] assms(7,8) okx by (auto simp: ranks_before_def f32_lt_def f32_eq_def hit_ok_def)
    then show "y \<in> set hits" using y hits by (simp add: chunk_rank.topk_def)
  qed
  moreover have "distinct ?T" using dist by (simp add: chunk_rank.topk_def)
  ultimately have "mset ?T \<subseteq># mset hits" by (intro distinct_mset_subset)
  moreover have "length (filter (\<lambda>y. ranks_before y x) ?T) = ck"
    using T by (subst filter_True) auto
  then have "chunk_cut.beats False k ?T x"
    using k by (simp add: chunk_cut.beats_def outranks_def)
  ultimately show ?thesis by (rule chunk_cut.beats_mono)
qed

lemma merge_query_inv:
  fixes sc q floors start stop
  defines "g \<equiv> sc (bq_vector q)" and "k \<equiv> bq_k q" and "t \<equiv> bq_keep_ties q" and "C \<equiv> rows sc q start stop"
  assumes inv: "query_inv sc q floors start heap" and k: "0 < k"
    and nan: "\<forall>v i. \<not> is_nan (sc v i)" and range: "start \<le> stop" "stop \<le> 4294967296"
    and fl: "justified q floors heap fl" and kf: "\<not> is_nan kf" "f32_key kf \<le> f32_key fl"
    and ck: "k \<le> ck" "t \<Longrightarrow> length C \<le> ck"
    and hits: "set hits = {h \<in> set (take ck (sort_by cmp_chunk (filter (\<lambda>h. \<not> f32_lt (score h) kf) C))). \<not> f32_lt (score h) fl}"
    and dist: "distinct hits"
  shows "\<exists>heap'. merge_chunk_hits heap hits k t = Some heap' \<and> query_inv sc q floors stop heap'"
proof -
  let ?f = "slot_score g"
  let ?heap = "survivors t k (heap @ hits)"
  have R: "rows sc q 0 stop = rows sc q 0 start @ C" unfolding C_def using range by (intro rows_append) simp_all
  have ok: "chunk_rank.all_ok ?f (rows sc q 0 stop)" unfolding g_def using range nan by (intro rows_ok)
  have dR: "distinct (rows sc q 0 stop)" using range by (intro distinct_rows)
  have hC: "set hits \<subseteq> set C" using hits by (auto dest: in_set_takeD)
  have hR: "set heap \<subseteq> set (rows sc q 0 start)" and dh: "distinct heap" and sh: "survivors t k heap = heap"
    using inv by (auto simp: query_inv_def k_def t_def)
  have okh: "chunk_rank.all_ok ?f (heap @ hits)"
    using hC hR R by (intro chunk_rank.all_ok_mono [OF ok]) auto
  have dhh: "distinct (heap @ hits)" using dist dh dR hC hR R by auto
  have m: "merge_chunk_hits heap hits k t = Some ?heap"
    by (rule merge_chunk_hits_correct [OF k okh dhh sh])
  have up: "beats t k ?heap x" if "beats t k (heap @ hits) x" "x \<in> set (rows sc q 0 stop)" for x
    using that chunk_cut.beats_survivors [OF okh, of x t k] ok by (simp add: chunk_rank.all_ok_def)
  have "beats t k ?heap x \<or> (\<exists>f. floors f \<and> f32_lt (score x) f)"
    if x: "x \<in> set (rows sc q 0 stop)" "x \<notin> set ?heap" for x
  proof (cases "x \<in> set (heap @ hits)")
    case True
    then show ?thesis using x up by (auto simp: chunk_cut.set_survivors)
  next
    case out: False
    have okx: "hit_ok ?f x" using ok x(1) by (simp add: chunk_rank.all_ok_def)
    have heap_up: "beats t k heap x \<Longrightarrow> beats t k (heap @ hits) x"
      using chunk_cut.beats_mono [OF append_mset_subset(1)] .
    consider "x \<in> set (rows sc q 0 start)" | "x \<in> set C" "f32_lt (score x) fl"
      | "x \<in> set C" "\<not> f32_lt (score x) fl" using x R by auto
    then show ?thesis
    proof cases
      case 1
      then show ?thesis using inv out heap_up up x by (auto simp: query_inv_def k_def t_def)
    next
      case 2
      then show ?thesis
        using fl below_kth_beats [of ?f heap x t k] okh okx sh heap_up up x
        by (auto simp: justified_def k_def)
    next
      case 3
      have kfx: "\<not> f32_lt (score x) kf" using 3(2) kf okx fl by (auto simp: f32_lt_def hit_ok_def justified_def)
      let ?E = "filter (\<lambda>h. \<not> f32_lt (score h) kf) C"
      have "x \<notin> set (take ck (sort_by cmp_chunk ?E))" using out hits 3(2) by auto
      moreover have "\<not> t"
      proof
        assume t
        then have "length ?E \<le> ck" using ck(2) length_filter_le [of _ C] order_trans by blast
        then show False using calculation 3(1) kfx by simp
      qed
      moreover have "beats False k hits x"
        using ok dR R 3 kfx calculation(1) hits dist fl ck(1) by (intro crowded_out) (auto simp: justified_def)
      then have "beats False k (heap @ hits) x" by (rule chunk_cut.beats_mono [OF append_mset_subset(2)])
      ultimately show ?thesis using up x by simp
    qed
  qed
  moreover have "set ?heap \<subseteq> set (rows sc q 0 stop)"
    using hC hR R by (auto simp: chunk_cut.set_survivors)
  moreover have "survivors t k ?heap = ?heap" using chunk_cut.survivors_idem [OF okh] .
  ultimately have "query_inv sc q floors stop ?heap"
    using chunk_cut.distinct_survivors [OF dhh] by (simp add: query_inv_def k_def t_def)
  then show ?thesis using m by blast
qed

section \<open>The environment of the scan\<close>

text \<open>
  What the scan relies on of its closures: an invariant \<open>J\<close> of the environment that every
  call keeps, under which the external floors of query \<open>qi\<close> satisfy \<open>handed qi\<close>; floors are
  published only when \<open>k\<close> admitted rows reach them (\<open>attained\<close>).
\<close>

definition attained :: "(f32 list \<Rightarrow> nat \<Rightarrow> f32) \<Rightarrow> batch_query \<Rightarrow> nat \<Rightarrow> f32 \<Rightarrow> bool" where
  "attained sc q n f \<longleftrightarrow> \<not> is_nan f \<and> bq_k q \<le> length (filter (\<lambda>h. \<not> f32_lt (score h) f) (rows sc q 0 n))"

definition reached_by :: "(f32 list \<Rightarrow> nat \<Rightarrow> f32) \<Rightarrow> batch_query list \<Rightarrow> nat \<Rightarrow> nat \<Rightarrow> f32 \<Rightarrow> bool" where
  "reached_by sc queries n qi f \<longleftrightarrow> qi < length queries \<and> attained sc (queries ! qi) n f"

definition feed_ok ::
  "'e closures \<Rightarrow> ('e \<Rightarrow> bool) \<Rightarrow> (nat \<Rightarrow> f32 \<Rightarrow> bool) \<Rightarrow> (nat \<Rightarrow> f32 \<Rightarrow> bool) \<Rightarrow> bool" where
  "feed_ok cl J handed reached \<longleftrightarrow>
     (\<forall>e qi. J e \<longrightarrow> J (snd (external_floor cl qi e)) \<and>
        (\<forall>f. fst (external_floor cl qi e) = Some f \<and> \<not> is_nan f \<longrightarrow> handed qi f)) \<and>
     (\<forall>e qi f. J e \<and> reached qi f \<longrightarrow> J (snd (publish_floor cl qi f e))) \<and>
     (\<forall>e p. J e \<longrightarrow> J (observe_pass cl p e)) \<and>
     (\<forall>e. J e \<longrightarrow> J (snd (elapsed_nanos cl e)))"

lemma f32_max_NEG_INFINITY: "\<not> is_nan f \<Longrightarrow> f32_key (f32_max NEG_INFINITY f) = f32_key f"
  using NEG_INFINITY_least [of f] by (simp add: f32_max_key)

lemma justified_NEG_INFINITY: "justified q floors heap NEG_INFINITY"
  by (auto simp: justified_def f32_lt_def dest: NEG_INFINITY_least)

lemma justified_external: "\<not> is_nan f \<Longrightarrow> floors f \<Longrightarrow> justified q floors heap (f32_max NEG_INFINITY f)"
  by (auto simp: justified_def f32_lt_def f32_max_NEG_INFINITY)

lemma justified_external_part:
  "(\<And>f. ext = Some f \<Longrightarrow> \<not> is_nan f \<Longrightarrow> floors f) \<Longrightarrow> justified q floors heap (external_part ext)"
  by (auto simp: external_part_def justified_NEG_INFINITY justified_external split: option.split)

lemma justified_heap_part:
  assumes "justified q floors heap fl"
  shows "justified q floors heap (heap_part q heap fl)"
  using assms by (auto simp: heap_part_def justified_def f32_lt_def f32_max_def)

definition same_scan :: "'e scan \<Rightarrow> 'e scan \<Rightarrow> bool" where
  "same_scan st st' \<longleftrightarrow> scan_heaps st' = scan_heaps st \<and> scan_mask st' = scan_mask st \<and>
     length (query_floors st') = length (query_floors st) \<and> length (scan_out st') = length (scan_out st)"

lemma bump_simps [simp]:
  "scan_env (bump qi f st) = scan_env st" "scan_mask (bump qi f st) = scan_mask st"
  "scan_heaps (bump qi f st) = scan_heaps st" "query_floors (bump qi f st) = query_floors st"
  "length (scan_out (bump qi f st)) = length (scan_out st)"
  by (simp_all add: bump_def)

lemma adopt_floor_correct:
  assumes "feed_ok cl J handed reached" "J (scan_env st)" "qi < length (query_floors st)"
    and "adopt_floor queries cl qi (st, kf, gk, any) = (st', kf', gk', any')"
  shows "same_scan st st' \<and> J (scan_env st') \<and>
    (\<forall>j. j \<noteq> qi \<longrightarrow> query_floors st' ! j = query_floors st ! j) \<and>
    justified (queries ! qi) (handed qi) (scan_heaps st ! qi) (query_floors st' ! qi) \<and>
    kf' = f32_min kf (query_floors st' ! qi) \<and> gk' = max gk (bq_k (queries ! qi)) \<and>
    any' = (any \<or> bq_keep_ties (queries ! qi))"
proof -
  obtain ext e where ext: "external_floor cl qi (scan_env st) = (ext, e)" by force
  have J: "J e" "\<And>f. ext = Some f \<Longrightarrow> \<not> is_nan f \<Longrightarrow> handed qi f"
    using assms(1,2) ext unfolding feed_ok_def by (metis fst_conv snd_conv)+
  let ?fl = "heap_part (queries ! qi) (scan_heaps st ! qi) (external_part ext)"
  have "justified (queries ! qi) (handed qi) (scan_heaps st ! qi) ?fl"
    using J(2) by (intro justified_heap_part justified_external_part)
  moreover have "\<exists>f. st' = (bump qi f (st\<lparr>scan_env := e\<rparr>))\<lparr>query_floors := (query_floors st)[qi := ?fl]\<rparr>"
    "kf' = f32_min kf ?fl" "gk' = max gk (bq_k (queries ! qi))" "any' = (any \<or> bq_keep_ties (queries ! qi))"
    using assms(4) by (auto simp: adopt_floor_def ext Let_def)
  ultimately show ?thesis
    using assms(3) J(1) by (auto simp: same_scan_def)
qed

lemma adopt_floors_correct:
  assumes "feed_ok cl J handed reached" "J (scan_env st)" "\<forall>qi \<in> set qs. qi < length (query_floors st)"
    and "distinct qs" "\<not> is_nan kf"
    and "fold (adopt_floor queries cl) qs (st, kf, gk, any) = (st', kf', gk', any')"
  shows "same_scan st st' \<and> J (scan_env st') \<and>
    (\<forall>j. j \<notin> set qs \<longrightarrow> query_floors st' ! j = query_floors st ! j) \<and>
    (\<forall>qi \<in> set qs. justified (queries ! qi) (handed qi) (scan_heaps st ! qi) (query_floors st' ! qi)
       \<and> f32_key kf' \<le> f32_key (query_floors st' ! qi) \<and> bq_k (queries ! qi) \<le> gk'
       \<and> (bq_keep_ties (queries ! qi) \<longrightarrow> any')) \<and>
    \<not> is_nan kf' \<and> f32_key kf' \<le> f32_key kf \<and> gk \<le> gk' \<and> (any \<longrightarrow> any')"
  using assms
proof (induction qs arbitrary: st kf gk any)
  case (Cons qi qs)
  obtain st1 kf1 gk1 any1 where s1: "adopt_floor queries cl qi (st, kf, gk, any) = (st1, kf1, gk1, any1)"
    by (metis prod_cases4)
  note a = adopt_floor_correct [OF Cons.prems(1,2) _ s1]
  have a: "same_scan st st1" "J (scan_env st1)" "\<And>j. j \<noteq> qi \<Longrightarrow> query_floors st1 ! j = query_floors st ! j"
    "justified (queries ! qi) (handed qi) (scan_heaps st ! qi) (query_floors st1 ! qi)"
    "kf1 = f32_min kf (query_floors st1 ! qi)" "gk1 = max gk (bq_k (queries ! qi))"
    "any1 = (any \<or> bq_keep_ties (queries ! qi))"
    using a Cons.prems(3) by auto
  have fl: "\<not> is_nan (query_floors st1 ! qi)" using a(4) by (simp add: justified_def)
  have kf1: "\<not> is_nan kf1" "f32_key kf1 = min (f32_key kf) (f32_key (query_floors st1 ! qi))"
    using fl Cons.prems(5) by (simp_all add: a(5) f32_min_key)
  have rest: "fold (adopt_floor queries cl) qs (st1, kf1, gk1, any1) = (st', kf', gk', any')"
    using Cons.prems(6) s1 by simp
  note IH = Cons.IH [OF Cons.prems(1) a(2) _ _ kf1(1) rest]
  show ?case
    using IH Cons.prems(3,4) a kf1 by (auto simp: same_scan_def)
qed (auto simp: same_scan_def)

section \<open>One query of one kernel call\<close>

lemma chunk_hit_eta: "\<lparr>slot = slot h, score = score h\<rparr> = h"
  by (rule chunk_hit.equality) simp_all

lemma row_hits_mset:
  assumes "mset (real_entries ss is) = mset (map (\<lambda>h. (score h, uint (slot h))) T)"
  shows "mset (row_hits fl ss is) = mset (filter (\<lambda>h. \<not> f32_lt (score h) fl) T)"
proof -
  let ?conv = "\<lambda>(s, i). \<lparr>slot = word_of_int i, score = s\<rparr>"
  have "row_hits fl ss is = map ?conv (filter (\<lambda>(s, i). \<not> f32_lt s fl) (real_entries ss is))"
    by (auto simp: row_hits_def real_entries_def split_def not_less conj_commute
        intro!: arg_cong [where f = "map _"] filter_cong)
  then have "mset (row_hits fl ss is) = image_mset ?conv (filter_mset (\<lambda>(s, i). \<not> f32_lt s fl) (mset (real_entries ss is)))"
    by simp
  also have "\<dots> = image_mset ?conv (filter_mset (\<lambda>(s, i). \<not> f32_lt s fl) (mset (map (\<lambda>h. (score h, uint (slot h))) T)))"
    by (simp only: assms)
  also have "\<dots> = mset (filter (\<lambda>h. \<not> f32_lt (score h) fl) T)"
    by (simp add: filter_mset_image_mset image_mset.compositionality o_def chunk_hit_eta)
  finally show ?thesis .
qed

lemma query_inv_zero:
  assumes "query_inv sc q floors r heap" "bq_k q = 0"
  shows "heap = [] \<and> query_inv sc q floors r' heap"
proof -
  have b: "beats t 0 xs x" for t xs x by (simp add: chunk_cut.beats_def)
  then have "survivors t 0 xs = []" for t xs by (simp add: chunk_cut.survivors_def)
  then show ?thesis using assms b by (auto simp: query_inv_def)
qed

lemma kth_attained:
  assumes inv: "query_inv sc q floors r heap" and nan: "\<forall>v i. \<not> is_nan (sc v i)"
    and r: "r \<le> n" "n \<le> 4294967296" and k: "0 < bq_k q" "bq_k q \<le> length heap"
  shows "attained sc q n (score (heap ! (bq_k q - 1)))"
proof -
  let ?b = "heap ! (bq_k q - 1)" and ?f = "slot_score (sc (bq_vector q))" and ?k = "bq_k q"
  have ok: "chunk_rank.all_ok ?f (rows sc q 0 n)" using r nan by (intro rows_ok)
  have R: "rows sc q 0 n = rows sc q 0 r @ rows sc q r n" using r by (intro rows_append) simp_all
  have sub: "set heap \<subseteq> set (rows sc q 0 n)" using inv R by (auto simp: query_inv_def)
  have okh: "chunk_rank.all_ok ?f heap" using chunk_rank.all_ok_mono [OF ok sub] .
  have sorted: "sorted_wrt chunk_rank.le heap"
    using chunk_cut.sorted_survivors [OF okh, of "bq_keep_ties q" ?k] inv by (simp add: query_inv_def)
  have okn: "i < length heap \<Longrightarrow> hit_ok ?f (heap ! i)" for i using okh by (simp add: chunk_rank.all_ok_def)
  have okb: "hit_ok ?f ?b" using okn [of "?k - 1"] k by simp
  then have nb: "\<not> is_nan (score ?b)" unfolding hit_ok_def by blast
  have "\<not> f32_lt (score y) (score ?b)" if y: "y \<in> set (take ?k heap)" for y
  proof -
    obtain i where i: "i < ?k" "y = heap ! i" using y by (auto simp: in_set_conv_nth)
    have "chunk_rank.le y ?b"
      using i sorted_wrt_nth_less [OF sorted, of i "?k - 1"] k chunk_rank.le_refl [OF okn [of i]]
      by (cases "i = ?k - 1") auto
    then show ?thesis
      using chunk_le [OF okn [of i] okb] i k by (auto simp: chunk_key_def f32_lt_def)
  qed
  then have "length (filter (\<lambda>h. \<not> f32_lt (score h) (score ?b)) (take ?k heap)) = ?k"
    using k by (subst filter_True) auto
  moreover have "mset (take ?k heap) \<subseteq># mset (rows sc q 0 n)"
    using inv sub by (intro distinct_mset_subset) (auto simp: query_inv_def dest: in_set_takeD)
  then have "length (filter (\<lambda>h. \<not> f32_lt (score h) (score ?b)) (take ?k heap))
      \<le> length (filter (\<lambda>h. \<not> f32_lt (score h) (score ?b)) (rows sc q 0 n))"
    by (metis multiset_filter_mono mset_filter size_mset size_mset_mono)
  ultimately show ?thesis
    using nb by (simp add: attained_def)
qed

lemma merge_query_correct:
  assumes feed: "feed_ok cl J handed (reached_by sc queries n)" and J: "J (scan_env st)"
    and q: "q = queries ! qi" "qi < length (scan_heaps st)" and nq: "length (scan_heaps st) = length queries"
    and inv: "query_inv sc q (handed qi) start (scan_heaps st ! qi)"
    and nan: "\<forall>v i. \<not> is_nan (sc v i)" and range: "start \<le> stop" "stop \<le> n" "n \<le> 4294967296"
    and fl: "justified q (handed qi) (scan_heaps st ! qi) (query_floors st ! qi)"
    and kf: "\<not> is_nan kf" "f32_key kf \<le> f32_key (query_floors st ! qi)"
    and ck: "bq_k q \<le> ck" "bq_keep_ties q \<Longrightarrow> n \<le> ck"
    and row: "scores_for_query results lq = Some ss" "slots_for_query results lq = Some is"
      "mset (real_entries ss is) = mset (map (\<lambda>h. (score h, uint (slot h)))
         (take ck (sort_by cmp_chunk (filter (\<lambda>h. \<not> f32_lt (score h) kf) (rows sc q start stop)))))"
  shows "\<exists>st' heap. merge_query queries cl results pass (lq, qi) st = Some st' \<and> J (scan_env st') \<and>
    scan_mask st' = scan_mask st \<and> query_floors st' = query_floors st \<and>
    length (scan_out st') = length (scan_out st) \<and>
    scan_heaps st' = (scan_heaps st)[qi := heap] \<and> query_inv sc q (handed qi) stop heap"
proof (cases "bq_k q = 0")
  case True
  moreover have "query_inv sc q (handed qi) stop (scan_heaps st ! qi)"
    using query_inv_zero [OF inv True] by blast
  moreover have "scan_heaps st = (scan_heaps st)[qi := scan_heaps st ! qi]" by simp
  ultimately show ?thesis
    using J q by (simp add: merge_query_def Let_def del: list_update_id) (metis list_update_id)
next
  case False
  let ?T = "take ck (sort_by cmp_chunk (filter (\<lambda>h. \<not> f32_lt (score h) kf) (rows sc q start stop)))"
  let ?hits = "row_hits (query_floors st ! qi) ss is"
  have m: "mset ?hits = mset (filter (\<lambda>h. \<not> f32_lt (score h) (query_floors st ! qi)) ?T)"
    using row(3) by (rule row_hits_mset)
  have set: "set ?hits = {h \<in> set ?T. \<not> f32_lt (score h) (query_floors st ! qi)}"
    using mset_eq_setD [OF m] by auto
  have "distinct ?T" using distinct_rows [of stop sc q start] range by simp
  then have dist: "distinct ?hits" using mset_eq_imp_distinct_iff [OF m] distinct_filter by blast
  have len: "length (rows sc q start stop) \<le> n"
    using range length_filter_le [of "allowed q" "[start..<stop]"] by (simp add: rows_def)
  then have ties: "bq_keep_ties q \<Longrightarrow> length (rows sc q start stop) \<le> ck" using ck(2) by simp
  obtain heap where heap: "merge_chunk_hits (scan_heaps st ! qi) ?hits (bq_k q) (bq_keep_ties q) = Some heap"
    "query_inv sc q (handed qi) stop heap"
    using merge_query_inv [OF inv _ nan range(1) _ fl kf ck(1) ties set dist] False range by auto
  show ?thesis
  proof (cases "bq_k q \<le> length heap")
    case True
    let ?b = "heap ! (bq_k q - 1)"
    have "reached_by sc queries n qi (score ?b)"
      using kth_attained [OF heap(2) nan range(2,3)] True False q nq by (simp add: reached_by_def)
    then have Jp: "J e \<Longrightarrow> J (snd (publish_floor cl qi (score ?b) e))" for e
      using feed unfolding feed_ok_def by blast
    obtain sent e where p: "publish_floor cl qi (score ?b) (scan_env st) = (sent, e)" by force
    then have "J e" using Jp [OF J] by simp
    then show ?thesis
      using False q row heap True p
      by (auto simp: merge_query_def Let_def kth_def nth_opt_def)
  next
    case short: False
    then show ?thesis
      using False q row heap J by (auto simp: merge_query_def Let_def)
  qed
qed

section \<open>One group of queries\<close>

definition kernel_row ::
  "(f32 list \<Rightarrow> nat \<Rightarrow> f32) \<Rightarrow> search_results \<Rightarrow> nat \<Rightarrow> f32 \<Rightarrow> nat \<Rightarrow> nat \<Rightarrow> nat \<Rightarrow> batch_query \<Rightarrow> bool" where
  "kernel_row sc results lq kf ck start stop q \<longleftrightarrow>
     (\<exists>ss is. scores_for_query results lq = Some ss \<and> slots_for_query results lq = Some is \<and>
        mset (real_entries ss is) = mset (map (\<lambda>h. (score h, uint (slot h)))
          (take ck (sort_by cmp_chunk (filter (\<lambda>h. \<not> f32_lt (score h) kf) (rows sc q start stop))))))"

lemma merge_queries_correct:
  assumes feed: "feed_ok cl J handed (reached_by sc queries n)"
    and nan: "\<forall>v i. \<not> is_nan (sc v i)" and range: "start \<le> stop" "stop \<le> n" "n \<le> 4294967296"
    and kf: "\<not> is_nan kf"
  shows "\<lbrakk>J (scan_env st); distinct qs; \<forall>qi \<in> set qs. qi < length (scan_heaps st) \<and>
      query_inv sc (queries ! qi) (handed qi) start (scan_heaps st ! qi) \<and>
      justified (queries ! qi) (handed qi) (scan_heaps st ! qi) (query_floors st ! qi) \<and>
      f32_key kf \<le> f32_key (query_floors st ! qi) \<and> bq_k (queries ! qi) \<le> ck \<and>
      (bq_keep_ties (queries ! qi) \<longrightarrow> n \<le> ck);
    \<forall>i < length qs. kernel_row sc results (j + i) kf ck start stop (queries ! (qs ! i));
    length (scan_heaps st) = length queries\<rbrakk> \<Longrightarrow>
    \<exists>st'. fold_opt (merge_query queries cl results pass) (List.enumerate j qs) st = Some st' \<and>
      J (scan_env st') \<and> scan_mask st' = scan_mask st \<and> length (query_floors st') = length (query_floors st) \<and>
      length (scan_out st') = length (scan_out st) \<and> length (scan_heaps st') = length (scan_heaps st) \<and>
      (\<forall>qi. (qi \<in> set qs \<longrightarrow> query_inv sc (queries ! qi) (handed qi) stop (scan_heaps st' ! qi)) \<and>
            (qi \<notin> set qs \<longrightarrow> scan_heaps st' ! qi = scan_heaps st ! qi))"
proof (induction qs arbitrary: j st)
  case (Cons qi qs)
  have row: "kernel_row sc results j kf ck start stop (queries ! qi)"
    using Cons.prems(4) [rule_format, of 0] by simp
  obtain ss "is" where row: "scores_for_query results j = Some ss" "slots_for_query results j = Some is"
      "mset (real_entries ss is) = mset (map (\<lambda>h. (score h, uint (slot h)))
         (take ck (sort_by cmp_chunk (filter (\<lambda>h. \<not> f32_lt (score h) kf) (rows sc (queries ! qi) start stop)))))"
    using row unfolding kernel_row_def by blast
  have p: "qi < length (scan_heaps st)" "query_inv sc (queries ! qi) (handed qi) start (scan_heaps st ! qi)"
    "justified (queries ! qi) (handed qi) (scan_heaps st ! qi) (query_floors st ! qi)"
    "f32_key kf \<le> f32_key (query_floors st ! qi)" "bq_k (queries ! qi) \<le> ck"
    "bq_keep_ties (queries ! qi) \<Longrightarrow> n \<le> ck"
    using Cons.prems(3) by auto
  obtain st1 heap where s1: "merge_query queries cl results pass (j, qi) st = Some st1" "J (scan_env st1)"
    "scan_mask st1 = scan_mask st" "query_floors st1 = query_floors st"
    "length (scan_out st1) = length (scan_out st)" "scan_heaps st1 = (scan_heaps st)[qi := heap]"
    "query_inv sc (queries ! qi) (handed qi) stop heap"
    using merge_query_correct [OF feed Cons.prems(1) refl p(1) Cons.prems(5) p(2) nan range p(3) kf p(4,5,6) row] by blast
  have other: "qi' \<in> set qs \<Longrightarrow> scan_heaps st1 ! qi' = scan_heaps st ! qi'" for qi'
    using Cons.prems(2) s1(6) by (cases "qi' = qi") auto
  have "\<exists>st'. fold_opt (merge_query queries cl results pass) (List.enumerate (Suc j) qs) st1 = Some st' \<and>
      J (scan_env st') \<and> scan_mask st' = scan_mask st1 \<and> length (query_floors st') = length (query_floors st1) \<and>
      length (scan_out st') = length (scan_out st1) \<and> length (scan_heaps st') = length (scan_heaps st1) \<and>
      (\<forall>qi. (qi \<in> set qs \<longrightarrow> query_inv sc (queries ! qi) (handed qi) stop (scan_heaps st' ! qi)) \<and>
            (qi \<notin> set qs \<longrightarrow> scan_heaps st' ! qi = scan_heaps st1 ! qi))"
  proof (rule Cons.IH)
    show "\<forall>i < length qs. kernel_row sc results (Suc j + i) kf ck start stop (queries ! (qs ! i))"
      using Cons.prems(4) by (metis add_Suc_shift length_Cons nth_Cons_Suc Suc_less_eq)
  qed (use Cons.prems s1 other in auto)
  then obtain st' where st': "fold_opt (merge_query queries cl results pass) (List.enumerate (Suc j) qs) st1 = Some st'"
    "J (scan_env st')" "scan_mask st' = scan_mask st" "length (query_floors st') = length (query_floors st)"
    "length (scan_out st') = length (scan_out st)" "length (scan_heaps st') = length (scan_heaps st)"
    "\<forall>qi. (qi \<in> set qs \<longrightarrow> query_inv sc (queries ! qi) (handed qi) stop (scan_heaps st' ! qi)) \<and>
            (qi \<notin> set qs \<longrightarrow> scan_heaps st' ! qi = scan_heaps st1 ! qi)"
    using s1 by auto
  have fin: "(qi' \<in> set (qi # qs) \<longrightarrow> query_inv sc (queries ! qi') (handed qi') stop (scan_heaps st' ! qi')) \<and>
            (qi' \<notin> set (qi # qs) \<longrightarrow> scan_heaps st' ! qi' = scan_heaps st ! qi')" for qi'
    using st'(7) [rule_format, of qi'] s1(6,7) p(1) by (cases "qi' = qi") (auto split: if_splits)
  have "fold_opt (merge_query queries cl results pass) (List.enumerate j (qi # qs)) st = Some st'"
    using s1(1) st'(1) by simp
  then show ?case using st'(2-6) fin by blast
qed simp

section \<open>The masked kernel call\<close>

lemma mask_write_nth:
  assumes "start + length vs \<le> length m" "i < length m"
  shows "mask_write start vs m ! i = (if start \<le> i \<and> i < start + length vs then vs ! (i - start) else m ! i)"
  using assms by (auto simp: mask_write_def nth_append)

lemma length_mask_write [simp]: "start + length vs \<le> length m \<Longrightarrow> length (mask_write start vs m) = length m"
  by (simp add: mask_write_def)

lemma eligible_window:
  assumes "start \<le> stop" "stop \<le> n" "length window = stop - start"
    and "\<And>i. start \<le> i \<Longrightarrow> i < stop \<Longrightarrow> window ! (i - start) = allowed q i"
  shows "eligible (sc (bq_vector q)) (mask_write start window (replicate n False)) kf
    = filter (\<lambda>h. \<not> f32_lt (score h) kf) (rows sc q start stop)"
proof -
  let ?m = "mask_write start window (replicate n False)"
  have len: "length ?m = n" using assms by simp
  have split: "[0..<n] = [0..<start] @ [start..<stop] @ [stop..<n]"
    using assms upt_split [of 0 start n] upt_split [of start stop n] by simp
  have "filter (\<lambda>i. ?m ! i) [0..<n] = filter (\<lambda>i. start \<le> i \<and> i < stop \<and> allowed q i) [0..<n]"
    using assms by (intro filter_cong) (auto simp: mask_write_nth)
  also have "\<dots> = filter (allowed q) [start..<stop]"
    unfolding split by (simp add: filter_empty_conv) (auto intro!: filter_cong)
  finally show ?thesis by (simp add: eligible_def rows_def len)
qed

lemma mask_restored:
  assumes "start \<le> stop" "stop \<le> n" "length window = stop - start"
  shows "mask_write start (replicate (stop - start) False) (mask_write start window (replicate n False)) = replicate n False"
  using assms by (auto simp: mask_write_nth intro!: nth_equalityI split: if_splits)

section \<open>A group, a chunk, the scan\<close>

text \<open>The state between two kernel calls; \<open>r qi\<close> rows of query \<open>qi\<close> are scanned.\<close>

definition scan_inv ::
  "(f32 list \<Rightarrow> nat \<Rightarrow> f32) \<Rightarrow> nat \<Rightarrow> batch_query list \<Rightarrow> ('e \<Rightarrow> bool) \<Rightarrow> (nat \<Rightarrow> f32 \<Rightarrow> bool)
   \<Rightarrow> (nat \<Rightarrow> nat) \<Rightarrow> 'e scan \<Rightarrow> bool" where
  "scan_inv sc n queries J handed r st \<longleftrightarrow>
     J (scan_env st) \<and> scan_mask st = replicate n False \<and>
     length (scan_heaps st) = length queries \<and> length (query_floors st) = length queries \<and>
     length (scan_out st) = length queries \<and>
     (\<forall>qi < length queries. query_inv sc (queries ! qi) (handed qi) (r qi) (scan_heaps st ! qi))"

text \<open>The static conditions on a batch.\<close>

definition batch_ok :: "vector_index \<Rightarrow> batch_query list \<Rightarrow> bool" where
  "batch_ok idx queries \<longleftrightarrow> index_len idx \<le> 2 ^ 32 \<and>
     (\<forall>q \<in> set queries. dim_opt idx = Some (length (bq_vector q)) \<and> bq_k q \<le> usize_max \<and>
        (\<forall>p a. bq_allow q = Some (p, a) \<longrightarrow> length a = index_len idx)) \<and>
     (\<forall>q \<in> set queries. \<forall>q' \<in> set queries. allow_key q = allow_key q' \<longrightarrow> bq_allow q = bq_allow q')"

definition group_ok :: "batch_query list \<Rightarrow> nat list \<Rightarrow> bool" where
  "group_ok queries grp \<longleftrightarrow> grp \<noteq> [] \<and> distinct grp \<and> (\<forall>qi \<in> set grp. qi < length queries) \<and>
     (\<forall>qi \<in> set grp. \<forall>qj \<in> set grp. bq_allow (queries ! qi) = bq_allow (queries ! qj))"

lemma masked_rows_total:
  "start \<le> stop \<Longrightarrow> stop \<le> length allow \<Longrightarrow> \<exists>r. masked_rows_from allow start stop acc = Some r"
proof (induction allow start stop acc rule: masked_rows_from.induct)
  case (1 allow block_start stop rows)
  then show ?case
    by (subst masked_rows_from.simps) (auto simp: Let_def slice_opt_def min_def split: option.splits)
qed

lemma query_inv_skip:
  assumes "query_inv sc q floors start heap" "\<And>i. start \<le> i \<Longrightarrow> i < stop \<Longrightarrow> \<not> allowed q i" "start \<le> stop"
  shows "query_inv sc q floors stop heap"
proof -
  have "rows sc q 0 stop = rows sc q 0 start @ rows sc q start stop"
    using assms(3) by (intro rows_append) simp_all
  moreover have "rows sc q start stop = []"
    using assms(2) by (auto simp: rows_def filter_empty_conv)
  ultimately show ?thesis using assms(1) by (simp add: query_inv_def)
qed

lemma scan_group_call:
  assumes kernel: "exhaustive_kernel idx sc" and batch: "batch_ok idx queries"
    and feed: "feed_ok cl J handed (reached_by sc queries (index_len idx))"
    and grp: "group_ok queries grp" and range: "start \<le> stop" "stop \<le> index_len idx"
    and inv: "scan_inv sc (index_len idx) queries J handed r st" and r: "\<forall>qi \<in> set grp. r qi = start"
    and fl: "\<forall>qi \<in> set grp. justified (queries ! qi) (handed qi) (scan_heaps st ! qi) (query_floors st ! qi) \<and>
      f32_key kf \<le> f32_key (query_floors st ! qi) \<and> bq_k (queries ! qi) \<le> ck \<and>
      (bq_keep_ties (queries ! qi) \<longrightarrow> index_len idx \<le> ck)" and kf: "\<not> is_nan kf"
    and window: "length window = stop - start"
      "\<And>qi i. qi \<in> set grp \<Longrightarrow> start \<le> i \<Longrightarrow> i < stop \<Longrightarrow> window ! (i - start) = allowed (queries ! qi) i"
  shows "\<exists>results. search_with_options idx (concat (map (\<lambda>qi. bq_vector (queries ! qi)) grp)) ck
      \<lparr>opt_allow = Some (mask_write start window (scan_mask st)), opt_minimum_score = Some kf\<rparr> = Some results \<and>
    (\<forall>e pass. J e \<longrightarrow> (\<exists>st'. fold_opt (merge_query queries cl results pass) (List.enumerate 0 grp)
        (st\<lparr>scan_env := e, scan_mask := mask_write start (replicate (stop - start) False)
              (mask_write start window (scan_mask st))\<rparr>) = Some st' \<and>
      scan_inv sc (index_len idx) queries J handed (\<lambda>qi. if qi \<in> set grp then stop else r qi) st'))"
proof -
  let ?n = "index_len idx"
  let ?vs = "map (\<lambda>qi. bq_vector (queries ! qi)) grp"
  let ?m = "mask_write start window (replicate ?n False)"
  have nan: "\<forall>v i. \<not> is_nan (sc v i)" and n: "?n \<le> 4294967296"
    using kernel batch by (auto simp: exhaustive_kernel_def batch_ok_def)
  have qs: "qi \<in> set grp \<Longrightarrow> queries ! qi \<in> set queries" for qi using grp by (auto simp: group_ok_def)
  have msk: "scan_mask st = replicate ?n False" using inv by (simp add: scan_inv_def)
  have "?vs \<noteq> [] \<and> (\<forall>v \<in> set ?vs. dim_opt idx = Some (length v)) \<and> length ?m = ?n \<and> \<not> is_nan kf"
    using grp batch qs kf window(1) range by (auto simp: group_ok_def batch_ok_def)
  then obtain results where res: "engine_search idx (concat ?vs) ck \<lparr>opt_allow = Some ?m, opt_minimum_score = Some kf\<rparr> = Inr results"
    "\<And>j. j < length ?vs \<Longrightarrow> \<exists>ss is. scores_for_query results j = Some ss \<and> slots_for_query results j = Some is \<and>
       mset (real_entries ss is) = mset (map (\<lambda>h. (score h, uint (slot h))) (take ck (sort_by cmp_chunk (eligible (sc (?vs ! j)) ?m kf))))"
    using kernel unfolding exhaustive_kernel_def by blast
  have row: "kernel_row sc results i kf ck start stop (queries ! (grp ! i))" if "i < length grp" for i
    using res(2) [of i] that eligible_window [OF range window(1,2), of "grp ! i" sc kf]
    by (simp add: kernel_row_def)
  have per: "\<forall>qi \<in> set grp. qi < length (scan_heaps st) \<and>
      query_inv sc (queries ! qi) (handed qi) start (scan_heaps st ! qi) \<and>
      justified (queries ! qi) (handed qi) (scan_heaps st ! qi) (query_floors st ! qi) \<and>
      f32_key kf \<le> f32_key (query_floors st ! qi) \<and> bq_k (queries ! qi) \<le> ck \<and>
      (bq_keep_ties (queries ! qi) \<longrightarrow> ?n \<le> ck)"
    using inv r fl grp unfolding scan_inv_def group_ok_def by (metis (no_types, lifting))
  have "\<exists>st'. fold_opt (merge_query queries cl results pass) (List.enumerate 0 grp)
        (st\<lparr>scan_env := e, scan_mask := replicate ?n False\<rparr>) = Some st' \<and>
      scan_inv sc ?n queries J handed (\<lambda>qi. if qi \<in> set grp then stop else r qi) st'" if "J e" for e pass
  proof -
    let ?st = "st\<lparr>scan_env := e, scan_mask := replicate ?n False\<rparr>"
    have J: "J (scan_env ?st)" using that by simp
    have dist: "distinct grp" using grp by (simp add: group_ok_def)
    have per': "\<forall>qi \<in> set grp. qi < length (scan_heaps ?st) \<and>
      query_inv sc (queries ! qi) (handed qi) start (scan_heaps ?st ! qi) \<and>
      justified (queries ! qi) (handed qi) (scan_heaps ?st ! qi) (query_floors ?st ! qi) \<and>
      f32_key kf \<le> f32_key (query_floors ?st ! qi) \<and> bq_k (queries ! qi) \<le> ck \<and>
      (bq_keep_ties (queries ! qi) \<longrightarrow> ?n \<le> ck)"
      using per by simp
    have rows: "\<forall>i < length grp. kernel_row sc results (0 + i) kf ck start stop (queries ! (grp ! i))"
      using row by simp
    have nq: "length (scan_heaps ?st) = length queries" using inv by (simp add: scan_inv_def)
    have "\<exists>st'. fold_opt (merge_query queries cl results pass) (List.enumerate 0 grp)
        (st\<lparr>scan_env := e, scan_mask := replicate ?n False\<rparr>) = Some st' \<and>
      J (scan_env st') \<and> scan_mask st' = replicate ?n False \<and> length (query_floors st') = length (query_floors st) \<and>
      length (scan_out st') = length (scan_out st) \<and> length (scan_heaps st') = length (scan_heaps st) \<and>
      (\<forall>qi. (qi \<in> set grp \<longrightarrow> query_inv sc (queries ! qi) (handed qi) stop (scan_heaps st' ! qi)) \<and>
            (qi \<notin> set grp \<longrightarrow> scan_heaps st' ! qi = scan_heaps st ! qi))"
      using merge_queries_correct [OF feed nan range n kf J dist per' rows nq] by simp
    then show ?thesis using inv by (auto simp: scan_inv_def)
  qed
  moreover have "search_with_options idx (concat ?vs) ck \<lparr>opt_allow = Some ?m, opt_minimum_score = Some kf\<rparr> = Some results"
    using res(1) by (simp add: search_with_options_def)
  ultimately show ?thesis
    unfolding msk mask_restored [OF range window(1)] by blast
qed

section \<open>From groups to the scan\<close>

lemma slice_window:
  assumes "start \<le> stop" "stop \<le> length a"
  shows "slice_opt a start stop = Some (take (stop - start) (drop start a))"
    "length (take (stop - start) (drop start a)) = stop - start"
    "start \<le> i \<Longrightarrow> i < stop \<Longrightarrow> take (stop - start) (drop start a) ! (i - start) = a ! i"
  using assms by (auto simp: slice_opt_def)

lemma batch_ok_allow: "batch_ok idx queries \<Longrightarrow> q \<in> set queries \<Longrightarrow> bq_allow q = Some (p, a) \<Longrightarrow> length a = index_len idx"
  unfolding batch_ok_def by blast

lemma chunk_window_cases:
  assumes range: "start \<le> stop" "stop \<le> n" and len: "\<And>p a. bq_allow q = Some (p, a) \<Longrightarrow> length a = n"
  obtains (skip) "chunk_window (bq_allow q) start stop = Some None" "\<And>i. start \<le> i \<Longrightarrow> i < stop \<Longrightarrow> \<not> allowed q i"
  | (call) window nrows where "chunk_window (bq_allow q) start stop = Some (Some (window, nrows))"
      "length window = stop - start" "\<And>i. start \<le> i \<Longrightarrow> i < stop \<Longrightarrow> window ! (i - start) = allowed q i"
proof (cases "bq_allow q")
  case None
  then show ?thesis
    using call [of "replicate (stop - start) True" "stop - start"] by (simp add: chunk_window_def allowed_def)
next
  case (Some pa)
  obtain p al where pa: "pa = (p, al)" by force
  let ?w = "take (stop - start) (drop start al)"
  note w = slice_window [of start stop al, unfolded len [OF Some [unfolded pa]], OF range]
  have nth: "start \<le> i \<Longrightarrow> i < stop \<Longrightarrow> ?w ! (i - start) = allowed q i" for i
    using w(3) Some pa by (simp add: allowed_def)
  show ?thesis
  proof (cases "list_ex id ?w")
    case True
    obtain nrows where "masked_rows al start stop = Some nrows"
      using masked_rows_total [of start stop al 0] range len Some pa by (auto simp: masked_rows_def)
    then show ?thesis
      using call [of ?w nrows] True Some pa w nth by (simp add: chunk_window_def)
  next
    case False
    have "\<not> allowed q i" if i: "start \<le> i" "i < stop" for i
    proof -
      have "?w ! (i - start) \<in> set ?w" using w(2) i by (intro nth_mem) simp
      then show ?thesis using False nth [OF i] by (auto simp: list_ex_iff)
    qed
    then show ?thesis using skip False Some pa w(1) by (simp add: chunk_window_def)
  qed
qed

lemma scan_group_correct:
  assumes kernel: "exhaustive_kernel idx sc" and batch: "batch_ok idx queries"
    and feed: "feed_ok cl J handed (reached_by sc queries (index_len idx))"
    and grp: "group_ok queries grp" and range: "start \<le> stop" "stop \<le> index_len idx"
    and inv: "scan_inv sc (index_len idx) queries J handed r st" and r: "\<forall>qi \<in> set grp. r qi = start"
  shows "\<exists>st'. scan_group idx queries cl start stop grp st = Some st' \<and>
    scan_inv sc (index_len idx) queries J handed (\<lambda>qi. if qi \<in> set grp then stop else r qi) st'"
proof -
  let ?n = "index_len idx" and ?r = "\<lambda>qi. if qi \<in> set grp then stop else r qi"
  obtain st1 kf gk any where ad: "fold (adopt_floor queries cl) grp (st, INFINITY, 0, False) = (st1, kf, gk, any)"
    by (metis prod_cases4)
  have lt: "\<forall>qi \<in> set grp. qi < length (query_floors st)" and dist: "distinct grp" and J: "J (scan_env st)"
    using grp inv by (auto simp: group_ok_def scan_inv_def)
  note a = adopt_floors_correct [OF feed J lt dist not_nan_INFINITY ad]
  have same: "same_scan st st1" and J1: "J (scan_env st1)" and kf: "\<not> is_nan kf" using a by blast+
  have inv1: "scan_inv sc ?n queries J handed r st1"
    using inv same J1 by (simp add: scan_inv_def same_scan_def)
  define ck where "ck = (if any then usize_max else gk)"
  have qs: "qi \<in> set grp \<Longrightarrow> queries ! qi \<in> set queries" for qi using grp by (auto simp: group_ok_def)
  have n: "?n \<le> usize_max" using batch by (simp add: batch_ok_def usize_max_def)
  have fl: "\<forall>qi \<in> set grp. justified (queries ! qi) (handed qi) (scan_heaps st1 ! qi) (query_floors st1 ! qi) \<and>
      f32_key kf \<le> f32_key (query_floors st1 ! qi) \<and> bq_k (queries ! qi) \<le> ck \<and>
      (bq_keep_ties (queries ! qi) \<longrightarrow> ?n \<le> ck)"
    using a same batch qs n by (auto simp: ck_def same_scan_def batch_ok_def)
  obtain first rest where first: "grp = first # rest" using grp by (cases grp) (auto simp: group_ok_def)
  then have nth0: "nth_opt grp 0 = Some first" by simp
  have allow: "bq_allow (queries ! qi) = bq_allow (queries ! first)" if "qi \<in> set grp" for qi
    using grp that first unfolding group_ok_def by (metis list.set_intros(1))
  obtain nanos e where el: "elapsed_nanos cl (scan_env st1) = (nanos, e)" by force
  then have Je: "J (observe_pass cl p e)" for p using feed J1 unfolding feed_ok_def by (metis snd_conv)
  have len: "bq_allow (queries ! first) = Some (p, al) \<Longrightarrow> length al = ?n" for p al
    using batch_ok_allow [OF batch qs [of first]] first by simp
  have same_allowed: "allowed (queries ! qi) = allowed (queries ! first)" if "qi \<in> set grp" for qi
    using allow [OF that] by (simp add: allowed_def fun_eq_iff)
  show ?thesis
  proof (rule chunk_window_cases [OF range len])
    assume skip: "chunk_window (bq_allow (queries ! first)) start stop = Some None"
      "\<And>i. start \<le> i \<Longrightarrow> i < stop \<Longrightarrow> \<not> allowed (queries ! first) i"
    have "scan_inv sc ?n queries J handed ?r st1"
      using inv1 r query_inv_skip [OF _ _ range(1)] skip(2) same_allowed by (auto simp: scan_inv_def)
    moreover have "scan_group idx queries cl start stop grp st = Some st1"
      using skip(1) by (simp add: scan_group_def ad Let_def nth0)
    ultimately show ?thesis by blast
  next
    fix window nrows
    assume win: "chunk_window (bq_allow (queries ! first)) start stop = Some (Some (window, nrows))"
      "length window = stop - start"
      "\<And>i. start \<le> i \<Longrightarrow> i < stop \<Longrightarrow> window ! (i - start) = allowed (queries ! first) i"
    have "window ! (i - start) = allowed (queries ! qi) i" if "qi \<in> set grp" "start \<le> i" "i < stop" for qi i
      using win(3) that same_allowed by simp
    from scan_group_call [OF kernel batch feed grp range inv1 r fl kf win(2) this] Je
    show ?thesis by (auto simp: scan_group_def ad Let_def ck_def [symmetric] nth0 el win(1))
  qed
qed

lemma scan_groups_correct:
  assumes kernel: "exhaustive_kernel idx sc" and batch: "batch_ok idx queries"
    and feed: "feed_ok cl J handed (reached_by sc queries (index_len idx))"
    and range: "start \<le> stop" "stop \<le> index_len idx"
  shows "\<lbrakk>\<forall>grp \<in> set groups. group_ok queries grp; distinct (concat groups);
     scan_inv sc (index_len idx) queries J handed r st; \<forall>qi \<in> set (concat groups). r qi = start\<rbrakk> \<Longrightarrow>
    \<exists>st'. fold_opt (scan_group idx queries cl start stop) groups st = Some st' \<and>
      scan_inv sc (index_len idx) queries J handed (\<lambda>qi. if qi \<in> set (concat groups) then stop else r qi) st'"
proof (induction groups arbitrary: r st)
  case (Cons grp groups)
  obtain st1 where s1: "scan_group idx queries cl start stop grp st = Some st1"
    "scan_inv sc (index_len idx) queries J handed (\<lambda>qi. if qi \<in> set grp then stop else r qi) st1"
    using scan_group_correct [OF kernel batch feed _ range Cons.prems(3), of grp] Cons.prems by auto
  have "\<forall>qi \<in> set (concat groups). (if qi \<in> set grp then stop else r qi) = start"
    using Cons.prems by auto
  from Cons.IH [OF _ _ s1(2) this] Cons.prems obtain st' where
    st': "fold_opt (scan_group idx queries cl start stop) groups st1 = Some st'"
    "scan_inv sc (index_len idx) queries J handed
       (\<lambda>qi. if qi \<in> set (concat groups) then stop else if qi \<in> set grp then stop else r qi) st'"
    by auto
  moreover have "(\<lambda>qi. if qi \<in> set (concat groups) then stop else if qi \<in> set grp then stop else r qi)
      = (\<lambda>qi. if qi \<in> set (concat (grp # groups)) then stop else r qi)" by auto
  ultimately show ?case using s1(1) by simp
qed auto

subsection \<open>The groups partition the batch\<close>

lemma position_Some: "position P xs = Some i \<Longrightarrow> i < length xs \<and> P (xs ! i)"
  by (induction xs arbitrary: i) (auto split: if_splits)

lemma position_None: "position P xs = None \<Longrightarrow> \<not> list_ex P xs"
  by (induction xs) (auto split: if_splits)

lemma mset_concat_update:
  "i < length xss \<Longrightarrow> mset (concat (xss[i := xss ! i @ [x]])) = add_mset x (mset (concat xss))"
proof (induction xss arbitrary: i)
  case (Cons xs xss)
  then show ?case by (cases i) auto
qed simp

definition grouping :: "batch_query list \<Rightarrow> (nat \<times> nat) option list \<times> nat list list \<Rightarrow> bool" where
  "grouping qs kg \<longleftrightarrow> length (fst kg) = length (snd kg) \<and>
     mset (concat (snd kg)) = mset [0..<length qs] \<and>
     (\<forall>gi < length (snd kg). snd kg ! gi \<noteq> [] \<and>
        (\<forall>qi \<in> set (snd kg ! gi). qi < length qs \<and> allow_key (qs ! qi) = fst kg ! gi))"

lemma grouping_step:
  assumes "grouping qs kg"
  shows "grouping (qs @ [q]) (group_step (length qs, q) kg)"
proof (cases "position (\<lambda>e. e = allow_key q) (fst kg)")
  case None
  then show ?thesis
    using assms by (cases kg) (auto simp: grouping_def group_step_def nth_append less_Suc_eq)
next
  case (Some gi)
  have gi: "gi < length (snd kg)" "fst kg ! gi = allow_key q"
    using position_Some [OF Some] assms by (auto simp: grouping_def)
  show ?thesis
    using assms gi Some mset_concat_update [OF gi(1), of "length qs"]
    by (cases kg) (auto simp: grouping_def group_step_def nth_append nth_list_update intro: less_SucI)
qed

lemma grouping_fold: "grouping qs (fold group_step (List.enumerate 0 qs) ([], []))"
proof (induction qs rule: rev_induct)
  case (snoc q qs)
  then show ?case using grouping_step [OF snoc, of q] by (simp add: enumerate_append_eq)
qed (simp add: grouping_def)

lemma group_by_allow_correct:
  assumes "batch_ok idx queries"
  shows "\<forall>grp \<in> set (group_by_allow queries). group_ok queries grp" (is ?ok)
    and "distinct (concat (group_by_allow queries))" (is ?dist)
    and "set (concat (group_by_allow queries)) = {..<length queries}" (is ?all)
proof -
  let ?kg = "fold group_step (List.enumerate 0 queries) ([], [])"
  have g: "grouping queries ?kg" by (rule grouping_fold)
  have m: "mset (concat (group_by_allow queries)) = mset [0..<length queries]"
    using g by (simp add: grouping_def group_by_allow_def)
  show ?dist using mset_eq_imp_distinct_iff [OF m] by simp
  show ?all using mset_eq_setD [OF m] by auto
  have same: "allow_key q = allow_key q' \<Longrightarrow> q \<in> set queries \<Longrightarrow> q' \<in> set queries \<Longrightarrow> bq_allow q = bq_allow q'" for q q'
    using assms unfolding batch_ok_def by blast
  show ?ok
  proof
    fix grp assume "grp \<in> set (group_by_allow queries)"
    then obtain gi where gi: "gi < length (snd ?kg)" "grp = snd ?kg ! gi"
      by (auto simp: in_set_conv_nth group_by_allow_def)
    have "snd ?kg ! gi \<noteq> [] \<and> (\<forall>qi \<in> set (snd ?kg ! gi). qi < length queries \<and> allow_key (queries ! qi) = fst ?kg ! gi)"
      using g gi(1) by (simp add: grouping_def)
    then have keys: "grp \<noteq> []" "\<And>qi. qi \<in> set grp \<Longrightarrow> qi < length queries \<and> allow_key (queries ! qi) = fst ?kg ! gi"
      unfolding gi(2) by simp_all
    have "distinct grp"
      using \<open>?dist\<close> \<open>grp \<in> _\<close> by (auto simp: distinct_concat_iff)
    then show "group_ok queries grp"
      using keys same by (auto simp: group_ok_def)
  qed
qed

subsection \<open>The loop\<close>

lemma scan_inv_cong:
  "(\<And>qi. qi < length queries \<Longrightarrow> r qi = r' qi) \<Longrightarrow>
   scan_inv sc n queries J handed r st = scan_inv sc n queries J handed r' st"
  by (simp add: scan_inv_def)

lemma scan_loop_correct:
  assumes kernel: "exhaustive_kernel idx sc" and batch: "batch_ok idx queries"
    and feed: "feed_ok cl J handed (reached_by sc queries (index_len idx))"
    and groups: "groups = group_by_allow queries"
    and "start \<le> index_len idx" "scan_inv sc (index_len idx) queries J handed (\<lambda>_. start) st"
  shows "\<exists>st'. scan_loop idx queries cl groups cb start st = Some st' \<and>
    scan_inv sc (index_len idx) queries J handed (\<lambda>_. index_len idx) st'"
  using assms
proof (induction idx queries cl groups cb start st rule: scan_loop.induct)
  case (1 idx queries cl groups cb start st)
  show ?case
  proof (cases "start < index_len idx")
    case True
    define stop where "stop = min (start + max cb 1 * BLOCK_VECTORS) (index_len idx)"
    have stop: "start \<le> stop" "stop \<le> index_len idx" using True by (auto simp: stop_def)
    note g = group_by_allow_correct [OF "1.prems"(2)]
    obtain st1 where s1: "fold_opt (scan_group idx queries cl start stop) groups st = Some st1"
      "scan_inv sc (index_len idx) queries J handed (\<lambda>qi. if qi \<in> set (concat groups) then stop else start) st1"
      using scan_groups_correct [OF "1.prems"(1-3) stop, of groups "\<lambda>_. start" st] g "1.prems"(4,6) by auto
    have "scan_inv sc (index_len idx) queries J handed (\<lambda>_. stop) st1"
      using s1(2) g(3) unfolding "1.prems"(4)
      by (subst (asm) scan_inv_cong [of queries _ "\<lambda>_. stop"]) (simp_all only: lessThan_iff if_True)
    note "1.IH" [OF True stop_def s1(1) "1.prems"(1-4) stop(2) this]
    moreover have "scan_loop idx queries cl groups cb start st = scan_loop idx queries cl groups cb stop st1"
      using True s1(1) by (subst scan_loop.simps) (simp only: if_True Let_def stop_def option.case)
    ultimately show ?thesis by simp
  next
    case False
    then have "start = index_len idx" using "1.prems"(5) by simp
    then show ?thesis using "1.prems"(6) by (subst scan_loop.simps) simp
  qed
qed


section \<open>Losslessness\<close>

lemma scan_inv_init:
  assumes "J e"
  shows "scan_inv sc n queries J handed (\<lambda>_. 0)
    \<lparr>scan_env = e, scan_mask = replicate n False, scan_heaps = replicate (length queries) [],
     query_floors = replicate (length queries) NEG_INFINITY, scan_out = replicate (length queries) stats_default\<rparr>"
  using assms by (simp add: scan_inv_def query_inv_def rows_def chunk_cut.survivors_def)

lemma fold_max_zero: "fold max xs (0::nat) = 0 \<longleftrightarrow> (\<forall>x \<in> set xs. x = 0)"
proof -
  have "fold max xs a = 0 \<longleftrightarrow> a = 0 \<and> (\<forall>x \<in> set xs. x = 0)" for a :: nat
    by (induction xs arbitrary: a) (auto simp: max_def)
  then show ?thesis by simp
qed

lemma query_inv_trivial:
  assumes "n = 0 \<or> bq_k q = 0"
  shows "query_inv sc q floors n []"
  using assms by (auto simp: query_inv_def rows_def chunk_cut.survivors_def chunk_cut.beats_def)

lemma chunked_topk_batch_observed_inv:
  assumes kernel: "exhaustive_kernel idx sc" and batch: "batch_ok idx queries"
    and feed: "feed_ok cl J handed (reached_by sc queries (index_len idx))" and J: "J e"
  shows "\<exists>out e'. chunked_topk_batch_observed idx queries cb cl e = Some (out, e') \<and> J e' \<and>
    length out = length queries \<and>
    (\<forall>qi < length queries. query_inv sc (queries ! qi) (handed qi) (index_len idx) (fst (out ! qi)))"
proof (cases "index_len idx = 0 \<or> length queries = 0 \<or> fold max (map bq_k queries) 0 = 0")
  case True
  then have "\<forall>qi < length queries. query_inv sc (queries ! qi) (handed qi) (index_len idx) []"
    by (auto simp: fold_max_zero intro!: query_inv_trivial)
  then show ?thesis using True J by (auto simp: chunked_topk_batch_observed_def Let_def)
next
  case False
  let ?st = "\<lparr>scan_env = e, scan_mask = replicate (index_len idx) False, scan_heaps = replicate (length queries) [],
     query_floors = replicate (length queries) NEG_INFINITY, scan_out = replicate (length queries) stats_default\<rparr>"
  obtain st where st: "scan_loop idx queries cl (group_by_allow queries) cb 0 ?st = Some st"
    "scan_inv sc (index_len idx) queries J handed (\<lambda>_. index_len idx) st"
    using scan_loop_correct [OF kernel batch feed refl le0 scan_inv_init [of J, OF J], of cb] by blast
  have len: "\<not> list_ex (\<lambda>q. case bq_allow q of None \<Rightarrow> False | Some (_, a) \<Rightarrow> length a \<noteq> index_len idx) queries"
    using batch_ok_allow [OF batch] by (auto simp: list_ex_iff split: option.splits)
  show ?thesis
    using False len st by (auto simp: chunked_topk_batch_observed_def Let_def scan_inv_def)
qed

lemma query_inv_exact:
  assumes kernel: "\<forall>v i. \<not> is_nan (sc v i)" and n: "n \<le> 4294967296"
    and inv: "query_inv sc q (attained sc q n) n heap"
  shows "heap = top_hits (bq_keep_ties q) (bq_k q) (rows sc q 0 n)"
proof -
  let ?f = "slot_score (sc (bq_vector q))" and ?t = "bq_keep_ties q" and ?k = "bq_k q" and ?R = "rows sc q 0 n"
  have ok: "chunk_rank.all_ok ?f ?R" using kernel n by (intro rows_ok)
  have beaten: "beats ?t ?k ?R x" if "x \<in> set ?R" "attained sc q n f" "f32_lt (score x) f" for x f
  proof -
    have "outranks ?t y x" if "\<not> f32_lt (score y) f" "y \<in> set ?R" for y
      using that \<open>f32_lt (score x) f\<close> ok
      by (auto simp: outranks_def ranks_before_def f32_lt_def chunk_rank.all_ok_def hit_ok_def)
    then have "length (filter (\<lambda>y. \<not> f32_lt (score y) f) ?R) \<le> length (filter (\<lambda>y. outranks ?t y x) ?R)"
      by (rule length_filter_mono)
    then show ?thesis
      using \<open>attained sc q n f\<close> by (simp add: attained_def chunk_cut.beats_def)
  qed
  have "survivors ?t ?k ?R = heap"
    using inv beaten distinct_rows [OF n]
    by (intro chunk_cut.survivors_covering [OF ok]) (auto simp: query_inv_def)
  then show ?thesis by (simp add: survivors_top_hits)
qed

text \<open>
  C22: losslessness of the batched scan. For a backend that honours its contract and any
  environment, the scan returns a result for every query, and every admitted row that is
  missing from a query's result is outranked by \<open>k\<close> results or scores below a floor the
  environment handed to that query.
\<close>

theorem batch_scan_lossless:
  assumes "exhaustive_kernel idx sc" and "batch_ok idx queries"
    and "feed_ok cl J handed (reached_by sc queries (index_len idx))" and "J e"
  shows "\<exists>out e'. chunked_topk_batch_observed idx queries cb cl e = Some (out, e') \<and> J e' \<and>
    length out = length queries \<and>
    (\<forall>qi < length queries. let q = queries ! qi; res = fst (out ! qi) in
       distinct res \<and> set res \<subseteq> set (rows sc q 0 (index_len idx)) \<and>
       top_hits (bq_keep_ties q) (bq_k q) res = res \<and>
       (\<forall>x \<in> set (rows sc q 0 (index_len idx)) - set res.
          bq_k q \<le> length (filter (\<lambda>y. outranks (bq_keep_ties q) y x) res) \<or>
          (\<exists>f. handed qi f \<and> f32_lt (score x) f)))"
  using chunked_topk_batch_observed_inv [OF assms, of cb]
  unfolding query_inv_def survivors_top_hits chunk_cut.beats_def Let_def by simp

text \<open>
  C23: exactness. When every floor handed to a query is reached by \<open>k\<close> of its admitted rows
  (a true lower bound of its \<open>k\<close>-th best), each query of the batch gets exactly the top hits
  of its admitted rows: batching, chunk size and floors never change a result.
\<close>

theorem batch_scan_exact:
  assumes "exhaustive_kernel idx sc" and "batch_ok idx queries"
    and "feed_ok cl J (reached_by sc queries (index_len idx)) (reached_by sc queries (index_len idx))"
    and "J e"
  shows "\<exists>out e'. chunked_topk_batch_observed idx queries cb cl e = Some (out, e') \<and>
    map fst out = map (\<lambda>q. top_hits (bq_keep_ties q) (bq_k q) (rows sc q 0 (index_len idx))) queries"
proof -
  have n: "index_len idx \<le> 4294967296" using assms(2) by (simp add: batch_ok_def)
  have nan: "\<forall>v i. \<not> is_nan (sc v i)" using assms(1) by (simp add: exhaustive_kernel_def)
  obtain out e' where o: "chunked_topk_batch_observed idx queries cb cl e = Some (out, e')"
    "length out = length queries"
    "\<forall>qi < length queries. query_inv sc (queries ! qi) (reached_by sc queries (index_len idx) qi) (index_len idx) (fst (out ! qi))"
    using chunked_topk_batch_observed_inv [OF assms, of cb] by blast
  have "reached_by sc queries (index_len idx) qi = attained sc (queries ! qi) (index_len idx)" if "qi < length queries" for qi
    using that by (simp add: reached_by_def fun_eq_iff)
  then have "fst (out ! qi) = top_hits (bq_keep_ties (queries ! qi)) (bq_k (queries ! qi)) (rows sc (queries ! qi) 0 (index_len idx))"
    if "qi < length queries" for qi
    using that o(3) by (intro query_inv_exact [OF nan n]) simp
  then have "map fst out = map (\<lambda>q. top_hits (bq_keep_ties q) (bq_k q) (rows sc q 0 (index_len idx))) queries"
    using o(2) by (intro nth_equalityI) simp_all
  with o(1) show ?thesis by blast
qed

text \<open>
  C24: the solo scan returns exactly the top hits of the admitted rows, under the same
  condition on the floors.
\<close>

theorem chunked_topk_exact:
  fixes allow query k keep_ties
  defines "q \<equiv> \<lparr>bq_vector = query, bq_k = k, bq_keep_ties = keep_ties, bq_allow = allow\<rparr>"
  assumes "exhaustive_kernel idx sc" and "batch_ok idx [q]"
    and "feed_ok cl J (\<lambda>_. attained sc q (index_len idx)) (\<lambda>_. attained sc q (index_len idx))" and "J e"
  shows "\<exists>stats e'. chunked_topk idx query k cb cl keep_ties allow e =
    Some ((top_hits keep_ties k (rows sc q 0 (index_len idx)), stats), e')"
proof -
  let ?n = "index_len idx"
  let ?cl = "cl\<lparr>external_floor := \<lambda>_. external_floor cl 0, publish_floor := \<lambda>_. publish_floor cl 0\<rparr>
    \<lparr>observe_pass := \<lambda>_ e. e\<rparr>"
  have n: "?n \<le> 4294967296" using assms(3) by (simp add: batch_ok_def)
  have nan: "\<forall>v i. \<not> is_nan (sc v i)" using assms(2) by (simp add: exhaustive_kernel_def)
  have "feed_ok ?cl J (\<lambda>_. attained sc q ?n) (reached_by sc [q] ?n)"
    using assms(4) by (auto simp: feed_ok_def reached_by_def)
  from chunked_topk_batch_observed_inv [OF assms(2,3) this assms(5), of cb]
  obtain out e' where o: "chunked_topk_batch_observed idx [q] cb ?cl e = Some (out, e')" "length out = 1"
    "query_inv sc q (attained sc q ?n) ?n (fst (out ! 0))" by auto
  then have "last out = (top_hits keep_ties k (rows sc q 0 ?n), snd (out ! 0))"
    using query_inv_exact [OF nan n o(3)] by (cases out) (auto simp: q_def intro: prod_eqI)
  then show ?thesis
    using o by (auto simp: chunked_topk_def chunked_topk_batch_def q_def)
qed

section \<open>A reference backend\<close>

text \<open>
  The contract is satisfiable: a backend that scores and sorts every row honours it. It is
  the backend of the witnesses.
\<close>

definition split_queries :: "nat \<Rightarrow> f32 list \<Rightarrow> f32 list list" where
  "split_queries d xs = map (\<lambda>j. take d (drop (j * d) xs)) [0..<length xs div d]"

definition padded :: "nat \<Rightarrow> 'a \<Rightarrow> 'a list \<Rightarrow> 'a list" where
  "padded n z xs = xs @ replicate (n - length xs) z"

definition reference_search ::
  "nat \<Rightarrow> nat \<Rightarrow> (f32 list \<Rightarrow> nat \<Rightarrow> f32) \<Rightarrow> f32 list \<Rightarrow> nat \<Rightarrow> search_options \<Rightarrow> string + search_results" where
  "reference_search n d sc queries k options =
     (let m = (case opt_allow options of Some m \<Rightarrow> m | None \<Rightarrow> replicate n True);
          fl = (case opt_minimum_score options of Some f \<Rightarrow> f | None \<Rightarrow> NEG_INFINITY);
          rc = min k n;
          hits = map (\<lambda>v. take k (sort_by cmp_chunk (eligible (sc v) m fl))) (split_queries d queries)
      in Inr \<lparr>res_scores = concat (map (\<lambda>hs. padded rc NEG_INFINITY (map score hs)) hits),
              res_slots = concat (map (\<lambda>hs. padded rc (- 1) (map (\<lambda>h. uint (slot h)) hs)) hits),
              res_query_count = length hits, res_result_count = rc\<rparr>)"

definition reference_index :: "nat \<Rightarrow> nat \<Rightarrow> (f32 list \<Rightarrow> nat \<Rightarrow> f32) \<Rightarrow> vector_index" where
  "reference_index n d sc = \<lparr>index_len = n, dim_opt = Some d, bits_per_dimension = Some 4,
     engine_search = reference_search n d sc\<rparr>"

lemma take_drop_concat:
  "\<forall>v \<in> set vs. length v = d \<Longrightarrow> j < length vs \<Longrightarrow> take d (drop (j * d) (concat vs)) = vs ! j"
proof (induction vs arbitrary: j)
  case (Cons v vs)
  then show ?case by (cases j) auto
qed simp

lemma length_concat_const: "\<forall>v \<in> set vs. length v = d \<Longrightarrow> length (concat vs) = length vs * d"
  by (induction vs) auto

lemma split_queries_concat:
  assumes "0 < d" "\<forall>v \<in> set vs. length v = d"
  shows "split_queries d (concat vs) = vs"
proof -
  have L: "length (concat vs) div d = length vs"
    unfolding length_concat_const [OF assms(2)] using assms(1) by simp
  have "split_queries d (concat vs) = map (\<lambda>j. take d (drop (j * d) (concat vs))) [0..<length vs]"
    unfolding split_queries_def L ..
  also have "\<dots> = map ((!) vs) [0..<length vs]"
    by (rule map_cong) (simp_all add: take_drop_concat [OF assms(2)])
  finally show ?thesis by (simp add: map_nth)
qed

lemma slice_concat_const:
  assumes "\<forall>v \<in> set vs. length v = d" "j < length vs"
  shows "slice_opt (concat vs) (j * d) ((j + 1) * d) = Some (vs ! j)"
proof -
  have "(j + 1) * d \<le> length vs * d" using assms(2) by (intro mult_right_mono) simp_all
  then have "j * d \<le> (j + 1) * d \<and> (j + 1) * d \<le> length (concat vs)"
    unfolding length_concat_const [OF assms(1)] by simp
  moreover have "(j + 1) * d - j * d = d" by simp
  ultimately show ?thesis
    using take_drop_concat [OF assms] by (simp only: slice_opt_def simp_thms if_True)
qed

lemma real_entries_padded:
  assumes "length hs \<le> rc"
  shows "real_entries (padded rc NEG_INFINITY (map score hs)) (padded rc (- 1) (map (\<lambda>h. uint (slot h)) hs))
    = map (\<lambda>h. (score h, uint (slot h))) hs"
proof -
  have "zip (padded rc NEG_INFINITY (map score hs)) (padded rc (- 1) (map (\<lambda>h. uint (slot h)) hs))
      = map (\<lambda>h. (score h, uint (slot h))) hs @ replicate (rc - length hs) (NEG_INFINITY, - 1)"
    by (simp add: padded_def zip_replicate zip_map_map zip_same_conv_map)
  then show ?thesis
    by (simp add: real_entries_def filter_id_conv filter_empty_conv)
qed

lemma reference_exhaustive:
  assumes "0 < d" "\<forall>v i. \<not> is_nan (sc v i)"
  shows "exhaustive_kernel (reference_index n d sc) sc"
proof -
  have "\<exists>r. reference_search n d sc (concat vs) k \<lparr>opt_allow = Some m, opt_minimum_score = Some fl\<rparr> = Inr r \<and>
      (\<forall>j < length vs. \<exists>ss is. scores_for_query r j = Some ss \<and> slots_for_query r j = Some is \<and>
        mset (real_entries ss is) =
        mset (map (\<lambda>h. (score h, uint (slot h))) (take k (sort_by cmp_chunk (eligible (sc (vs ! j)) m fl)))))"
    if vs: "\<forall>v \<in> set vs. length v = d" and m: "length m = n" for vs k m fl
  proof -
    let ?hits = "\<lambda>v. take k (sort_by cmp_chunk (eligible (sc v) m fl))"
    have len: "length (?hits v) \<le> min k n" for v
    proof -
      have "length (eligible (sc v) m fl) \<le> n"
        unfolding eligible_def by (rule order_trans [OF length_filter_le])
          (simp add: order_trans [OF length_filter_le] m)
      then show ?thesis by simp
    qed
    let ?s = "map (\<lambda>v. padded (min k n) NEG_INFINITY (map score (?hits v))) vs"
    let ?i = "map (\<lambda>v. padded (min k n) (- 1) (map (\<lambda>h. uint (slot h)) (?hits v))) vs"
    have l: "\<forall>x \<in> set ?s. length x = min k n" "\<forall>x \<in> set ?i. length x = min k n"
      using len by (auto simp: padded_def)
    have "slice_opt (concat ?s) (j * min k n) ((j + 1) * min k n) = Some (?s ! j)"
      "slice_opt (concat ?i) (j * min k n) ((j + 1) * min k n) = Some (?i ! j)" if "j < length vs" for j
      using slice_concat_const [OF l(1)] slice_concat_const [OF l(2)] that by simp_all
    then show ?thesis
      using real_entries_padded [OF len] split_queries_concat [OF assms(1) vs]
      by (simp add: reference_search_def Let_def scores_for_query_def slots_for_query_def o_def)
  qed
  then show ?thesis using assms by (simp add: exhaustive_kernel_def reference_index_def)
qed

text \<open>A two-row index, a query for the best row, and an environment that hands no floors.\<close>

definition two_rows :: "f32 list \<Rightarrow> nat \<Rightarrow> f32" where
  "two_rows v i = (if i = 1 then 0x40000000 else 0x3F800000)"

definition best_of_two :: batch_query where
  "best_of_two = \<lparr>bq_vector = [0x3F800000], bq_k = 1, bq_keep_ties = False, bq_allow = None\<rparr>"

definition quiet :: "unit closures" where
  "quiet = \<lparr>external_floor = \<lambda>_ e. (None, e), publish_floor = \<lambda>_ _ e. (True, e),
     observe_pass = \<lambda>_ e. e, elapsed_nanos = \<lambda>e. (0, e)\<rparr>"

lemma two_rows_kernel: "exhaustive_kernel (reference_index 2 1 two_rows) two_rows"
  by (rule reference_exhaustive) (simp_all add: two_rows_def is_nan_def magnitude_def)

lemma two_rows_batch: "batch_ok (reference_index 2 1 two_rows) [best_of_two]"
  by (simp add: batch_ok_def reference_index_def best_of_two_def usize_max_def)

lemma quiet_feed: "feed_ok quiet (\<lambda>_. True) handed reached"
  by (simp add: feed_ok_def quiet_def)

lemma best_of_two_rows:
  "rows two_rows best_of_two 0 2 = [\<lparr>slot = 0, score = 0x3F800000\<rparr>, \<lparr>slot = 1, score = 0x40000000\<rparr>]"
  by (simp add: rows_def allowed_def best_of_two_def two_rows_def hit_at_def upt_rec)

lemma best_of_two_top:
  "top_hits False 1 [\<lparr>slot = 0, score = 0x3F800000\<rparr>, \<lparr>slot = 1, score = 0x40000000\<rparr>] = [\<lparr>slot = 1, score = 0x40000000\<rparr>]"
  by (simp add: top_hits_def outranks_def f32_lt_def f32_eq_def f32_key_def is_nan_def
      sign_bit_def magnitude_def cmp_chunk_def ranks_before_def)

theorem batch_scan_lossless_witness:
  "\<exists>out e. chunked_topk_batch_observed (reference_index 2 1 two_rows) [best_of_two] 1 quiet () = Some (out, e) \<and> length out = 1"
  using batch_scan_lossless [OF two_rows_kernel two_rows_batch quiet_feed [of "\<lambda>_ _. False"] TrueI, of 1 "()"] by auto

theorem batch_scan_exact_witness:
  "\<exists>out e. chunked_topk_batch_observed (reference_index 2 1 two_rows) [best_of_two] 1 quiet () = Some (out, e) \<and>
     map fst out = [[\<lparr>slot = 1, score = 0x40000000\<rparr>]]"
  using batch_scan_exact [OF two_rows_kernel two_rows_batch quiet_feed TrueI, of 1 "()"] best_of_two_rows best_of_two_top
  by (simp add: reference_index_def best_of_two_def)

theorem chunked_topk_exact_witness:
  "\<exists>stats e. chunked_topk (reference_index 2 1 two_rows) [0x3F800000] 1 1 quiet False None () =
     Some (([\<lparr>slot = 1, score = 0x40000000\<rparr>], stats), e)"
  using chunked_topk_exact [OF two_rows_kernel two_rows_batch [unfolded best_of_two_def] quiet_feed TrueI, of 1 "()"]
    best_of_two_rows best_of_two_top
  by (simp add: reference_index_def best_of_two_def)

end
