(* ===== verification/Collapsed.thy ===== *)
theory Collapsed
  imports Scan_Correct
begin

text \<open>
  The collapse-by-parent scan (\<open>chunked_topk_collapsed\<close> of \<open>src/chunked.rs\<close>): the top \<open>k\<close>
  distinct parents of a query, each represented by its best row. The running hash map from
  parents to hits is an association list; nothing depends on its order.
\<close>

section \<open>The scan\<close>

record collapsed_hit =
  col_parent :: u64
  col_slot :: u32
  col_score :: f32

definition cmp_collapsed :: "collapsed_hit \<Rightarrow> collapsed_hit \<Rightarrow> ordering" where
  "cmp_collapsed a b =
     then_with (total_cmp (col_score b) (col_score a)) (cmp_lin (col_slot a) (col_slot b))"

record 'e collapse =
  cs_env :: 'e
  cs_stats :: scan_stats
  cs_best :: "(u64 \<times> chunk_hit) list"
  cs_floor :: f32
  cs_mask :: "bool list"

text \<open>\<open>best.entry(parent).or_insert(hit)\<close>, then the replacement by a better hit.\<close>

fun entry_best :: "u64 \<Rightarrow> chunk_hit \<Rightarrow> (u64 \<times> chunk_hit) list \<Rightarrow> (u64 \<times> chunk_hit) list" where
  "entry_best p h [] = [(p, h)]"
| "entry_best p h ((q, e) # best) =
     (if p = q then (q, if ranks_before h e then h else e) # best else (q, e) # entry_best p h best)"

text \<open>One round of the escalation loop: one masked call for at most \<open>m\<close> rows.\<close>

definition collapse_call ::
  "vector_index \<Rightarrow> 'e closures \<Rightarrow> f32 list \<Rightarrow> nat \<Rightarrow> nat \<Rightarrow> 'e collapse \<Rightarrow> (chunk_hit list \<times> 'e collapse) option" where
  "collapse_call idx cl query rows_streamed m st = do {
     let st = st\<lparr>cs_stats := (cs_stats st)\<lparr>chunk_calls := chunk_calls (cs_stats st) + 1\<rparr>\<rparr>;
     results \<leftarrow> search_with_options idx query m
       \<lparr>opt_allow = Some (cs_mask st), opt_minimum_score = Some (cs_floor st)\<rparr>;
     let (nanos, e) = elapsed_nanos cl (cs_env st);
     let st = st\<lparr>cs_env := e, cs_stats := (cs_stats st)
            \<lparr>bytes_scanned := bytes_scanned (cs_stats st) + of_nat rows_streamed * index_row_bytes idx,
             scan_nanos := scan_nanos (cs_stats st) + of_nat (min nanos (2 ^ 64 - 1))\<rparr>\<rparr>;
     scores \<leftarrow> scores_for_query results 0;
     slots \<leftarrow> slots_for_query results 0;
     Some (row_hits (cs_floor st) scores slots, st)
   }"

text \<open>
  The escalation loop: \<open>chunk_k\<close> is doubled while the call came back saturated. With
  \<open>chunk_k = 0\<close> the loop would never end, which is \<open>None\<close>; the scan starts it at \<open>k.max(1)\<close>.
\<close>

function escalate ::
  "vector_index \<Rightarrow> 'e closures \<Rightarrow> f32 list \<Rightarrow> nat \<Rightarrow> nat \<Rightarrow> nat \<Rightarrow> 'e collapse
   \<Rightarrow> (chunk_hit list \<times> 'e collapse) option" where
  "escalate idx cl query rows_streamed span chunk_k st =
     (if chunk_k = 0 then None
      else
        (case collapse_call idx cl query rows_streamed (min chunk_k span) st of
           None \<Rightarrow> None
         | Some (hits, st) \<Rightarrow>
             if length hits < min chunk_k span \<or> span \<le> chunk_k then Some (hits, st)
             else escalate idx cl query rows_streamed span (chunk_k * 2) st))"
  by auto
termination
  by (relation "measure (\<lambda>(_, _, _, _, span, chunk_k, _). span - chunk_k)") auto

definition collapse_parents :: "u64 list \<Rightarrow> chunk_hit list \<Rightarrow> (u64 \<times> chunk_hit) list \<Rightarrow> (u64 \<times> chunk_hit) list option" where
  "collapse_parents parents =
     fold_opt (\<lambda>hit best. do { p \<leftarrow> nth_opt parents (unat (slot hit)); Some (entry_best p hit best) })"

text \<open>The \<open>k\<close>-th best parent score: the new floor, the prune of the map, and the offer.\<close>

definition kth_parent_score :: "nat \<Rightarrow> (u64 \<times> chunk_hit) list \<Rightarrow> f32" where
  "kth_parent_score k best = sort_by (\<lambda>a b. total_cmp b a) (map (\<lambda>(_, h). score h) best) ! (k - 1)"

definition publish_parents :: "'e closures \<Rightarrow> nat \<Rightarrow> 'e collapse \<Rightarrow> 'e collapse" where
  "publish_parents cl k st =
     (if k \<le> length (cs_best st) then
        (let kth = kth_parent_score k (cs_best st);
             (sent, e) = publish_floor cl 0 kth (cs_env st);
             stats = (cs_stats st)\<lparr>floors_offered := floors_offered (cs_stats st) + 1\<rparr>
         in st\<lparr>cs_env := e,
              cs_floor := (if f32_lt (cs_floor st) kth then kth else cs_floor st),
              cs_best := filter (\<lambda>(_, h). f32_le kth (score h)) (cs_best st),
              cs_stats := (if sent then stats\<lparr>floors_published := floors_published stats + 1\<rparr> else stats)\<rparr>)
      else st)"

definition adopt_parent_floor :: "'e closures \<Rightarrow> 'e collapse \<Rightarrow> 'e collapse" where
  "adopt_parent_floor cl st =
     (case external_floor cl 0 (cs_env st) of (ext, e) \<Rightarrow>
        (let st = st\<lparr>cs_env := e\<rparr> in
         case ext of
           Some f \<Rightarrow>
             if \<not> is_nan f \<and> f32_lt (cs_floor st) f
             then st\<lparr>cs_floor := f,
                    cs_stats := (cs_stats st)\<lparr>floor_updates_applied := floor_updates_applied (cs_stats st) + 1\<rparr>\<rparr>
             else st
         | None \<Rightarrow> st))"

definition collapse_chunk ::
  "vector_index \<Rightarrow> 'e closures \<Rightarrow> f32 list \<Rightarrow> nat \<Rightarrow> u64 list \<Rightarrow> (nat \<times> bool list) option \<Rightarrow> nat \<Rightarrow> nat
   \<Rightarrow> 'e collapse \<Rightarrow> 'e collapse option" where
  "collapse_chunk idx cl query k parents allow start stop st = do {
     let st = adopt_parent_floor cl st;
     streamed \<leftarrow> chunk_window allow start stop;
     case streamed of
       None \<Rightarrow> Some st
     | Some (window, nrows) \<Rightarrow> do {
         let st = st\<lparr>cs_mask := mask_write start window (cs_mask st)\<rparr>;
         (hits, st) \<leftarrow> escalate idx cl query nrows (stop - start) (max k 1) st;
         let st = st\<lparr>cs_mask := mask_write start (replicate (stop - start) False) (cs_mask st),
              cs_stats := (cs_stats st)
                \<lparr>candidates_collected := candidates_collected (cs_stats st) + of_nat (length hits)\<rparr>\<rparr>;
         best \<leftarrow> collapse_parents parents hits (cs_best st);
         Some (publish_parents cl k (st\<lparr>cs_best := best\<rparr>))
       }
   }"

function collapse_loop ::
  "vector_index \<Rightarrow> 'e closures \<Rightarrow> f32 list \<Rightarrow> nat \<Rightarrow> u64 list \<Rightarrow> (nat \<times> bool list) option \<Rightarrow> nat \<Rightarrow> nat
   \<Rightarrow> 'e collapse \<Rightarrow> 'e collapse option" where
  "collapse_loop idx cl query k parents allow chunk_blocks start st =
     (if start < index_len idx then
        (let stop = min (start + max chunk_blocks 1 * BLOCK_VECTORS) (index_len idx) in
         case collapse_chunk idx cl query k parents allow start stop st of
           None \<Rightarrow> None
         | Some st \<Rightarrow> collapse_loop idx cl query k parents allow chunk_blocks stop st)
      else Some st)"
  by auto
termination
  by (relation "measure (\<lambda>(idx, _, _, _, _, _, _, start, _). index_len idx - start)") (auto simp: BLOCK_VECTORS_def)

declare collapse_loop.simps [simp del] escalate.simps [simp del]

definition collapsed_out :: "nat \<Rightarrow> (u64 \<times> chunk_hit) list \<Rightarrow> collapsed_hit list" where
  "collapsed_out k best =
     take k (sort_by cmp_collapsed
       (map (\<lambda>(p, h). \<lparr>col_parent = p, col_slot = slot h, col_score = score h\<rparr>) best))"

definition chunked_topk_collapsed ::
  "vector_index \<Rightarrow> f32 list \<Rightarrow> nat \<Rightarrow> nat \<Rightarrow> u64 list \<Rightarrow> 'e closures \<Rightarrow> (nat \<times> bool list) option \<Rightarrow> 'e
   \<Rightarrow> ((collapsed_hit list \<times> scan_stats) \<times> 'e) option" where
  "chunked_topk_collapsed idx query k chunk_blocks parents cl allow e = do {
     let n = index_len idx;
     if length parents \<noteq> n then None
     else if (case allow of None \<Rightarrow> False | Some (_, a) \<Rightarrow> length a \<noteq> n) then None
     else if n = 0 \<or> k = 0 then Some (([], stats_default), e)
     else do {
       st \<leftarrow> collapse_loop idx cl query k parents allow chunk_blocks 0
         \<lparr>cs_env = e, cs_stats = stats_default, cs_best = [], cs_floor = NEG_INFINITY,
          cs_mask = replicate n False\<rparr>;
       Some ((collapsed_out k (cs_best st), cs_stats st), cs_env st)
     }
   }"

section \<open>Specification\<close>

text \<open>The best row of each parent: the rows that no row of the same parent ranks before.\<close>

definition parent_of :: "u64 list \<Rightarrow> chunk_hit \<Rightarrow> u64" where
  "parent_of parents h = parents ! unat (slot h)"

definition leaders :: "(chunk_hit \<Rightarrow> u64) \<Rightarrow> chunk_hit list \<Rightarrow> chunk_hit list" where
  "leaders par xs = filter (\<lambda>x. list_all (\<lambda>y. par y = par x \<longrightarrow> \<not> ranks_before y x) xs) xs"

definition best_parents :: "nat \<Rightarrow> (chunk_hit \<Rightarrow> u64) \<Rightarrow> chunk_hit list \<Rightarrow> collapsed_hit list" where
  "best_parents k par xs = collapsed_out k (map (\<lambda>h. (par h, h)) (leaders par xs))"

text \<open>A floor is safe when \<open>k\<close> parents have a row that reaches it.\<close>

definition parents_reach :: "nat \<Rightarrow> (chunk_hit \<Rightarrow> u64) \<Rightarrow> chunk_hit list \<Rightarrow> f32 \<Rightarrow> bool" where
  "parents_reach k par xs f \<longleftrightarrow> \<not> is_nan f \<and> k \<le> card (par ` {x \<in> set xs. \<not> f32_lt (score x) f})"

section \<open>Leaders\<close>

lemma not_before_eq:
  "hit_ok f x \<Longrightarrow> hit_ok f y \<Longrightarrow> \<not> ranks_before x y \<Longrightarrow> \<not> ranks_before y x \<Longrightarrow> x = y"
  using chunk_rank.le_antisym [of f x y] chunk_le_not_before by blast

lemma leader_exists:
  assumes ok: "chunk_rank.all_ok f xs" and x: "x \<in> set xs"
  shows "\<exists>y \<in> set (leaders par xs). par y = par x \<and> \<not> ranks_before x y"
proof -
  let ?ys = "filter (\<lambda>y. par y = par x) xs"
  let ?s = "sort_by cmp_chunk ?ys"
  have oky: "chunk_rank.all_ok f ?ys" using ok by (auto simp: chunk_rank.all_ok_def)
  have "x \<in> set ?s" using x by simp
  then have ne: "?s \<noteq> []" by (metis empty_iff list.set(1))
  have hd: "hd ?s \<in> set xs" "par (hd ?s) = par x" using hd_in_set [OF ne] by auto
  have le: "chunk_rank.le (hd ?s) y" if "y \<in> set xs" "par y = par x" for y
  proof -
    have "y \<in> set ?s" using that by simp
    then show ?thesis
      using chunk_rank.sorted_sort_by [OF oky] ne hd ok chunk_rank.le_refl [of f "hd ?s"]
      by (cases ?s) (auto simp: chunk_rank.all_ok_def)
  qed
  have nb: "\<not> ranks_before y (hd ?s)" if "y \<in> set xs" "par y = par x" for y
    using le [OF that] that(1) hd(1) ok chunk_le_not_before [of f "hd ?s" y] by (auto simp: chunk_rank.all_ok_def)
  then have "hd ?s \<in> set (leaders par xs)" using hd by (auto simp: leaders_def list_all_iff)
  then show ?thesis using hd nb [OF x refl] by blast
qed

lemma leader_unique:
  assumes "chunk_rank.all_ok f xs" "x \<in> set (leaders par xs)" "y \<in> set (leaders par xs)" "par x = par y"
  shows "x = y"
  using assms not_before_eq [of f x y] by (auto simp: leaders_def list_all_iff chunk_rank.all_ok_def)

lemma leaders_reach:
  assumes ok: "chunk_rank.all_ok f xs" and dist: "distinct xs" and reach: "parents_reach k par xs fl"
  shows "k \<le> length (filter (\<lambda>y. \<not> f32_lt (score y) fl) (leaders par xs))"
proof -
  let ?L = "filter (\<lambda>y. \<not> f32_lt (score y) fl) (leaders par xs)"
  have "par ` {x \<in> set xs. \<not> f32_lt (score x) fl} \<subseteq> par ` set ?L"
  proof
    fix p assume "p \<in> par ` {x \<in> set xs. \<not> f32_lt (score x) fl}"
    then obtain x where x: "x \<in> set xs" "\<not> f32_lt (score x) fl" "p = par x" by blast
    obtain y where y: "y \<in> set (leaders par xs)" "par y = par x" "\<not> ranks_before x y"
      using leader_exists [OF ok x(1), of par] by blast
    have "hit_ok f x" "hit_ok f y" using x y ok by (auto simp: leaders_def chunk_rank.all_ok_def)
    then have "\<not> f32_lt (score y) fl"
      using x(2) y(3) by (auto simp: ranks_before_def f32_lt_def f32_eq_def hit_ok_def)
    then show "p \<in> par ` set ?L" using x y by (intro image_eqI [of _ _ y]) simp_all
  qed
  then have "card (par ` {x \<in> set xs. \<not> f32_lt (score x) fl}) \<le> card (par ` set ?L)"
    by (intro card_mono) auto
  also have "\<dots> \<le> card (set ?L)" by (rule card_image_le) simp
  also have "\<dots> = length ?L" using dist by (intro distinct_card) (simp add: leaders_def)
  finally show ?thesis using reach by (simp add: parents_reach_def)
qed

section \<open>The output\<close>

definition col_ok :: "(u32 \<Rightarrow> f32) \<Rightarrow> (u32 \<Rightarrow> u64) \<Rightarrow> collapsed_hit \<Rightarrow> bool" where
  "col_ok f pf c \<longleftrightarrow> \<not> is_nan (col_score c) \<and> col_score c = f (col_slot c) \<and> col_parent c = pf (col_slot c)"

definition col_key :: "collapsed_hit \<Rightarrow> int \<times> u32" where
  "col_key c = (- total_key (col_score c), col_slot c)"

interpretation col_rank: keyed_ranking "col_ok f pf" cmp_collapsed col_key for f pf
proof
  fix x y assume "col_ok f pf x" "col_ok f pf y"
  then show "cmp_collapsed x y = cmp_lin (col_key x) (col_key y)" "col_key x = col_key y \<Longrightarrow> x = y"
    by (auto simp: col_ok_def cmp_collapsed_def col_key_def cmp_lin_prod cmp_lin_uminus total_cmp_def)
qed

definition to_col :: "(chunk_hit \<Rightarrow> u64) \<Rightarrow> chunk_hit \<Rightarrow> collapsed_hit" where
  "to_col par h = \<lparr>col_parent = par h, col_slot = slot h, col_score = score h\<rparr>"

lemma to_col_inject: "to_col par h = to_col par h' \<Longrightarrow> h = h'"
  by (simp add: to_col_def chunk_hit.equality)

lemma cmp_collapsed_higher: "f32_lt (score x) (score y) \<Longrightarrow> cmp_collapsed (to_col par y) (to_col par x) = Less"
  using total_key_key [of "score x" "score y"]
  by (simp add: cmp_collapsed_def to_col_def f32_lt_def total_cmp_def)

lemma collapsed_covering:
  assumes ok: "chunk_rank.all_ok f xs" and dist: "distinct xs" and par: "\<And>x. par x = pf (slot x)"
    and keys: "distinct (map fst best)" and best: "\<And>p h. (p, h) \<in> set best \<Longrightarrow> h \<in> set xs \<and> p = par h"
    and rep: "\<And>x. x \<in> set xs \<Longrightarrow> (\<exists>h. (par x, h) \<in> set best \<and> \<not> ranks_before x h) \<or>
      (\<exists>fl. parents_reach k par xs fl \<and> f32_lt (score x) fl)"
  shows "collapsed_out k best = best_parents k par xs"
proof -
  let ?L = "leaders par xs"
  let ?S = "map (to_col par) ?L" and ?E = "map (to_col par) (map snd best)"
  let ?U = "?S @ filter (\<lambda>c. c \<notin> set ?S) ?E"
  have L: "set ?L \<subseteq> set xs" "distinct ?L" using dist by (auto simp: leaders_def)
  have B: "set (map snd best) \<subseteq> set xs" using best by auto
  have inj: "inj_on snd (set best)"
    by (rule inj_onI) (metis best prod.collapse)
  have dB: "distinct (map snd best)"
    using keys inj by (simp add: distinct_map)
  have okc: "col_ok f pf (to_col par x)" if "x \<in> set xs" for x
    using ok that par by (auto simp: chunk_rank.all_ok_def hit_ok_def col_ok_def to_col_def)
  have dS: "distinct ?S" "distinct ?E"
    using L(2) dB by (auto simp: distinct_map inj_on_def dest: to_col_inject)
  have okU: "col_rank.all_ok f pf ?U"
    using L B okc by (fastforce simp: col_rank.all_ok_def)
  have low: "col_rank.beaten k ?U (to_col par x)" if "parents_reach k par xs fl" "f32_lt (score x) fl" for x fl
  proof -
    have "f32_lt (score x) (score y)" if "y \<in> set ?L" "\<not> f32_lt (score y) fl" for y
      using that \<open>f32_lt (score x) fl\<close> ok L by (auto simp: f32_lt_def chunk_rank.all_ok_def hit_ok_def)
    then have "length (filter (\<lambda>y. \<not> f32_lt (score y) fl) ?L)
        \<le> length (filter (\<lambda>y. cmp_collapsed (to_col par y) (to_col par x) = Less) ?L)"
      by (intro length_filter_mono cmp_collapsed_higher)
    then show ?thesis
      using leaders_reach [OF ok dist that(1)] by (simp add: col_rank.beaten_def filter_map o_def)
  qed
  have uniq: "(p, h) \<in> set best \<Longrightarrow> (p, h') \<in> set best \<Longrightarrow> h = h'" for p h h'
    using keys by (metis eq_key_imp_eq_value)
  have E: "col_rank.beaten k ?U (to_col par h)" if "(p, h) \<in> set best" "h \<notin> set ?L" for p h
  proof -
    have h: "h \<in> set xs" "p = par h" using best that by auto
    obtain x where x: "x \<in> set ?L" "par x = par h" "\<not> ranks_before h x" using leader_exists [OF ok h(1)] by blast
    have okx: "hit_ok f x" "hit_ok f h" using x h L ok by (auto simp: chunk_rank.all_ok_def)
    have "ranks_before x h" using not_before_eq [OF okx] x that by auto
    then have "\<not> (\<exists>h'. (par x, h') \<in> set best \<and> \<not> ranks_before x h')"
      using uniq [OF that(1)] h(2) x(2) by auto
    then obtain fl where fl: "parents_reach k par xs fl" "f32_lt (score x) fl"
      using rep [of x] x(1) L(1) by blast
    then have "f32_lt (score h) fl" using okx \<open>ranks_before x h\<close>
      by (auto simp: ranks_before_def f32_lt_def f32_eq_def hit_ok_def)
    with fl(1) show ?thesis by (rule low)
  qed
  have S: "col_rank.beaten k ?U (to_col par x)" if "x \<in> set ?L" "to_col par x \<notin> set ?E" for x
  proof -
    have "\<not> ((par x, h) \<in> set best \<and> \<not> ranks_before x h)" for h
    proof
      assume h: "(par x, h) \<in> set best \<and> \<not> ranks_before x h"
      then have hx: "h \<in> set xs" "par h = par x" using best by auto
      then have "\<not> ranks_before h x" using that(1) by (auto simp: leaders_def list_all_iff)
      then have "h = x" using h not_before_eq [of f x h] ok hx L that(1) by (auto simp: chunk_rank.all_ok_def)
      then show False using that(2) h by force
    qed
    moreover have "x \<in> set xs" using that(1) L by auto
    ultimately obtain fl where "parents_reach k par xs fl" "f32_lt (score x) fl" using rep [of x] by blast
    then show ?thesis by (rule low)
  qed
  have "col_rank.topk k ?E = col_rank.topk k ?U"
    using S dS by (intro col_rank.topk_covering [OF okU]) auto
  also have "\<dots> = col_rank.topk k ?S"
    using E dS by (intro col_rank.topk_covering [OF okU, symmetric]) (force simp: inj_on_def dest: to_col_inject)+
  finally have "col_rank.topk k ?E = col_rank.topk k ?S" .
  moreover have e: "map (\<lambda>(p, h). \<lparr>col_parent = p, col_slot = slot h, col_score = score h\<rparr>) best = ?E"
    using best by (auto simp: to_col_def)
  moreover have s: "map (\<lambda>(p, h). \<lparr>col_parent = p, col_slot = slot h, col_score = score h\<rparr>) (map (\<lambda>h. (par h, h)) ?L) = ?S"
    by (simp add: to_col_def [abs_def] o_def)
  ultimately show ?thesis
    unfolding best_parents_def collapsed_out_def e s by (simp only: col_rank.topk_def)
qed

section \<open>One chunk\<close>

definition collapse_inv :: "nat \<Rightarrow> (chunk_hit \<Rightarrow> u64) \<Rightarrow> chunk_hit list \<Rightarrow> chunk_hit list \<Rightarrow> (u64 \<times> chunk_hit) list \<Rightarrow> bool" where
  "collapse_inv k par all scanned best \<longleftrightarrow>
     distinct (map fst best) \<and> (\<forall>(p, h) \<in> set best. h \<in> set scanned \<and> p = par h) \<and>
     (\<forall>x \<in> set scanned. (\<exists>h. (par x, h) \<in> set best \<and> \<not> ranks_before x h) \<or>
        (\<exists>fl. parents_reach k par all fl \<and> f32_lt (score x) fl))"

lemma keys_entry_best:
  "set (map fst (entry_best p h best)) = insert p (set (map fst best))"
  "distinct (map fst best) \<Longrightarrow> distinct (map fst (entry_best p h best))"
  by (induction p h best rule: entry_best.induct) auto

lemma entry_best_member:
  assumes "distinct (map fst best)"
  shows "(q, e) \<in> set (entry_best p h best) \<longleftrightarrow>
    (if q = p then (\<exists>e'. (p, e') \<in> set best \<and> e = (if ranks_before h e' then h else e')) \<or> p \<notin> fst ` set best \<and> e = h
     else (q, e) \<in> set best)"
  using assms
proof (induction p h best rule: entry_best.induct)
  case (2 p h q' e' best)
  then show ?case by (auto simp: image_iff split: if_splits) force+
qed auto

lemma collapse_parents_correct:
  assumes ok: "chunk_rank.all_ok f all" and par: "\<And>x. par x = parent_of parents x"
    and hits: "\<And>x. x \<in> set hits \<Longrightarrow> x \<in> set all \<and> unat (slot x) < length parents"
    and sub: "set scanned \<subseteq> set all"
    and inv: "collapse_inv k par all scanned best"
  shows "\<exists>best'. collapse_parents parents hits best = Some best' \<and> collapse_inv k par all (scanned @ hits) best'"
  using hits sub inv
proof (induction hits arbitrary: scanned best)
  case Nil
  then show ?case by (simp add: collapse_parents_def)
next
  case (Cons h hits)
  let ?best = "entry_best (par h) h best"
  have nth: "nth_opt parents (unat (slot h)) = Some (par h)"
    using Cons.prems(1) [of h] par by (simp add: parent_of_def)
  have okh: "hit_ok f h" using Cons.prems(1) [of h] ok by (simp add: chunk_rank.all_ok_def)
  have okb: "(p, e) \<in> set best \<Longrightarrow> hit_ok f e" for p e
    using Cons.prems(2,3) ok by (fastforce simp: collapse_inv_def chunk_rank.all_ok_def)
  have dist: "distinct (map fst best)" using Cons.prems(3) by (simp add: collapse_inv_def)
  note mem = entry_best_member [OF dist]
  have old: "(p, e) \<in> set best \<Longrightarrow> e \<in> set scanned \<and> p = par e" for p e
    using Cons.prems(3) by (auto simp: collapse_inv_def)
  have better: "\<exists>e. (p, e) \<in> set ?best \<and> \<not> ranks_before x e"
    if "(p, e) \<in> set best" "\<not> ranks_before x e" "hit_ok f x" for p e x
  proof (cases "p = par h \<and> ranks_before h e")
    case True
    then have "\<not> ranks_before x h" using that okb [OF that(1)] okh
      by (auto simp: ranks_before_key hit_ok_def)
    then show ?thesis using mem that True by auto
  next
    case False
    then show ?thesis using mem that by (intro exI [of _ e]) auto
  qed
  have self: "\<exists>e. (par h, e) \<in> set ?best \<and> \<not> ranks_before h e"
  proof (cases "par h \<in> fst ` set best")
    case True
    then obtain e where "(par h, e) \<in> set best" by force
    then show ?thesis using mem okh by (cases "ranks_before h e") (auto simp: ranks_before_key hit_ok_def)
  next
    case False
    then show ?thesis using mem okh by (intro exI [of _ h]) (auto simp: ranks_before_key hit_ok_def)
  qed
  have "collapse_inv k par all (scanned @ [h]) ?best"
    unfolding collapse_inv_def
  proof (intro conjI ballI)
    show "distinct (map fst ?best)" using keys_entry_best(2) [OF dist] .
    show "case z of (p, e) \<Rightarrow> e \<in> set (scanned @ [h]) \<and> p = par e" if "z \<in> set ?best" for z
    proof -
      obtain p e where z: "z = (p, e)" by force
      have "(p, e) \<in> set ?best" using that z by simp
      then show ?thesis
        unfolding mem z using old by (auto split: if_splits)
    qed
    show "(\<exists>e. (par x, e) \<in> set ?best \<and> \<not> ranks_before x e) \<or> (\<exists>fl. parents_reach k par all fl \<and> f32_lt (score x) fl)"
      if x: "x \<in> set (scanned @ [h])" for x
    proof (cases "x = h")
      case False
      then have xs: "x \<in> set scanned" using x by simp
      then have "hit_ok f x" using Cons.prems(2) ok by (auto simp: chunk_rank.all_ok_def)
      then show ?thesis using Cons.prems(3) xs better unfolding collapse_inv_def by blast
    qed (use self in blast)
  qed
  from Cons.IH [OF _ _ this] Cons.prems obtain best' where
    "collapse_parents parents hits ?best = Some best'" "collapse_inv k par all ((scanned @ [h]) @ hits) best'"
    by auto
  then show ?case using nth by (auto simp: collapse_parents_def)
qed

interpretation score_rank: keyed_ranking "\<lambda>_. True" "\<lambda>a b. total_cmp b a" "\<lambda>a. - total_key a"
  by unfold_locales (auto simp: total_cmp_def cmp_lin_uminus dest: total_key_inject)

lemma score_le: "score_rank.le a b \<longleftrightarrow> total_key b \<le> total_key a"
  unfolding score_rank.le_def by (simp add: total_cmp_def linorder_not_less)

lemma collapse_call_correct:
  assumes kernel: "exhaustive_kernel idx sc" and dim: "dim_opt idx = Some (length (bq_vector q))"
    and feed: "feed_ok cl J handed reached" and range: "start \<le> stop" "stop \<le> index_len idx"
    and window: "length window = stop - start"
      "\<And>i. start \<le> i \<Longrightarrow> i < stop \<Longrightarrow> window ! (i - start) = allowed q i"
    and st: "J (cs_env st)" "\<not> is_nan (cs_floor st)" "cs_mask st = mask_write start window (replicate (index_len idx) False)"
  shows "\<exists>hits st'. collapse_call idx cl (bq_vector q) nrows m st = Some (hits, st') \<and>
    mset hits = mset (take m (sort_by cmp_chunk (filter (\<lambda>h. \<not> f32_lt (score h) (cs_floor st)) (rows sc q start stop)))) \<and>
    cs_best st' = cs_best st \<and> cs_floor st' = cs_floor st \<and> cs_mask st' = cs_mask st \<and> J (cs_env st')"
proof -
  let ?E = "filter (\<lambda>h. \<not> f32_lt (score h) (cs_floor st)) (rows sc q start stop)"
  have len: "length (cs_mask st) = index_len idx" using st(3) window(1) range by simp
  have "[bq_vector q] \<noteq> []" "\<forall>v \<in> set [bq_vector q]. dim_opt idx = Some (length v)" using dim by simp_all
  note exhaustive_kernelD [OF kernel this len st(2), of m]
  then obtain r ss "is" where r: "engine_search idx (bq_vector q) m \<lparr>opt_allow = Some (cs_mask st), opt_minimum_score = Some (cs_floor st)\<rparr> = Inr r"
    "scores_for_query r 0 = Some ss" "slots_for_query r 0 = Some is"
    "mset (real_entries ss is) = mset (map (\<lambda>h. (score h, uint (slot h))) (take m (sort_by cmp_chunk ?E)))"
    using eligible_window [OF range window, of sc "cs_floor st"] st(3) by auto
  have "mset (row_hits (cs_floor st) ss is) = mset (filter (\<lambda>h. \<not> f32_lt (score h) (cs_floor st)) (take m (sort_by cmp_chunk ?E)))"
    by (rule row_hits_mset [OF r(4)])
  also have "filter (\<lambda>h. \<not> f32_lt (score h) (cs_floor st)) (take m (sort_by cmp_chunk ?E)) = take m (sort_by cmp_chunk ?E)"
    by (auto simp: filter_id_conv dest: in_set_takeD)
  finally have hits: "mset (row_hits (cs_floor st) ss is) = mset (take m (sort_by cmp_chunk ?E))" .
  obtain nanos e where e: "elapsed_nanos cl (cs_env st) = (nanos, e)" by force
  then have "J e" using feed st(1) unfolding feed_ok_def by (metis snd_conv)
  then show ?thesis
    using r hits e by (auto simp: collapse_call_def search_with_options_def Let_def)
qed

lemma escalate_correct:
  assumes kernel: "exhaustive_kernel idx sc" and dim: "dim_opt idx = Some (length (bq_vector q))"
    and feed: "feed_ok cl J handed reached" and range: "start \<le> stop" "stop \<le> index_len idx"
    and window: "length window = stop - start"
      "\<And>i. start \<le> i \<Longrightarrow> i < stop \<Longrightarrow> window ! (i - start) = allowed q i"
    and st: "J (cs_env st)" "\<not> is_nan (cs_floor st)" "cs_mask st = mask_write start window (replicate (index_len idx) False)"
    and ck: "0 < chunk_k"
  shows "\<exists>hits st'. escalate idx cl (bq_vector q) nrows (stop - start) chunk_k st = Some (hits, st') \<and>
    mset hits = mset (filter (\<lambda>h. \<not> f32_lt (score h) (cs_floor st)) (rows sc q start stop)) \<and>
    cs_best st' = cs_best st \<and> cs_floor st' = cs_floor st \<and> cs_mask st' = cs_mask st \<and> J (cs_env st')"
  using st ck
proof (induction "stop - start - chunk_k" arbitrary: chunk_k st rule: less_induct)
  case (less chunk_k st)
  let ?E = "filter (\<lambda>h. \<not> f32_lt (score h) (cs_floor st)) (rows sc q start stop)"
  let ?m = "min chunk_k (stop - start)"
  obtain hits st' where c: "collapse_call idx cl (bq_vector q) nrows ?m st = Some (hits, st')"
    "mset hits = mset (take ?m (sort_by cmp_chunk ?E))"
    "cs_best st' = cs_best st" "cs_floor st' = cs_floor st" "cs_mask st' = cs_mask st" "J (cs_env st')"
    using collapse_call_correct [OF kernel dim feed range window less.prems(1-3), of nrows ?m] by blast
  have lenE: "length ?E \<le> stop - start"
    by (rule order_trans [OF length_filter_le]) (simp add: rows_def order_trans [OF length_filter_le])
  have lenh: "length hits = min ?m (length ?E)"
    using mset_eq_length [OF c(2)] by (simp add: min.commute)
  show ?case
  proof (cases "length hits < ?m \<or> stop - start \<le> chunk_k")
    case True
    then have "length ?E \<le> ?m" using lenh lenE by auto
    then have "mset hits = mset ?E" using c(2) by simp
    then show ?thesis using True c less.prems(4) by (subst escalate.simps) simp
  next
    case False
    then have dec: "stop - start - chunk_k * 2 < stop - start - chunk_k" using less.prems(4) by auto
    obtain hits' st'' where e: "escalate idx cl (bq_vector q) nrows (stop - start) (chunk_k * 2) st' = Some (hits', st'')"
      "mset hits' = mset ?E" "cs_best st'' = cs_best st" "cs_floor st'' = cs_floor st" "cs_mask st'' = cs_mask st" "J (cs_env st'')"
      using less.hyps [OF dec, of st'] c less.prems by auto
    moreover have "escalate idx cl (bq_vector q) nrows (stop - start) chunk_k st
        = escalate idx cl (bq_vector q) nrows (stop - start) (chunk_k * 2) st'"
      using False c(1) less.prems(4) by (subst escalate.simps) auto
    ultimately show ?thesis by simp
  qed
qed


lemma kth_parent_reach:
  assumes inv: "collapse_inv k par all scanned best" and sub: "set scanned \<subseteq> set all"
    and ok: "chunk_rank.all_ok f all" and k: "0 < k" "k \<le> length best"
  defines "kt \<equiv> kth_parent_score k best"
  shows "parents_reach k par all kt"
proof -
  let ?sc = "map (\<lambda>(_, h). score h) best"
  let ?s = "sort_by (\<lambda>a b. total_cmp b a) ?sc"
  have kt_def: "kt = ?s ! (k - 1)" by (simp add: kt_def kth_parent_score_def)
  have best: "(p, h) \<in> set best \<Longrightarrow> h \<in> set all \<and> p = par h" for p h
    using inv sub by (auto simp: collapse_inv_def)
  have nan: "\<not> is_nan s" if "s \<in> set ?sc" for s
    using that best ok by (auto simp: chunk_rank.all_ok_def hit_ok_def)
  have kin: "kt \<in> set ?sc" using k by (metis kt_def diff_less length_map length_sort_by less_le_trans nth_mem set_sort_by zero_less_one)
  have "length (filter (\<lambda>s. \<not> f32_lt s kt) (take k ?s)) = k"
  proof -
    have "\<not> f32_lt s kt" if s: "s \<in> set (take k ?s)" for s
    proof -
      obtain i where i: "i < k" "s = ?s ! i" using s by (auto simp: in_set_conv_nth)
      have "total_key kt \<le> total_key s"
        using i k sorted_wrt_nth_less [OF score_rank.sorted_sort_by, of ?sc i "k - 1"]
        by (cases "i = k - 1") (auto simp: kt_def score_le score_rank.all_ok_def)
      then show ?thesis using total_key_key [of s kt] by (auto simp: f32_lt_def)
    qed
    then show ?thesis using k by (subst filter_True) auto
  qed
  moreover have "length (filter (\<lambda>s. \<not> f32_lt s kt) (take k ?s)) \<le> length (filter (\<lambda>s. \<not> f32_lt s kt) ?s)"
    by (metis append_take_drop_id filter_append le_add1 length_append)
  moreover have "length (filter (\<lambda>s. \<not> f32_lt s kt) ?s) = length (filter (\<lambda>s. \<not> f32_lt s kt) ?sc)"
    by (metis mset_filter mset_sort_by size_mset)
  moreover have "\<dots> = length (filter (\<lambda>(p, h). \<not> f32_lt (score h) kt) best)"
    by (simp add: filter_map o_def split_def)
  moreover have "\<dots> = card (fst ` set (filter (\<lambda>(p, h). \<not> f32_lt (score h) kt) best))"
  proof -
    have "distinct (map fst (filter (\<lambda>(p, h). \<not> f32_lt (score h) kt) best))"
      using inv by (simp add: collapse_inv_def distinct_map_filter)
    from distinct_card [OF this] show ?thesis by (simp only: set_map length_map)
  qed
  moreover have "card (fst ` set (filter (\<lambda>(p, h). \<not> f32_lt (score h) kt) best))
      \<le> card (par ` {x \<in> set all. \<not> f32_lt (score x) kt})"
    using best by (intro card_mono) fastforce+
  ultimately show ?thesis using nan [OF kin] by (simp add: parents_reach_def)
qed


lemma collapse_inv_extend:
  assumes "collapse_inv k par all scanned best" "set scanned \<subseteq> set scanned'"
    and "\<And>x. x \<in> set scanned' \<Longrightarrow> x \<notin> set scanned \<Longrightarrow> \<exists>fl. parents_reach k par all fl \<and> f32_lt (score x) fl"
  shows "collapse_inv k par all scanned' best"
  unfolding collapse_inv_def
proof (intro conjI ballI)
  show "(\<exists>h. (par x, h) \<in> set best \<and> \<not> ranks_before x h) \<or> (\<exists>fl. parents_reach k par all fl \<and> f32_lt (score x) fl)"
    if "x \<in> set scanned'" for x
    using that assms by (cases "x \<in> set scanned") (auto simp: collapse_inv_def)
qed (use assms in \<open>auto simp: collapse_inv_def\<close>)

lemma collapse_inv_prune:
  assumes inv: "collapse_inv k par all scanned best" and sub: "set scanned \<subseteq> set all"
    and ok: "chunk_rank.all_ok f all" and reach: "parents_reach k par all kt"
  shows "collapse_inv k par all scanned (filter (\<lambda>(_, h). f32_le kt (score h)) best)"
proof -
  let ?best = "filter (\<lambda>(_, h). f32_le kt (score h)) best"
  have low: "f32_lt (score x) kt" if "(par x, h) \<in> set best" "\<not> ranks_before x h" "\<not> f32_le kt (score h)" "x \<in> set scanned" for x h
  proof -
    have "hit_ok f x" "hit_ok f h" using that inv sub ok by (fastforce simp: collapse_inv_def chunk_rank.all_ok_def)+
    then show ?thesis
      using that(2,3) reach by (auto simp: ranks_before_def f32_lt_def f32_le_def f32_eq_def hit_ok_def parents_reach_def)
  qed
  show ?thesis
    unfolding collapse_inv_def
  proof (intro conjI ballI)
    show "distinct (map fst ?best)" using inv by (simp add: collapse_inv_def distinct_map_filter)
    show "(\<exists>h. (par x, h) \<in> set ?best \<and> \<not> ranks_before x h) \<or> (\<exists>fl. parents_reach k par all fl \<and> f32_lt (score x) fl)"
      if x: "x \<in> set scanned" for x
    proof -
      have "(\<exists>h. (par x, h) \<in> set best \<and> \<not> ranks_before x h) \<or> (\<exists>fl. parents_reach k par all fl \<and> f32_lt (score x) fl)"
        using inv x by (auto simp: collapse_inv_def)
      then show ?thesis using low [OF _ _ _ x] reach by auto
    qed
  qed (use inv in \<open>auto simp: collapse_inv_def\<close>)
qed

definition collapse_state ::
  "(f32 list \<Rightarrow> nat \<Rightarrow> f32) \<Rightarrow> batch_query \<Rightarrow> nat \<Rightarrow> (chunk_hit \<Rightarrow> u64) \<Rightarrow> ('e \<Rightarrow> bool) \<Rightarrow> nat \<Rightarrow> 'e collapse \<Rightarrow> bool" where
  "collapse_state sc q n par J r st \<longleftrightarrow> J (cs_env st) \<and> cs_mask st = replicate n False \<and>
     (cs_floor st = NEG_INFINITY \<or> parents_reach (bq_k q) par (rows sc q 0 n) (cs_floor st)) \<and>
     collapse_inv (bq_k q) par (rows sc q 0 n) (rows sc q 0 r) (cs_best st)"

lemma adopt_parent_floor_correct:
  assumes "collapse_state sc q n par J r st"
    and feed: "feed_ok cl J (\<lambda>_. parents_reach (bq_k q) par (rows sc q 0 n)) reached"
  shows "collapse_state sc q n par J r (adopt_parent_floor cl st)"
proof -
  obtain ext e where ext: "external_floor cl 0 (cs_env st) = (ext, e)" by force
  have "J e" "\<And>f. ext = Some f \<Longrightarrow> \<not> is_nan f \<Longrightarrow> parents_reach (bq_k q) par (rows sc q 0 n) f"
    using assms ext unfolding feed_ok_def collapse_state_def by (metis fst_conv snd_conv)+
  then show ?thesis
    using assms(1) by (cases ext) (auto simp: adopt_parent_floor_def ext Let_def collapse_state_def)
qed

lemma publish_parents_correct:
  assumes st: "collapse_state sc q n par J r st" and r: "r \<le> n" "n \<le> 4294967296" and nan: "\<forall>v i. \<not> is_nan (sc v i)"
    and k: "0 < bq_k q"
    and feed: "feed_ok cl J handed (\<lambda>_. parents_reach (bq_k q) par (rows sc q 0 n))"
  shows "collapse_state sc q n par J r (publish_parents cl (bq_k q) st)"
proof (cases "bq_k q \<le> length (cs_best st)")
  case True
  let ?all = "rows sc q 0 n" and ?k = "bq_k q"
  let ?kt = "kth_parent_score ?k (cs_best st)"
  have ok: "chunk_rank.all_ok (slot_score (sc (bq_vector q))) ?all" using r nan by (intro rows_ok)
  have sub: "set (rows sc q 0 r) \<subseteq> set ?all" using r by (auto simp: set_rows)
  have inv: "collapse_inv ?k par ?all (rows sc q 0 r) (cs_best st)" using st by (simp add: collapse_state_def)
  have reach: "parents_reach ?k par ?all ?kt"
    by (rule kth_parent_reach [OF inv sub ok k True])
  obtain sent e where p: "publish_floor cl 0 ?kt (cs_env st) = (sent, e)" by force
  have "J e" using feed st reach p unfolding feed_ok_def collapse_state_def by (metis snd_conv)
  then show ?thesis
    using st True reach p collapse_inv_prune [OF inv sub ok reach]
    by (simp add: publish_parents_def Let_def collapse_state_def)
qed (use st in \<open>simp add: publish_parents_def\<close>)

lemma collapse_chunk_correct:
  assumes kernel: "exhaustive_kernel idx sc" and batch: "batch_ok idx [q]" and k: "0 < bq_k q"
    and par: "par = parent_of parents" "length parents = index_len idx"
    and feed: "feed_ok cl J (\<lambda>_. parents_reach (bq_k q) par (rows sc q 0 (index_len idx)))
      (\<lambda>_. parents_reach (bq_k q) par (rows sc q 0 (index_len idx)))"
    and range: "start \<le> stop" "stop \<le> index_len idx" and st: "collapse_state sc q (index_len idx) par J start st"
  shows "\<exists>st'. collapse_chunk idx cl (bq_vector q) (bq_k q) parents (bq_allow q) start stop st = Some st' \<and>
    collapse_state sc q (index_len idx) par J stop st'"
proof -
  let ?n = "index_len idx" and ?k = "bq_k q" and ?all = "rows sc q 0 (index_len idx)"
  let ?st = "adopt_parent_floor cl st"
  have n: "?n \<le> 4294967296" and nan: "\<forall>v i. \<not> is_nan (sc v i)" and dim: "dim_opt idx = Some (length (bq_vector q))"
    using batch kernel by (simp_all add: batch_ok_def exhaustive_kernel_def)
  have len: "bq_allow q = Some (p, a) \<Longrightarrow> length a = ?n" for p a using batch_ok_allow [OF batch] by simp
  have ok: "chunk_rank.all_ok (slot_score (sc (bq_vector q))) ?all" using n nan by (intro rows_ok)
  have st1: "collapse_state sc q ?n par J start ?st" by (rule adopt_parent_floor_correct [OF st feed])
  have R: "rows sc q 0 stop = rows sc q 0 start @ rows sc q start stop" using range by (intro rows_append) simp_all
  have sub: "set (rows sc q 0 start) \<subseteq> set ?all" "set (rows sc q 0 stop) \<subseteq> set ?all" using range by (auto simp: set_rows)
  show ?thesis
  proof (rule chunk_window_cases [OF range len])
    assume skip: "chunk_window (bq_allow q) start stop = Some None" "\<And>i. start \<le> i \<Longrightarrow> i < stop \<Longrightarrow> \<not> allowed q i"
    then have "rows sc q start stop = []" by (auto simp: rows_def filter_empty_conv)
    then show ?thesis using skip(1) st1 R by (simp add: collapse_chunk_def collapse_state_def Let_def)
  next
    fix window nrows
    assume win: "chunk_window (bq_allow q) start stop = Some (Some (window, nrows))" "length window = stop - start"
      "\<And>i. start \<le> i \<Longrightarrow> i < stop \<Longrightarrow> window ! (i - start) = allowed q i"
    let ?st1 = "?st\<lparr>cs_mask := mask_write start window (cs_mask ?st)\<rparr>"
    have pre: "J (cs_env ?st1)" "\<not> is_nan (cs_floor ?st1)" "cs_mask ?st1 = mask_write start window (replicate ?n False)" "0 < max ?k 1"
      using st1 by (auto simp: collapse_state_def parents_reach_def)
    obtain hits st2 where e: "escalate idx cl (bq_vector q) nrows (stop - start) (max ?k 1) ?st1 = Some (hits, st2)"
      "mset hits = mset (filter (\<lambda>h. \<not> f32_lt (score h) (cs_floor ?st1)) (rows sc q start stop))"
      "cs_best st2 = cs_best ?st1" "cs_floor st2 = cs_floor ?st1" "cs_mask st2 = cs_mask ?st1" "J (cs_env st2)"
      using escalate_correct [OF kernel dim feed range win(2,3) pre, of nrows] by blast
    have sh: "set hits = {h \<in> set (rows sc q start stop). \<not> f32_lt (score h) (cs_floor ?st)}"
      using mset_eq_setD [OF e(2)] by auto
    have "unat (slot x) < length parents" if "x \<in> set ?all" for x
      using that n par(2) by (auto simp: set_rows hit_at_def unat_of_nat_u32)
    then have hits: "x \<in> set hits \<Longrightarrow> x \<in> set ?all \<and> unat (slot x) < length parents" for x
      using sh sub(2) R by auto
    obtain best where best: "collapse_parents parents hits (cs_best st2) = Some best"
      "collapse_inv ?k par ?all (rows sc q 0 start @ hits) best"
      using collapse_parents_correct [OF ok _ hits sub(1), where par = par and k = ?k and best = "cs_best st2"] st1 e(3) par(1)
      by (auto simp: collapse_state_def)
    have fl: "cs_floor ?st = NEG_INFINITY \<or> parents_reach ?k par ?all (cs_floor ?st)" using st1 by (simp add: collapse_state_def)
    have "collapse_inv ?k par ?all (rows sc q 0 stop) best"
    proof (rule collapse_inv_extend [OF best(2)])
      fix x assume "x \<in> set (rows sc q 0 stop)" "x \<notin> set (rows sc q 0 start @ hits)"
      then have "f32_lt (score x) (cs_floor ?st)" using sh R by auto
      then show "\<exists>fl. parents_reach ?k par ?all fl \<and> f32_lt (score x) fl"
        using fl NEG_INFINITY_least [of "score x"] by (auto simp: f32_lt_def)
    qed (use sh R in auto)
    then have "collapse_state sc q ?n par J stop (publish_parents cl ?k
        (st2\<lparr>cs_mask := mask_write start (replicate (stop - start) False) (cs_mask st2),
          cs_stats := (cs_stats st2)\<lparr>candidates_collected := candidates_collected (cs_stats st2) + of_nat (length hits)\<rparr>,
          cs_best := best\<rparr>))"
      using e fl st1 mask_restored [OF range win(2)]
      by (intro publish_parents_correct [OF _ range(2) n nan k feed]) (simp add: collapse_state_def)
    then show ?thesis
      using win(1) e(1) best(1) by (auto simp: collapse_chunk_def Let_def)
  qed
qed

lemma collapse_loop_correct:
  assumes kernel: "exhaustive_kernel idx sc" and batch: "batch_ok idx [q]" and k: "0 < bq_k q"
    and par: "par = parent_of parents" "length parents = index_len idx"
    and feed: "feed_ok cl J (\<lambda>_. parents_reach (bq_k q) par (rows sc q 0 (index_len idx)))
      (\<lambda>_. parents_reach (bq_k q) par (rows sc q 0 (index_len idx)))"
    and start: "start \<le> index_len idx" and st: "collapse_state sc q (index_len idx) par J start st"
  shows "\<exists>st'. collapse_loop idx cl (bq_vector q) (bq_k q) parents (bq_allow q) cb start st = Some st' \<and>
    collapse_state sc q (index_len idx) par J (index_len idx) st'"
  using start st
proof (induction "index_len idx - start" arbitrary: start st rule: less_induct)
  case (less start st)
  show ?case
  proof (cases "start < index_len idx")
    case True
    define stop where "stop = min (start + max cb 1 * BLOCK_VECTORS) (index_len idx)"
    have stop: "start < stop" "stop \<le> index_len idx" using True by (auto simp: stop_def BLOCK_VECTORS_def)
    obtain st1 where s1: "collapse_chunk idx cl (bq_vector q) (bq_k q) parents (bq_allow q) start stop st = Some st1"
      "collapse_state sc q (index_len idx) par J stop st1"
      using collapse_chunk_correct [OF kernel batch k par feed _ stop(2) less.prems(2)] stop(1) by auto
    have "collapse_loop idx cl (bq_vector q) (bq_k q) parents (bq_allow q) cb start st
        = collapse_loop idx cl (bq_vector q) (bq_k q) parents (bq_allow q) cb stop st1"
      using True s1(1) by (subst collapse_loop.simps) (simp only: if_True Let_def stop_def option.case)
    then show ?thesis using less.hyps [OF _ stop(2) s1(2)] stop True by simp
  next
    case False
    then show ?thesis using less.prems by (subst collapse_loop.simps) simp
  qed
qed

section \<open>Exactness\<close>

text \<open>
  C25: the collapsed scan returns the best \<open>k\<close> parents, each with its best row. For a backend
  that honours its contract and floors that \<open>k\<close> parents reach, the result is the top \<open>k\<close> of
  the parents' best rows: the saturation rescans hide no parent, and neither pruning the map
  nor the floors change the answer.
\<close>

theorem collapsed_exact:
  fixes query k allow parents
  defines "q \<equiv> \<lparr>bq_vector = query, bq_k = k, bq_keep_ties = False, bq_allow = allow\<rparr>"
  assumes "exhaustive_kernel idx sc" and "batch_ok idx [q]" and "length parents = index_len idx"
    and "feed_ok cl J (\<lambda>_. parents_reach k (parent_of parents) (rows sc q 0 (index_len idx)))
      (\<lambda>_. parents_reach k (parent_of parents) (rows sc q 0 (index_len idx)))" and "J e"
  shows "\<exists>stats e'. chunked_topk_collapsed idx query k cb parents cl allow e =
    Some ((best_parents k (parent_of parents) (rows sc q 0 (index_len idx)), stats), e')"
proof (cases "index_len idx = 0 \<or> k = 0")
  case True
  then have "best_parents k (parent_of parents) (rows sc q 0 (index_len idx)) = []"
    by (auto simp: best_parents_def collapsed_out_def rows_def leaders_def)
  then show ?thesis
    using True assms(4) batch_ok_allow [OF assms(3)]
    by (auto simp: chunked_topk_collapsed_def Let_def q_def split: option.splits)
next
  case False
  let ?n = "index_len idx" and ?par = "parent_of parents"
  let ?st = "\<lparr>cs_env = e, cs_stats = stats_default, cs_best = [], cs_floor = NEG_INFINITY, cs_mask = replicate ?n False\<rparr>"
  have q: "bq_vector q = query" "bq_k q = k" "bq_allow q = allow" by (simp_all add: q_def)
  have n: "?n \<le> 4294967296" and nan: "\<forall>v i. \<not> is_nan (sc v i)"
    using assms(2,3) by (simp_all add: batch_ok_def exhaustive_kernel_def)
  have init: "collapse_state sc q ?n ?par J 0 ?st"
    using assms(6) by (simp add: collapse_state_def collapse_inv_def rows_def)
  obtain st where st: "collapse_loop idx cl query k parents allow cb 0 ?st = Some st" "collapse_state sc q ?n ?par J ?n st"
    using collapse_loop_correct [OF assms(2,3) _ refl assms(4) _ le0 init, of cl cb] False assms(5) q by auto
  have inv: "collapse_inv k ?par (rows sc q 0 ?n) (rows sc q 0 ?n) (cs_best st)"
    using st(2) by (simp add: collapse_state_def q)
  have "collapsed_out k (cs_best st) = best_parents k ?par (rows sc q 0 ?n)"
    using inv by (intro collapsed_covering [OF rows_ok [OF n nan] distinct_rows [OF n], of _ "\<lambda>w. parents ! unat w"])
      (auto simp: collapse_inv_def parent_of_def)
  then show ?thesis
    using False assms(4) batch_ok_allow [OF assms(3)] st(1)
    by (auto simp: chunked_topk_collapsed_def Let_def q split: option.splits)
qed

theorem collapsed_exact_witness:
  "\<exists>stats e. chunked_topk_collapsed (reference_index 2 1 two_rows) [0x3F800000] 1 1 [7, 9] quiet None () =
     Some (([\<lparr>col_parent = 9, col_slot = 1, col_score = 0x40000000\<rparr>], stats), e)"
proof -
  have "best_parents 1 (parent_of [7, 9]) (rows two_rows best_of_two 0 2) = [\<lparr>col_parent = 9, col_slot = 1, col_score = 0x40000000\<rparr>]"
    unfolding best_of_two_rows
    by (simp add: best_parents_def leaders_def collapsed_out_def parent_of_def cmp_collapsed_def total_cmp_def
        total_key_eq sign_bit_def magnitude_def then_with_def cmp_lin_def ranks_before_def f32_lt_def)
  then show ?thesis
    using collapsed_exact [OF two_rows_kernel two_rows_batch [unfolded best_of_two_def] _ quiet_feed TrueI, of "[7, 9]" 1 "()"]
    by (simp add: reference_index_def best_of_two_def)
qed

end
