(* ===== verification/Merge.thy ===== *)
theory Merge
  imports Score
begin

text \<open>
  The coordinator's merge of shard top-\<open>k\<close> lists and its floor aggregation
  (\<open>src/merge.rs\<close>): \<open>cmp_hits\<close> is a total order on hits, \<open>merge_topk\<close> ranks the union of
  the shard lists, and \<open>FloorTracker\<close> keeps the running maximum of the published floors.
\<close>

section \<open>Hits and their order\<close>

record merged_hit =
  vector_id :: u64
  hit_shard :: u32
  hit_score :: f32

definition cmp_hits :: "merged_hit \<Rightarrow> merged_hit \<Rightarrow> ordering" where
  "cmp_hits a b =
     then_with (then_with (total_cmp (hit_score b) (hit_score a))
                          (cmp_lin (vector_id a) (vector_id b)))
       (cmp_lin (hit_shard a) (hit_shard b))"

definition tag_hits :: "u32 \<Rightarrow> (u64 \<times> f32) list \<Rightarrow> merged_hit list" where
  "tag_hits shard hits =
     map (\<lambda>(id, score). \<lparr>vector_id = id, hit_shard = shard, hit_score = score\<rparr>) hits"

definition merge_topk :: "(u32 \<times> (u64 \<times> f32) list) list \<Rightarrow> nat \<Rightarrow> merged_hit list" where
  "merge_topk shard_hits k =
     take k (sort_by cmp_hits (concat (map (\<lambda>(shard, hits). tag_hits shard hits) shard_hits)))"

section \<open>The floor tracker\<close>

record floor_tracker =
  tracker_current :: f32

definition tracker_new :: floor_tracker where
  "tracker_new = \<lparr>tracker_current = NEG_INFINITY\<rparr>"

definition tracker_observe :: "f32 \<Rightarrow> floor_tracker \<Rightarrow> f32 option \<times> floor_tracker" where
  "tracker_observe fl t =
     (if is_nan fl \<or> f32_le fl (tracker_current t) then (None, t)
      else (Some fl, t\<lparr>tracker_current := fl\<rparr>))"

section \<open>The merge is a ranking\<close>

lemma total_cmp_simps [simp]:
  "total_cmp a b = Less \<longleftrightarrow> total_key a < total_key b"
  "total_cmp a b = Greater \<longleftrightarrow> total_key b < total_key a"
  "total_cmp a b = Equal \<longleftrightarrow> a = b"
  using total_key_inject by (auto simp: total_cmp_def)

text \<open>The lexicographic key \<open>cmp_hits\<close> compares.\<close>

definition hit_key :: "merged_hit \<Rightarrow> int \<times> u64 \<times> u32" where
  "hit_key h = (- total_key (hit_score h), vector_id h, hit_shard h)"

lemma cmp_hits_key: "cmp_hits a b = cmp_lin (hit_key a) (hit_key b)"
  by (simp add: cmp_hits_def hit_key_def cmp_lin_prod cmp_lin_uminus total_cmp_def then_with_def)

interpretation hit_rank: keyed_ranking "\<lambda>_. True" cmp_hits hit_key
  by unfold_locales (auto simp: cmp_hits_key hit_key_def dest: total_key_inject)

lemma hit_rank_all_ok [simp]: "hit_rank.all_ok xs"
  by (simp add: hit_rank.all_ok_def)

lemma merge_topk_topk:
  "merge_topk sh k = hit_rank.topk k (concat (map (\<lambda>(s, hs). tag_hits s hs) sh))"
  by (simp add: merge_topk_def hit_rank.topk_def)

definition untag :: "merged_hit list \<Rightarrow> (u64 \<times> f32) list" where
  "untag = map (\<lambda>h. (vector_id h, hit_score h))"

lemma tag_untag: "(\<And>h. h \<in> set hs \<Longrightarrow> hit_shard h = s) \<Longrightarrow> tag_hits s (untag hs) = hs"
  by (induction hs) (auto simp: tag_hits_def untag_def)

lemma merge_topk_shard: "h \<in> set (merge_topk [(s, hs)] k) \<Longrightarrow> hit_shard h = s"
  by (auto simp: merge_topk_def tag_hits_def dest!: in_set_takeD)

section \<open>Properties of the merge\<close>

text \<open>
  The merge does not depend on the order in which shards answer nor on the order of the
  hits inside a shard's answer: two collections with the same hits merge to the same list.
\<close>

theorem merge_topk_order_insensitive:
  assumes "mset (concat (map (\<lambda>(s, hs). tag_hits s hs) xs)) = mset (concat (map (\<lambda>(s, hs). tag_hits s hs) ys))"
  shows "merge_topk xs k = merge_topk ys k"
  unfolding merge_topk_topk using assms by (intro hit_rank.topk_mset) simp_all

theorem merge_topk_order_insensitive_witness:
  "merge_topk [(0, [(7, 0x3F800000), (3, 0x3F800000)]), (1, [(5, 0x40000000)])] 2 =
   merge_topk [(1, [(5, 0x40000000)]), (0, [(3, 0x3F800000), (7, 0x3F800000)])] 2"
  by (rule merge_topk_order_insensitive) (simp add: tag_hits_def)



section \<open>Properties of the floor tracker\<close>

fun tracker_run :: "f32 list \<Rightarrow> floor_tracker \<Rightarrow> f32 list \<times> floor_tracker" where
  "tracker_run [] t = ([], t)"
| "tracker_run (fl # fls) t =
     (case tracker_observe fl t of
        (r, t') \<Rightarrow> (case tracker_run fls t' of (out, t'') \<Rightarrow> (case r of Some f \<Rightarrow> f # out | None \<Rightarrow> out, t'')))"

lemma tracker_observe_key:
  assumes "\<not> is_nan (tracker_current t)" "tracker_observe fl t = (r, t')"
  shows "\<not> is_nan (tracker_current t')"
    and "f32_key (tracker_current t') =
      (if is_nan fl then f32_key (tracker_current t) else max (f32_key fl) (f32_key (tracker_current t)))"
    and "r = (if f32_key (tracker_current t) < f32_key (tracker_current t') then Some (tracker_current t') else None)"
  using assms by (auto simp: tracker_observe_def f32_le_def split: if_splits)

lemma tracker_run_correct:
  assumes "\<not> is_nan (tracker_current t)" "tracker_run fls t = (out, t')"
  shows "\<not> is_nan (tracker_current t') \<and>
    f32_key (tracker_current t') =
      fold max (map f32_key (filter (\<lambda>f. \<not> is_nan f) fls)) (f32_key (tracker_current t)) \<and>
    sorted_wrt (<) (f32_key (tracker_current t) # map f32_key out) \<and>
    last (tracker_current t # out) = tracker_current t' \<and> set out \<subseteq> set fls"
  using assms
proof (induction fls arbitrary: t out)
  case (Cons fl fls)
  obtain r u where o: "tracker_observe fl t = (r, u)" by force
  obtain out' where run: "tracker_run fls u = (out', t')"
    using Cons.prems(2) o by (auto split: prod.splits)
  note k = tracker_observe_key [OF Cons.prems(1) o]
  have IH: "\<not> is_nan (tracker_current t')"
    "f32_key (tracker_current t') =
      fold max (map f32_key (filter (\<lambda>f. \<not> is_nan f) fls)) (f32_key (tracker_current u))"
    "sorted_wrt (<) (f32_key (tracker_current u) # map f32_key out')"
    "last (tracker_current u # out') = tracker_current t'" "set out' \<subseteq> set fls"
    using Cons.IH [OF k(1) run] by auto
  have step: "fold max (map f32_key (filter (\<lambda>f. \<not> is_nan f) (fl # fls))) (f32_key (tracker_current t))
      = f32_key (tracker_current t')"
    using IH(2) k(2) by simp
  show ?case
  proof (cases r)
    case None
    then have "u = t" using o by (auto simp: tracker_observe_def split: if_splits)
    then show ?thesis using Cons.prems(2) None IH o run step by auto
  next
    case (Some g)
    then have "g = fl" "tracker_current u = fl" "\<not> is_nan fl"
      using o by (auto simp: tracker_observe_def split: if_splits)
    moreover have "f32_key (tracker_current t) < f32_key fl"
      using o Some Cons.prems(1) by (auto simp: tracker_observe_def f32_le_def split: if_splits)
    moreover have "out = fl # out'" using Cons.prems(2) Some o run calculation by auto
    ultimately show ?thesis using IH step by auto
  qed
qed (auto split: option.splits)

text \<open>
  C34: over any sequence of observed floors the tracker holds their maximum (NaN floors
  ignored, \<open>-inf\<close> before any), and the floors it hands back for broadcast are exactly the
  strict raises: strictly increasing, each one observed, the last one the aggregate.
\<close>

theorem tracker_holds_maximum:
  "case tracker_run fls tracker_new of (out, t) \<Rightarrow>
     f32_key (tracker_current t) =
       fold max (map f32_key (filter (\<lambda>f. \<not> is_nan f) fls)) (f32_key NEG_INFINITY) \<and>
     sorted_wrt (<) (f32_key NEG_INFINITY # map f32_key out) \<and>
     set out \<subseteq> set fls \<and> last (NEG_INFINITY # out) = tracker_current t"
proof -
  obtain out t where "tracker_run fls tracker_new = (out, t)" by force
  then show ?thesis
    using tracker_run_correct [of tracker_new fls out t] by (simp add: tracker_new_def)
qed

end
