(* ===== verification/Fanout.thy ===== *)
theory Fanout
  imports Merge Scan_Correct
begin

text \<open>
  The distributed floor protocol of a fanned-out vector search: the node's floor cell and
  publish gate (\<open>search_shard\<close> of \<open>src/node.rs\<close>), the coordinator's pumps and conflating
  forwarders (\<open>run_shard_stream\<close> of \<open>src/coordinator.rs\<close>) and the final merge
  (\<open>fanout_search\<close>), as a step relation over all interleavings of chunk scans, floor messages
  in both directions, dropped messages and clock ticks.
\<close>

section \<open>The node's side of the stream\<close>

record knobs =
  share_floors :: bool
  floor_warmup_chunks :: u32
  floor_delta :: f32
  floor_min_interval_ms :: nat
  response_capacity :: nat

record node_env =
  floor_cell :: f32
  last_published :: f32
  offers :: u32
  last_at :: "nat option"
  now_ms :: nat
  kernel_nanos :: nat
  outbox :: "f32 list"

definition node_env_init :: node_env where
  "node_env_init = \<lparr>floor_cell = NEG_INFINITY, last_published = NEG_INFINITY, offers = 0,
     last_at = None, now_ms = 0, kernel_nanos = 0, outbox = []\<rparr>"

text \<open>
  The publish gate. The sum \<open>last_published + floor_delta\<close> is a float addition, which is a
  parameter: the protocol is lossless whatever the gate lets through. \<open>try_send\<close> drops the
  message when the response channel is full.
\<close>

definition node_publish :: "(f32 \<Rightarrow> f32 \<Rightarrow> f32) \<Rightarrow> knobs \<Rightarrow> f32 \<Rightarrow> node_env \<Rightarrow> bool \<times> node_env" where
  "node_publish add kn fl e =
     (if \<not> share_floors kn then (False, e)
      else
        (let e = e\<lparr>offers := offers e + 1\<rparr> in
         if offers e \<le> floor_warmup_chunks kn then (False, e)
         else if f32_le fl (add (last_published e) (floor_delta kn)) then (False, e)
         else if 0 < floor_min_interval_ms kn \<and>
                 (case last_at e of Some at \<Rightarrow> now_ms e - at < floor_min_interval_ms kn | None \<Rightarrow> False)
         then (False, e)
         else (True, e\<lparr>last_published := fl, last_at := Some (now_ms e),
                outbox := (if length (outbox e) < response_capacity kn then outbox e @ [fl] else outbox e)\<rparr>)))"

definition node_external :: "knobs \<Rightarrow> node_env \<Rightarrow> f32 option \<times> node_env" where
  "node_external kn e =
     (if share_floors kn \<and> \<not> f32_eq (floor_cell e) NEG_INFINITY then Some (floor_cell e) else None, e)"

text \<open>The pump that folds floor updates into the watch cell: only raises are stored.\<close>

definition node_pump :: "f32 \<Rightarrow> node_env \<Rightarrow> node_env" where
  "node_pump u e = (if \<not> is_nan u \<and> f32_lt (floor_cell e) u then e\<lparr>floor_cell := u\<rparr> else e)"

definition node_closures :: "(f32 \<Rightarrow> f32 \<Rightarrow> f32) \<Rightarrow> knobs \<Rightarrow> node_env closures" where
  "node_closures add kn =
     \<lparr>external_floor = \<lambda>_. node_external kn, publish_floor = \<lambda>_. node_publish add kn,
      observe_pass = \<lambda>_ e. e, elapsed_nanos = \<lambda>e. (kernel_nanos e, e)\<rparr>"

text \<open>The hits of the terminal message: global ids from local slots.\<close>

definition done_hits :: "u64 \<Rightarrow> chunk_hit list \<Rightarrow> (u64 \<times> f32) list" where
  "done_hits slot_offset = map (\<lambda>h. (slot_offset + ucast (slot h), score h))"

section \<open>The whole query\<close>

record shard_config =
  cfg_index :: vector_index
  cfg_query :: batch_query
  cfg_chunk_blocks :: nat
  cfg_slot_offset :: u64
  cfg_knobs :: knobs

text \<open>
  One shard's stream: the scan with its environment, the rows scanned, the floor messages
  on the way to the node, the raise its pump is about to broadcast, and the terminal hits.
\<close>

record shard_stream =
  sh_scan :: "node_env scan"
  sh_start :: nat
  sh_inbox :: "f32 list"
  sh_raised :: "f32 option"
  sh_done :: "(u64 \<times> f32) list option"

record fanout =
  fo_tracker :: floor_tracker
  fo_gfloor :: f32
  fo_shards :: "shard_stream list"

definition shard_init :: "shard_config \<Rightarrow> shard_stream" where
  "shard_init cfg = \<lparr>sh_scan = \<lparr>scan_env = node_env_init, scan_mask = replicate (index_len (cfg_index cfg)) False,
       scan_heaps = [[]], query_floors = [NEG_INFINITY], scan_out = [stats_default]\<rparr>,
     sh_start = 0, sh_inbox = [], sh_raised = None, sh_done = None\<rparr>"

definition fanout_init :: "shard_config list \<Rightarrow> fanout" where
  "fanout_init cfgs = \<lparr>fo_tracker = tracker_new, fo_gfloor = NEG_INFINITY, fo_shards = map shard_init cfgs\<rparr>"

definition chunk_stop :: "shard_config \<Rightarrow> nat \<Rightarrow> nat" where
  "chunk_stop cfg start = min (start + max (cfg_chunk_blocks cfg) 1 * BLOCK_VECTORS) (index_len (cfg_index cfg))"

abbreviation with_shard :: "nat \<Rightarrow> shard_stream \<Rightarrow> fanout \<Rightarrow> fanout" where
  "with_shard s sh fo \<equiv> fo\<lparr>fo_shards := (fo_shards fo)[s := sh]\<rparr>"

abbreviation in_env :: "(node_env \<Rightarrow> node_env) \<Rightarrow> shard_stream \<Rightarrow> shard_stream" where
  "in_env f sh \<equiv> sh\<lparr>sh_scan := (sh_scan sh)\<lparr>scan_env := f (scan_env (sh_scan sh))\<rparr>\<rparr>"

text \<open>Both request channels of the coordinator hold eight messages.\<close>

definition REQUEST_CAPACITY :: nat where
  "REQUEST_CAPACITY = 8"

inductive fanout_step :: "(f32 \<Rightarrow> f32 \<Rightarrow> f32) \<Rightarrow> shard_config list \<Rightarrow> fanout \<Rightarrow> fanout \<Rightarrow> bool"
  for add cfgs where
  scan: "s < length cfgs \<Longrightarrow> sh = fo_shards fo ! s \<Longrightarrow> sh_start sh < index_len (cfg_index (cfgs ! s)) \<Longrightarrow>
    scan_group (cfg_index (cfgs ! s)) [cfg_query (cfgs ! s)] (node_closures add (cfg_knobs (cfgs ! s)))
      (sh_start sh) (chunk_stop (cfgs ! s) (sh_start sh)) [0] (sh_scan sh) = Some st \<Longrightarrow>
    fanout_step add cfgs fo
      (with_shard s (sh\<lparr>sh_scan := st, sh_start := chunk_stop (cfgs ! s) (sh_start sh)\<rparr>) fo)"
| finish: "s < length cfgs \<Longrightarrow> sh = fo_shards fo ! s \<Longrightarrow> index_len (cfg_index (cfgs ! s)) \<le> sh_start sh \<Longrightarrow>
    fanout_step add cfgs fo
      (with_shard s (sh\<lparr>sh_done := Some (done_hits (cfg_slot_offset (cfgs ! s)) (scan_heaps (sh_scan sh) ! 0))\<rparr>) fo)"
| observe: "s < length cfgs \<Longrightarrow> sh = fo_shards fo ! s \<Longrightarrow> sh_raised sh = None \<Longrightarrow>
    outbox (scan_env (sh_scan sh)) = u # us \<Longrightarrow> tracker_observe u (fo_tracker fo) = (r, t) \<Longrightarrow>
    fanout_step add cfgs fo
      (with_shard s (in_env (\<lambda>e. e\<lparr>outbox := us\<rparr>) sh\<lparr>sh_raised := r\<rparr>) (fo\<lparr>fo_tracker := t\<rparr>))"
| broadcast: "s < length cfgs \<Longrightarrow> sh = fo_shards fo ! s \<Longrightarrow> sh_raised sh = Some fl \<Longrightarrow>
    fanout_step add cfgs fo
      (with_shard s (sh\<lparr>sh_raised := None\<rparr>)
        (fo\<lparr>fo_gfloor := (if f32_lt (fo_gfloor fo) fl then fl else fo_gfloor fo)\<rparr>))"
| forward: "s < length cfgs \<Longrightarrow> sh = fo_shards fo ! s \<Longrightarrow>
    fanout_step add cfgs fo
      (with_shard s (sh\<lparr>sh_inbox := (if length (sh_inbox sh) < REQUEST_CAPACITY
                                   then sh_inbox sh @ [fo_gfloor fo] else sh_inbox sh)\<rparr>) fo)"
| pump: "s < length cfgs \<Longrightarrow> sh = fo_shards fo ! s \<Longrightarrow> sh_inbox sh = u # us \<Longrightarrow>
    fanout_step add cfgs fo (with_shard s (in_env (node_pump u) sh\<lparr>sh_inbox := us\<rparr>) fo)"
| tick: "s < length cfgs \<Longrightarrow> sh = fo_shards fo ! s \<Longrightarrow>
    fanout_step add cfgs fo
      (with_shard s (in_env (\<lambda>e. e\<lparr>now_ms := now_ms e + d, kernel_nanos := ns\<rparr>) sh) fo)"

inductive_cases fanout_stepE: "fanout_step add cfgs fo fo'"

inductive fanout_reach :: "(f32 \<Rightarrow> f32 \<Rightarrow> f32) \<Rightarrow> shard_config list \<Rightarrow> fanout \<Rightarrow> bool" for add cfgs where
  init: "fanout_reach add cfgs (fanout_init cfgs)"
| step: "fanout_reach add cfgs fo \<Longrightarrow> fanout_step add cfgs fo fo' \<Longrightarrow> fanout_reach add cfgs fo'"

text \<open>The answer, once every shard is done: the merge of the terminal hits.\<close>

definition shard_answers :: "fanout \<Rightarrow> (u32 \<times> (u64 \<times> f32) list) list option" where
  "shard_answers fo =
     those (map (\<lambda>(s, sh). map_option (\<lambda>hits. (of_nat s, hits)) (sh_done sh)) (List.enumerate 0 (fo_shards fo)))"

definition fanout_answer :: "nat \<Rightarrow> fanout \<Rightarrow> merged_hit list option" where
  "fanout_answer k fo = map_option (\<lambda>sh. merge_topk sh k) (shard_answers fo)"

section \<open>The corpus and the floors of a fan-out\<close>

definition NEG_ZERO :: f32 where
  "NEG_ZERO = 0x80000000"

text \<open>
  The conditions on a fanned-out query: every shard's backend honours its contract, all
  shards run the same \<open>k\<close>, ids do not wrap, and no score is \<open>-0.0\<close> (on which the scan's and
  the coordinator's orders differ).
\<close>

definition fanout_ok :: "nat \<Rightarrow> (nat \<Rightarrow> f32 list \<Rightarrow> nat \<Rightarrow> f32) \<Rightarrow> shard_config list \<Rightarrow> bool" where
  "fanout_ok k sc cfgs \<longleftrightarrow> length cfgs \<le> 2 ^ 32 \<and>
     (\<forall>s < length cfgs. let cfg = cfgs ! s in
        exhaustive_kernel (cfg_index cfg) (sc s) \<and> batch_ok (cfg_index cfg) [cfg_query cfg] \<and>
        bq_k (cfg_query cfg) = k \<and> \<not> bq_keep_ties (cfg_query cfg) \<and>
        unat (cfg_slot_offset cfg) + index_len (cfg_index cfg) \<le> 2 ^ 64 \<and>
        (\<forall>v i. sc s v i \<noteq> NEG_ZERO))"

definition shard_rows :: "(nat \<Rightarrow> f32 list \<Rightarrow> nat \<Rightarrow> f32) \<Rightarrow> shard_config list \<Rightarrow> nat \<Rightarrow> chunk_hit list" where
  "shard_rows sc cfgs s = rows (sc s) (cfg_query (cfgs ! s)) 0 (index_len (cfg_index (cfgs ! s)))"

definition shard_hits :: "shard_config list \<Rightarrow> nat \<Rightarrow> chunk_hit list \<Rightarrow> merged_hit list" where
  "shard_hits cfgs s hs = tag_hits (of_nat s) (done_hits (cfg_slot_offset (cfgs ! s)) hs)"

definition all_hits :: "(nat \<Rightarrow> f32 list \<Rightarrow> nat \<Rightarrow> f32) \<Rightarrow> shard_config list \<Rightarrow> merged_hit list" where
  "all_hits sc cfgs = concat (map (\<lambda>s. shard_hits cfgs s (shard_rows sc cfgs s)) [0..<length cfgs])"

text \<open>A floor is attained when \<open>k\<close> hits of the whole corpus reach it.\<close>

definition global_floor :: "nat \<Rightarrow> merged_hit list \<Rightarrow> f32 \<Rightarrow> bool" where
  "global_floor k hits f \<longleftrightarrow> \<not> is_nan f \<and> k \<le> length (filter (\<lambda>h. \<not> f32_lt (hit_score h) f) hits)"

definition floor_ok :: "nat \<Rightarrow> merged_hit list \<Rightarrow> f32 \<Rightarrow> bool" where
  "floor_ok k hits f \<longleftrightarrow> f = NEG_INFINITY \<or> global_floor k hits f"

definition env_ok :: "nat \<Rightarrow> merged_hit list \<Rightarrow> node_env \<Rightarrow> bool" where
  "env_ok k hits e \<longleftrightarrow> floor_ok k hits (floor_cell e) \<and> (\<forall>f \<in> set (outbox e). floor_ok k hits f)"

lemma score_shard_hits: "map hit_score (shard_hits cfgs s hs) = map score hs"
  by (simp add: shard_hits_def tag_hits_def done_hits_def)

lemma filter_all_hits:
  assumes "s < length cfgs"
  shows "length (filter P (shard_hits cfgs s (shard_rows sc cfgs s))) \<le> length (filter P (all_hits sc cfgs))"
proof -
  have "[0..<length cfgs] = [0..<s] @ s # [Suc s..<length cfgs]"
    using assms by (metis upt_conv_Cons upt_split less_imp_le_nat zero_le)
  then show ?thesis by (simp add: all_hits_def)
qed

lemma attained_global:
  assumes s: "s < length cfgs"
    and att: "attained (sc s) (cfg_query (cfgs ! s)) (index_len (cfg_index (cfgs ! s))) f"
    and k: "bq_k (cfg_query (cfgs ! s)) = k"
  shows "global_floor k (all_hits sc cfgs) f"
proof -
  let ?P = "\<lambda>x. \<not> f32_lt x f"
  have "length (filter (\<lambda>h. ?P (score h)) (shard_rows sc cfgs s)) = length (filter ?P (map score (shard_rows sc cfgs s)))"
    by (simp add: filter_map o_def)
  also have "\<dots> = length (filter (\<lambda>h. ?P (hit_score h)) (shard_hits cfgs s (shard_rows sc cfgs s)))"
    by (simp add: filter_map o_def flip: score_shard_hits [of cfgs s])
  also have "\<dots> \<le> length (filter (\<lambda>h. ?P (hit_score h)) (all_hits sc cfgs))" by (rule filter_all_hits [OF s])
  finally show ?thesis using att k by (simp add: attained_def global_floor_def shard_rows_def)
qed

lemma node_feed:
  assumes "s < length cfgs" "bq_k (cfg_query (cfgs ! s)) = k"
  shows "feed_ok (node_closures add kn) (env_ok k (all_hits sc cfgs)) (\<lambda>_. global_floor k (all_hits sc cfgs))
    (reached_by (sc s) [cfg_query (cfgs ! s)] (index_len (cfg_index (cfgs ! s))))"
proof -
  have "env_ok k (all_hits sc cfgs) (snd (node_publish add kn f e))"
    if "env_ok k (all_hits sc cfgs) e" "reached_by (sc s) [cfg_query (cfgs ! s)] (index_len (cfg_index (cfgs ! s))) qi f" for qi f e
  proof -
    have "global_floor k (all_hits sc cfgs) f"
      using that(2) attained_global [where sc = sc, OF assms(1) _ assms(2)] by (auto simp: reached_by_def)
    then show ?thesis using that(1) by (auto simp: node_publish_def env_ok_def Let_def floor_ok_def)
  qed
  moreover have "global_floor k (all_hits sc cfgs) f" if "env_ok k (all_hits sc cfgs) e" "fst (node_external kn e) = Some f" for e f
    using that by (auto simp: node_external_def env_ok_def floor_ok_def f32_eq_def split: if_splits)
  ultimately show ?thesis
    by (auto simp: feed_ok_def node_closures_def node_external_def)
qed

section \<open>The invariant\<close>

definition stream_inv ::
  "nat \<Rightarrow> (nat \<Rightarrow> f32 list \<Rightarrow> nat \<Rightarrow> f32) \<Rightarrow> shard_config list \<Rightarrow> nat \<Rightarrow> shard_stream \<Rightarrow> bool" where
  "stream_inv k sc cfgs s sh \<longleftrightarrow>
     (let cfg = cfgs ! s; n = index_len (cfg_index cfg); hits = all_hits sc cfgs in
      sh_start sh \<le> n \<and>
      scan_inv (sc s) n [cfg_query cfg] (env_ok k hits) (\<lambda>_. global_floor k hits) (\<lambda>_. sh_start sh) (sh_scan sh) \<and>
      (\<forall>f \<in> set (sh_inbox sh). floor_ok k hits f) \<and>
      (\<forall>f. sh_raised sh = Some f \<longrightarrow> floor_ok k hits f) \<and>
      (\<forall>d. sh_done sh = Some d \<longrightarrow> (\<exists>heap. d = done_hits (cfg_slot_offset cfg) heap \<and>
         query_inv (sc s) (cfg_query cfg) (global_floor k hits) n heap)))"

definition fanout_inv :: "nat \<Rightarrow> (nat \<Rightarrow> f32 list \<Rightarrow> nat \<Rightarrow> f32) \<Rightarrow> shard_config list \<Rightarrow> fanout \<Rightarrow> bool" where
  "fanout_inv k sc cfgs fo \<longleftrightarrow>
     floor_ok k (all_hits sc cfgs) (fo_gfloor fo) \<and> floor_ok k (all_hits sc cfgs) (tracker_current (fo_tracker fo)) \<and>
     length (fo_shards fo) = length cfgs \<and> (\<forall>s < length cfgs. stream_inv k sc cfgs s (fo_shards fo ! s))"

lemma fanout_inv_init: "fanout_inv k sc cfgs (fanout_init cfgs)"
  by (simp add: fanout_inv_def fanout_init_def shard_init_def floor_ok_def tracker_new_def stream_inv_def
      scan_inv_def env_ok_def node_env_init_def query_inv_def rows_def chunk_cut.survivors_def Let_def)

lemma fanout_inv_update:
  assumes "fanout_inv k sc cfgs fo" "stream_inv k sc cfgs s sh" "s < length cfgs"
    and "fo_shards fo' = (fo_shards fo)[s := sh]"
    and "floor_ok k (all_hits sc cfgs) (fo_gfloor fo')" "floor_ok k (all_hits sc cfgs) (tracker_current (fo_tracker fo'))"
  shows "fanout_inv k sc cfgs fo'"
  using assms by (auto simp: fanout_inv_def nth_list_update)

lemma group_ok_single: "group_ok [q] [0]"
  by (simp add: group_ok_def)

lemma fanout_inv_step:
  assumes ok: "fanout_ok k sc cfgs" and inv: "fanout_inv k sc cfgs fo" and step: "fanout_step add cfgs fo fo'"
  shows "fanout_inv k sc cfgs fo'"
  using step
proof cases
  case (scan s sh st)
  let ?cfg = "cfgs ! s"
  have cfg: "exhaustive_kernel (cfg_index ?cfg) (sc s)" "batch_ok (cfg_index ?cfg) [cfg_query ?cfg]" "bq_k (cfg_query ?cfg) = k"
    using ok scan(2) by (auto simp: fanout_ok_def Let_def)
  have sh: "stream_inv k sc cfgs s sh" using inv scan by (simp add: fanout_inv_def)
  have stop: "sh_start sh \<le> chunk_stop ?cfg (sh_start sh)" "chunk_stop ?cfg (sh_start sh) \<le> index_len (cfg_index ?cfg)"
    using sh by (auto simp: chunk_stop_def stream_inv_def Let_def)
  obtain st' where "scan_group (cfg_index ?cfg) [cfg_query ?cfg] (node_closures add (cfg_knobs ?cfg))
      (sh_start sh) (chunk_stop ?cfg (sh_start sh)) [0] (sh_scan sh) = Some st'"
    "scan_inv (sc s) (index_len (cfg_index ?cfg)) [cfg_query ?cfg] (env_ok k (all_hits sc cfgs)) (\<lambda>_. global_floor k (all_hits sc cfgs))
      (\<lambda>qi. if qi \<in> set [0] then chunk_stop ?cfg (sh_start sh) else sh_start sh) st'"
    using scan_group_correct [OF cfg(1,2) node_feed [where sc = sc and add = add and kn = "cfg_knobs ?cfg", OF scan(2) cfg(3)] group_ok_single stop, of "\<lambda>_. sh_start sh" "sh_scan sh"] sh
    by (auto simp: stream_inv_def Let_def)
  then have "stream_inv k sc cfgs s (sh\<lparr>sh_scan := st, sh_start := chunk_stop ?cfg (sh_start sh)\<rparr>)"
    using sh scan(5) stop by (simp add: stream_inv_def Let_def scan_inv_def)
  then show ?thesis
    using inv scan(1,2) by (intro fanout_inv_update [OF inv]) (auto simp: fanout_inv_def)
next
  case (finish s sh)
  have "stream_inv k sc cfgs s sh" using inv finish by (simp add: fanout_inv_def)
  then have "stream_inv k sc cfgs s (sh\<lparr>sh_done := Some (done_hits (cfg_slot_offset (cfgs ! s)) (scan_heaps (sh_scan sh) ! 0))\<rparr>)"
    using finish(4) by (auto simp: stream_inv_def Let_def scan_inv_def)
  then show ?thesis
    using inv finish(1,2) by (intro fanout_inv_update [OF inv]) (auto simp: fanout_inv_def)
next
  case (observe s sh u us r t)
  have sh: "stream_inv k sc cfgs s sh" using inv observe by (simp add: fanout_inv_def)
  then have u: "floor_ok k (all_hits sc cfgs) u" using observe(5) by (simp add: stream_inv_def scan_inv_def env_ok_def Let_def)
  then have "stream_inv k sc cfgs s (in_env (\<lambda>e. e\<lparr>outbox := us\<rparr>) sh\<lparr>sh_raised := r\<rparr>)"
    using sh observe(5,6) by (auto simp: stream_inv_def Let_def scan_inv_def env_ok_def tracker_observe_def split: if_splits)
  moreover have "floor_ok k (all_hits sc cfgs) (tracker_current t)"
    using observe(6) u inv by (auto simp: tracker_observe_def fanout_inv_def split: if_splits)
  ultimately show ?thesis
    using inv observe(1,2) by (intro fanout_inv_update [OF inv]) (auto simp: fanout_inv_def)
next
  case (broadcast s sh fl)
  have sh: "stream_inv k sc cfgs s sh" using inv broadcast by (simp add: fanout_inv_def)
  then have "floor_ok k (all_hits sc cfgs) fl" "stream_inv k sc cfgs s (sh\<lparr>sh_raised := None\<rparr>)"
    using broadcast(4) by (auto simp: stream_inv_def Let_def)
  then show ?thesis
    using inv broadcast(1,2) by (intro fanout_inv_update [OF inv]) (auto simp: fanout_inv_def)
next
  case (forward s sh)
  have "stream_inv k sc cfgs s sh" "floor_ok k (all_hits sc cfgs) (fo_gfloor fo)" using inv forward by (simp_all add: fanout_inv_def)
  then have "stream_inv k sc cfgs s (sh\<lparr>sh_inbox := (if length (sh_inbox sh) < REQUEST_CAPACITY
      then sh_inbox sh @ [fo_gfloor fo] else sh_inbox sh)\<rparr>)"
    by (auto simp: stream_inv_def Let_def)
  then show ?thesis
    using inv forward(1,2) by (intro fanout_inv_update [OF inv]) (auto simp: fanout_inv_def)
next
  case (pump s sh u us)
  have "stream_inv k sc cfgs s sh" using inv pump by (simp add: fanout_inv_def)
  then have "stream_inv k sc cfgs s (in_env (node_pump u) sh\<lparr>sh_inbox := us\<rparr>)"
    using pump(4) by (auto simp: stream_inv_def Let_def scan_inv_def env_ok_def node_pump_def)
  then show ?thesis
    using inv pump(1,2) by (intro fanout_inv_update [OF inv]) (auto simp: fanout_inv_def)
next
  case (tick s sh ns d)
  have "stream_inv k sc cfgs s sh" using inv tick by (simp add: fanout_inv_def)
  then have "stream_inv k sc cfgs s (in_env (\<lambda>e. e\<lparr>now_ms := now_ms e + d, kernel_nanos := ns\<rparr>) sh)"
    by (auto simp: stream_inv_def Let_def scan_inv_def env_ok_def)
  then show ?thesis
    using inv tick(1,2) by (intro fanout_inv_update [OF inv]) (auto simp: fanout_inv_def)
qed

lemma fanout_inv_reach:
  assumes ok: "fanout_ok k sc cfgs" and reach: "fanout_reach add cfgs fo"
  shows "fanout_inv k sc cfgs fo"
  using reach by induction (auto intro: fanout_inv_init fanout_inv_step [OF ok])

lemma reach_steps: "(fanout_step add cfgs)\<^sup>*\<^sup>* fo fo' \<Longrightarrow> fanout_reach add cfgs fo \<Longrightarrow> fanout_reach add cfgs fo'"
  by (induction rule: rtranclp_induct) (auto intro: fanout_reach.step)

section \<open>The merge loses nothing\<close>

definition global_hit :: "shard_config list \<Rightarrow> nat \<Rightarrow> chunk_hit \<Rightarrow> merged_hit" where
  "global_hit cfgs s h = \<lparr>vector_id = cfg_slot_offset (cfgs ! s) + ucast (slot h), hit_shard = of_nat s, hit_score = score h\<rparr>"

lemma shard_hits_map: "shard_hits cfgs s = map (global_hit cfgs s)"
  by (rule ext) (simp add: shard_hits_def tag_hits_def done_hits_def global_hit_def)

lemma unat_ucast_u64: "unat (ucast (a :: u32) :: u64) = unat a"
  using unsigned_less [of a, where 'a = nat] by (simp add: unsigned_ucast_eq take_bit_nat_eq_self)

lemma ucast_u32_inject: "(ucast (a :: u32) :: u64) = ucast b \<Longrightarrow> a = b"
  by (metis unat_ucast_u64 unsigned_word_eqI)

lemma global_hit_inject:
  assumes "global_hit cfgs s h = global_hit cfgs t g" "s < 4294967296" "t < 4294967296"
  shows "s = t \<and> h = g"
proof -
  have "(of_nat s :: u32) = of_nat t" using assms(1) by (simp add: global_hit_def)
  then have "s = t" using assms(2,3) unat_of_nat_u32 by metis
  then show ?thesis using assms(1) ucast_u32_inject by (auto simp: global_hit_def)
qed

lemma distinct_concat_upt:
  assumes "\<And>s. s < n \<Longrightarrow> distinct (xs s)" "\<And>s t. s < n \<Longrightarrow> t < n \<Longrightarrow> s \<noteq> t \<Longrightarrow> set (xs s) \<inter> set (xs t) = {}"
  shows "distinct (concat (map xs [0..<n]))"
  using assms
proof (induction n)
  case (Suc n)
  have "x \<notin> set (xs n)" if "s < n" "x \<in> set (xs s)" for s x using Suc.prems(2) [of s n] that by auto
  moreover have "distinct (concat (map xs [0..<n]))" by (rule Suc.IH) (simp_all add: Suc.prems)
  ultimately show ?case using Suc.prems(1) [of n] by auto
qed simp

lemma distinct_shards:
  assumes "length cfgs \<le> 2 ^ 32" "\<And>s. s < length cfgs \<Longrightarrow> distinct (hs s)"
  shows "distinct (concat (map (\<lambda>s. shard_hits cfgs s (hs s)) [0..<length cfgs]))"
proof (rule distinct_concat_upt)
  fix s assume s: "s < length cfgs"
  then show "distinct (shard_hits cfgs s (hs s))"
    using assms global_hit_inject [of cfgs s _ s] by (auto simp: shard_hits_map distinct_map inj_on_def)
  fix t assume "t < length cfgs" "s \<noteq> t"
  then show "set (shard_hits cfgs s (hs s)) \<inter> set (shard_hits cfgs t (hs t)) = {}"
    using s assms(1) global_hit_inject [of cfgs s _ t] by (auto simp: shard_hits_map)
qed

lemma f32_eq_bits: "f32_eq a b \<Longrightarrow> a \<noteq> NEG_ZERO \<Longrightarrow> b \<noteq> NEG_ZERO \<Longrightarrow> a = b"
proof -
  have zero: "w = NEG_ZERO" if "sign_bit w" "magnitude w = 0" for w
    using that by (intro f32_eqI) (simp_all add: NEG_ZERO_def sign_bit_def magnitude_def)
  assume "f32_eq a b" "a \<noteq> NEG_ZERO" "b \<noteq> NEG_ZERO"
  then show "a = b"
    using magnitude_nonneg [of a] magnitude_nonneg [of b] zero [of a] zero [of b]
    by (intro f32_eqI) (auto simp: f32_eq_def f32_key_def split: if_splits)
qed

lemma below_beaten:
  assumes "global_floor k hits f" "f32_lt (hit_score x) f" "\<forall>h \<in> set hits. \<not> is_nan (hit_score h)"
  shows "hit_rank.beaten k hits x"
proof -
  have "cmp_hits y x = Less" if "\<not> f32_lt (hit_score y) f" "y \<in> set hits" for y
    using assms(2,3) that total_key_key [of "hit_score x" "hit_score y"]
    by (auto simp: cmp_hits_key hit_key_def f32_lt_def)
  then have "length (filter (\<lambda>h. \<not> f32_lt (hit_score h) f) hits) \<le> length (filter (\<lambda>y. cmp_hits y x = Less) hits)"
    by (intro length_filter_mono) simp
  then show ?thesis using assms(1) by (simp add: hit_rank.beaten_def global_floor_def)
qed

lemma global_hit_before:
  assumes before: "ranks_before y x" and z: "score x \<noteq> NEG_ZERO" "score y \<noteq> NEG_ZERO"
    and wrap: "unat (cfg_slot_offset (cfgs ! s)) + unat (slot x) < 2 ^ 64" "unat (cfg_slot_offset (cfgs ! s)) + unat (slot y) < 2 ^ 64"
  shows "cmp_hits (global_hit cfgs s y) (global_hit cfgs s x) = Less"
proof -
  let ?o = "cfg_slot_offset (cfgs ! s)"
  consider "f32_lt (score x) (score y)" | "f32_eq (score y) (score x)" "slot y < slot x"
    using before by (auto simp: ranks_before_def)
  then show ?thesis
  proof cases
    case 1
    then show ?thesis
      using total_key_key [of "score x" "score y"] by (simp add: cmp_hits_key hit_key_def global_hit_def f32_lt_def)
  next
    case 2
    have u: "unat (?o + ucast (slot h)) = unat ?o + unat (slot h)" if "unat ?o + unat (slot h) < 2 ^ 64" for h
      using that by (simp add: unat_word_ariths unat_ucast_u64)
    then have "?o + ucast (slot y) < ?o + ucast (slot x)"
      using 2(2) unfolding word_less_nat_alt u [OF wrap(1)] u [OF wrap(2)] by simp
    then show ?thesis using f32_eq_bits [OF 2(1) z(2,1)] by (simp add: cmp_hits_key hit_key_def global_hit_def)
  qed
qed

lemma shard_rows_okD:
  assumes "fanout_ok k sc cfgs" "s < length cfgs" "h \<in> set (shard_rows sc cfgs s)"
  shows "\<not> is_nan (score h)" "score h \<noteq> NEG_ZERO" "unat (cfg_slot_offset (cfgs ! s)) + unat (slot h) < 2 ^ 64"
proof -
  let ?cfg = "cfgs ! s"
  have c: "exhaustive_kernel (cfg_index ?cfg) (sc s)" "batch_ok (cfg_index ?cfg) [cfg_query ?cfg]"
    "unat (cfg_slot_offset ?cfg) + index_len (cfg_index ?cfg) \<le> 2 ^ 64" "\<forall>v i. sc s v i \<noteq> NEG_ZERO"
    using assms(1,2) unfolding fanout_ok_def Let_def by blast+
  have n: "index_len (cfg_index ?cfg) \<le> 4294967296" using c(2) unfolding batch_ok_def by auto
  obtain i where i: "h = hit_at (sc s (bq_vector (cfg_query ?cfg))) i" "i < index_len (cfg_index ?cfg)"
    using assms(3) by (auto simp: shard_rows_def set_rows)
  then have "unat (slot h) = i" using n by (simp add: hit_at_def unat_of_nat_u32)
  then show "unat (cfg_slot_offset ?cfg) + unat (slot h) < 2 ^ 64" using c(3) i(2) by simp
  show "\<not> is_nan (score h)" "score h \<noteq> NEG_ZERO"
    using c(1,4) by (simp_all add: exhaustive_kernel_def i(1) hit_at_def)
qed

lemma distinct_shard_rows: "fanout_ok k sc cfgs \<Longrightarrow> s < length cfgs \<Longrightarrow> distinct (shard_rows sc cfgs s)"
  unfolding shard_rows_def by (rule distinct_rows) (auto simp: fanout_ok_def batch_ok_def Let_def)

text \<open>A row missing from its shard's final heap is outranked by \<open>k\<close> hits of the whole corpus.\<close>

lemma missing_beaten:
  assumes ok: "fanout_ok k sc cfgs" and s: "s < length cfgs"
    and inv: "query_inv (sc s) (cfg_query (cfgs ! s)) (global_floor k (all_hits sc cfgs)) (index_len (cfg_index (cfgs ! s))) heap"
    and x: "x \<in> set (shard_rows sc cfgs s)" "x \<notin> set heap"
  shows "hit_rank.beaten k (all_hits sc cfgs) (global_hit cfgs s x)"
proof -
  have kq: "bq_k (cfg_query (cfgs ! s)) = k" "\<not> bq_keep_ties (cfg_query (cfgs ! s))"
    using ok s by (simp_all add: fanout_ok_def Let_def)
  have heap: "distinct heap" "set heap \<subseteq> set (shard_rows sc cfgs s)" using inv by (simp_all add: query_inv_def shard_rows_def)
  consider "beats False k heap x" | f where "global_floor k (all_hits sc cfgs) f" "f32_lt (score x) f"
    using inv x kq unfolding query_inv_def shard_rows_def by auto
  then show ?thesis
  proof cases
    case 1
    let ?P = "\<lambda>y. cmp_hits y (global_hit cfgs s x) = Less"
    have "k \<le> length (filter (\<lambda>y. ranks_before y x) heap)" using 1 by (simp add: chunk_cut.beats_def outranks_def)
    also have "\<dots> \<le> length (filter (?P \<circ> global_hit cfgs s) heap)"
      using heap(2) shard_rows_okD [OF ok s] x(1) by (intro length_filter_mono) (auto intro!: global_hit_before)
    also have "\<dots> \<le> length (filter (?P \<circ> global_hit cfgs s) (shard_rows sc cfgs s))"
      using heap distinct_shard_rows [OF ok s] by (auto simp flip: distinct_card intro!: card_mono)
    also have "\<dots> = length (filter ?P (shard_hits cfgs s (shard_rows sc cfgs s)))"
      by (simp add: shard_hits_map filter_map)
    also have "\<dots> \<le> length (filter ?P (all_hits sc cfgs))" by (rule filter_all_hits [OF s])
    finally show ?thesis by (simp add: hit_rank.beaten_def)
  next
    case 2
    have "\<forall>h \<in> set (all_hits sc cfgs). \<not> is_nan (hit_score h)"
      using shard_rows_okD(1) [OF ok] by (auto simp: all_hits_def shard_hits_map global_hit_def)
    then show ?thesis using below_beaten [OF 2(1)] 2(2) by (simp add: global_hit_def)
  qed
qed

lemma those_map: "those (map f xs) = (if \<forall>x \<in> set xs. f x \<noteq> None then Some (map (the \<circ> f) xs) else None)"
  by (induction xs) (auto split: option.splits)

lemma fanout_answer_done:
  assumes "fanout_answer k fo = Some ans" "length (fo_shards fo) = n"
  shows "\<forall>s < n. sh_done (fo_shards fo ! s) \<noteq> None"
    "ans = merge_topk (map (\<lambda>s. (of_nat s, the (sh_done (fo_shards fo ! s)))) [0..<n]) k"
proof -
  let ?g = "\<lambda>s. map_option (Pair (of_nat s :: u32)) (sh_done (fo_shards fo ! s))"
  have "List.enumerate 0 (fo_shards fo) = map (\<lambda>s. (s, fo_shards fo ! s)) [0..<n]"
    using assms(2) by (intro nth_equalityI) (simp_all add: nth_enumerate_eq)
  then have "shard_answers fo = those (map ?g [0..<n])"
    by (simp add: shard_answers_def o_def)
  then have a: "fanout_answer k fo = (if \<forall>s \<in> {0..<n}. ?g s \<noteq> None then Some (merge_topk (map (the \<circ> ?g) [0..<n]) k) else None)"
    unfolding fanout_answer_def those_map by simp
  then show d: "\<forall>s < n. sh_done (fo_shards fo ! s) \<noteq> None"
    using assms(1) by (auto split: if_splits)
  have g: "map (the \<circ> ?g) [0..<n] = map (\<lambda>s. (of_nat s, the (sh_done (fo_shards fo ! s)))) [0..<n]"
    using d by (intro map_cong refl) (auto simp: option.map_sel)
  show "ans = merge_topk (map (\<lambda>s. (of_nat s, the (sh_done (fo_shards fo ! s)))) [0..<n]) k"
    using a [unfolded g] assms(1) by (simp split: if_splits)
qed

text \<open>Once every shard is done, the merged answer is exact.\<close>

lemma answer_exact:
  assumes ok: "fanout_ok k sc cfgs" and reach: "fanout_reach add cfgs fo" and ans: "fanout_answer k fo = Some ans"
  shows "ans = take k (sort_by cmp_hits (all_hits sc cfgs))"
proof -
  let ?n = "length cfgs" and ?A = "all_hits sc cfgs"
  have inv: "fanout_inv k sc cfgs fo" by (rule fanout_inv_reach [OF ok reach])
  then have len: "length (fo_shards fo) = ?n" by (simp add: fanout_inv_def)
  note fin = fanout_answer_done [OF ans len]
  have "\<forall>s \<in> {0..<?n}. \<exists>heap. the (sh_done (fo_shards fo ! s)) = done_hits (cfg_slot_offset (cfgs ! s)) heap \<and>
      query_inv (sc s) (cfg_query (cfgs ! s)) (global_floor k ?A) (index_len (cfg_index (cfgs ! s))) heap"
    using inv fin(1) by (force simp: fanout_inv_def stream_inv_def Let_def)
  then obtain heap where heap: "s < ?n \<Longrightarrow> the (sh_done (fo_shards fo ! s)) = done_hits (cfg_slot_offset (cfgs ! s)) (heap s)"
    "s < ?n \<Longrightarrow> query_inv (sc s) (cfg_query (cfgs ! s)) (global_floor k ?A) (index_len (cfg_index (cfgs ! s))) (heap s)" for s
    by (auto dest!: bchoice)
  have n: "?n \<le> 2 ^ 32" using ok by (simp add: fanout_ok_def)
  let ?H = "concat (map (\<lambda>s. shard_hits cfgs s (heap s)) [0..<?n])"
  have sub: "set (heap s) \<subseteq> set (shard_rows sc cfgs s)" "distinct (heap s)" if "s < ?n" for s
    using heap(2) [OF that] by (simp_all add: query_inv_def shard_rows_def)
  have "ans = hit_rank.topk k ?H"
    unfolding fin(2) merge_topk_topk
    by (intro arg_cong [where f = "\<lambda>xs. hit_rank.topk k (concat xs)"]) (simp add: shard_hits_def heap(1))
  also have "\<dots> = hit_rank.topk k ?A"
  proof (rule hit_rank.topk_covering)
    show "distinct ?A" unfolding all_hits_def using distinct_shard_rows [OF ok] by (intro distinct_shards [OF n])
    show "distinct ?H" using sub by (intro distinct_shards [OF n])
    show "set ?H \<subseteq> set ?A" using sub by (fastforce simp: all_hits_def shard_hits_map)
    fix x assume x: "x \<in> set ?A" "x \<notin> set ?H"
    then obtain s h where h: "s < ?n" "h \<in> set (shard_rows sc cfgs s)" "x = global_hit cfgs s h"
      by (auto simp: all_hits_def shard_hits_map)
    moreover from this have "h \<notin> set (heap s)" using x(2) by (force simp: shard_hits_map)
    ultimately show "hit_rank.beaten k ?A x" using missing_beaten [OF ok _ heap(2)] by blast
  qed simp
  finally show ?thesis by (simp add: hit_rank.topk_def)
qed

section \<open>Every query can finish\<close>

definition rows_left :: "shard_config list \<Rightarrow> fanout \<Rightarrow> nat" where
  "rows_left cfgs fo = (\<Sum>s < length cfgs. index_len (cfg_index (cfgs ! s)) - sh_start (fo_shards fo ! s))"

definition streams_open :: "shard_config list \<Rightarrow> fanout \<Rightarrow> nat" where
  "streams_open cfgs fo = card {s. s < length cfgs \<and> sh_done (fo_shards fo ! s) = None}"

lemma scan_enabled:
  assumes ok: "fanout_ok k sc cfgs" and inv: "fanout_inv k sc cfgs fo" and s: "s < length cfgs"
    and left: "sh_start (fo_shards fo ! s) < index_len (cfg_index (cfgs ! s))"
  shows "\<exists>fo'. fanout_step add cfgs fo fo' \<and> rows_left cfgs fo' < rows_left cfgs fo"
proof -
  let ?cfg = "cfgs ! s" and ?sh = "fo_shards fo ! s"
  have cfg: "exhaustive_kernel (cfg_index ?cfg) (sc s)" "batch_ok (cfg_index ?cfg) [cfg_query ?cfg]" "bq_k (cfg_query ?cfg) = k"
    using ok s by (auto simp: fanout_ok_def Let_def)
  have sh: "stream_inv k sc cfgs s ?sh" and len: "length (fo_shards fo) = length cfgs" using inv s by (simp_all add: fanout_inv_def)
  have stop: "sh_start ?sh < chunk_stop ?cfg (sh_start ?sh)" "chunk_stop ?cfg (sh_start ?sh) \<le> index_len (cfg_index ?cfg)"
    using left by (auto simp: chunk_stop_def BLOCK_VECTORS_def)
  obtain st where "scan_group (cfg_index ?cfg) [cfg_query ?cfg] (node_closures add (cfg_knobs ?cfg))
      (sh_start ?sh) (chunk_stop ?cfg (sh_start ?sh)) [0] (sh_scan ?sh) = Some st"
    using scan_group_correct [OF cfg(1,2) node_feed [where sc = sc and add = add and kn = "cfg_knobs ?cfg", OF s cfg(3)]
        group_ok_single less_imp_le [OF stop(1)] stop(2), of "\<lambda>_. sh_start ?sh" "sh_scan ?sh"] sh
    by (auto simp: stream_inv_def Let_def)
  note step = fanout_step.scan [OF s refl left this]
  let ?fo' = "with_shard s (?sh\<lparr>sh_scan := st, sh_start := chunk_stop ?cfg (sh_start ?sh)\<rparr>) fo"
  have "rows_left cfgs ?fo' < rows_left cfgs fo"
    unfolding rows_left_def using s len left stop
    by (intro sum_strict_mono_ex1) (auto simp: nth_list_update intro!: bexI [of _ s])
  with step show ?thesis by blast
qed

lemma finish_enabled:
  assumes s: "s < length cfgs" and len: "length (fo_shards fo) = length cfgs"
    and full: "index_len (cfg_index (cfgs ! s)) \<le> sh_start (fo_shards fo ! s)" and open_s: "sh_done (fo_shards fo ! s) = None"
  shows "\<exists>fo'. fanout_step add cfgs fo fo' \<and> rows_left cfgs fo' = rows_left cfgs fo \<and> streams_open cfgs fo' < streams_open cfgs fo"
proof -
  let ?sh = "fo_shards fo ! s"
  let ?fo' = "with_shard s (?sh\<lparr>sh_done := Some (done_hits (cfg_slot_offset (cfgs ! s)) (scan_heaps (sh_scan ?sh) ! 0))\<rparr>) fo"
  have "rows_left cfgs ?fo' = rows_left cfgs fo"
    unfolding rows_left_def using len s by (intro sum.cong) (auto simp: nth_list_update)
  moreover have "streams_open cfgs ?fo' < streams_open cfgs fo"
    unfolding streams_open_def using s len open_s by (intro psubset_card_mono) (auto simp: nth_list_update split: if_splits)
  ultimately show ?thesis using fanout_step.finish [OF s refl full] by blast
qed

lemma answer_ready:
  assumes "length (fo_shards fo) = n" "\<forall>s < n. sh_done (fo_shards fo ! s) \<noteq> None"
  shows "\<exists>ans. fanout_answer k fo = Some ans"
proof -
  have "\<forall>x \<in> set (List.enumerate 0 (fo_shards fo)). map_option (\<lambda>hits. (of_nat (fst x) :: u32, hits)) (sh_done (snd x)) \<noteq> None"
    using assms by (auto simp: in_set_enumerate_eq)
  then show ?thesis unfolding fanout_answer_def shard_answers_def those_map by (auto simp: split_beta)
qed

lemma finish_from:
  assumes ok: "fanout_ok k sc cfgs" and reach: "fanout_reach add cfgs fo"
  shows "\<exists>fo' ans. (fanout_step add cfgs)\<^sup>*\<^sup>* fo fo' \<and> fanout_answer k fo' = Some ans"
  using reach
proof (induction "(rows_left cfgs fo, streams_open cfgs fo)" arbitrary: fo rule: wf_induct_rule [OF wf_lex_prod [OF wf_less_than wf_less_than]])
  case (1 fo)
  have inv: "fanout_inv k sc cfgs fo" by (rule fanout_inv_reach [OF ok 1(2)])
  then have len: "length (fo_shards fo) = length cfgs" by (simp add: fanout_inv_def)
  have via: ?case if "fanout_step add cfgs fo fo'" "rows_left cfgs fo' < rows_left cfgs fo \<or>
      rows_left cfgs fo' = rows_left cfgs fo \<and> streams_open cfgs fo' < streams_open cfgs fo" for fo'
    using 1(1) [OF _ fanout_reach.step [OF 1(2) that(1)]] that converse_rtranclp_into_rtranclp [of "fanout_step add cfgs"] by fastforce
  show ?case
  proof (cases "\<forall>s < length cfgs. sh_done (fo_shards fo ! s) \<noteq> None")
    case True
    then show ?thesis using answer_ready [OF len] by blast
  next
    case False
    then obtain s where s: "s < length cfgs" "sh_done (fo_shards fo ! s) = None" by blast
    show ?thesis
    proof (cases "sh_start (fo_shards fo ! s) < index_len (cfg_index (cfgs ! s))")
      case True
      then show ?thesis using scan_enabled [OF ok inv s(1)] via by blast
    next
      case False
      then show ?thesis using finish_enabled [OF s(1) len _ s(2)] via by (meson linorder_not_less)
    qed
  qed
qed

section \<open>Properties of the fan-out\<close>

text \<open>
  C1: the distributed floor protocol is lossless. In every interleaving of chunk scans,
  floor messages, drops and ticks, once every shard is done the coordinator's answer is the
  top \<open>k\<close> of all admitted rows of all shards, whatever the floors pruned.
\<close>

theorem fanout_lossless:
  assumes "fanout_ok k sc cfgs" "fanout_reach add cfgs fo" "fanout_answer k fo = Some ans"
  shows "ans = take k (sort_by cmp_hits (all_hits sc cfgs))"
  using assms by (rule answer_exact)


text \<open>
  C2: no interleaving blocks a query or spoils its answer. From every reachable state the
  shards can run to the end, and the answer is then the top \<open>k\<close> of the whole corpus: every
  chunk scan is defined, and scanning and finishing need no message from another shard.
\<close>

theorem fanout_can_finish:
  assumes "fanout_ok k sc cfgs" "fanout_reach add cfgs fo"
  shows "\<exists>fo'. (fanout_step add cfgs)\<^sup>*\<^sup>* fo fo' \<and>
    fanout_answer k fo' = Some (take k (sort_by cmp_hits (all_hits sc cfgs)))"
proof -
  obtain fo' ans where f: "(fanout_step add cfgs)\<^sup>*\<^sup>* fo fo'" "fanout_answer k fo' = Some ans"
    using finish_from [OF assms] by blast
  then have "fanout_reach add cfgs fo'" using reach_steps assms(2) by blast
  with f answer_exact [OF assms(1)] show ?thesis by blast
qed

text \<open>
  C27: the scan's order and the coordinator's order disagree on signed zeros. The scan treats
  \<open>-0.0\<close> and \<open>+0.0\<close> as a tie broken by slot, the merge ranks \<open>+0.0\<close> first: with \<open>k = 1\<close> the
  shard keeps slot 0 where the merge of the same two rows keeps slot 1.
\<close>

theorem signed_zero_orders_differ:
  "top_hits False 1 [\<lparr>slot = 0, score = NEG_ZERO\<rparr>, \<lparr>slot = 1, score = 0\<rparr>] = [\<lparr>slot = 0, score = NEG_ZERO\<rparr>] \<and>
   merge_topk [(0, done_hits 0 [\<lparr>slot = 0, score = NEG_ZERO\<rparr>, \<lparr>slot = 1, score = 0\<rparr>])] 1 =
     [\<lparr>vector_id = 1, hit_shard = 0, hit_score = 0\<rparr>]"
  by (simp add: top_hits_def outranks_def f32_lt_def f32_eq_def f32_key_def is_nan_def NEG_ZERO_def
      sign_bit_def magnitude_def cmp_chunk_def ranks_before_def merge_topk_def tag_hits_def done_hits_def
      cmp_hits_def total_cmp_def total_key_def cmp_lin_def then_with_def)

section \<open>Two shards at work\<close>

text \<open>Two shards of the two-row index, the second at slot offset two.\<close>

definition two_shards :: "shard_config list" where
  "two_shards = map (\<lambda>base. \<lparr>cfg_index = reference_index 2 1 two_rows, cfg_query = best_of_two, cfg_chunk_blocks = 1,
     cfg_slot_offset = base, cfg_knobs = \<lparr>share_floors = True, floor_warmup_chunks = 0, floor_delta = 0,
       floor_min_interval_ms = 0, response_capacity = 64\<rparr>\<rparr>) [0, 2]"

lemma two_shards_ok: "fanout_ok 1 (\<lambda>_. two_rows) two_shards"
proof -
  have "cfg = two_shards ! 0 \<or> cfg = two_shards ! 1 \<Longrightarrow> cfg_index cfg = reference_index 2 1 two_rows \<and> cfg_query cfg = best_of_two \<and>
    unat (cfg_slot_offset cfg) \<le> 2" for cfg by (auto simp: two_shards_def)
  then have "cfg_index (two_shards ! s) = reference_index 2 1 two_rows \<and> cfg_query (two_shards ! s) = best_of_two \<and>
    unat (cfg_slot_offset (two_shards ! s)) \<le> 2" if "s < 2" for s using that by (metis less_2_cases_iff One_nat_def)
  moreover have "two_rows v i \<noteq> NEG_ZERO" for v i by (simp add: two_rows_def NEG_ZERO_def)
  moreover have "bq_k best_of_two = 1" "\<not> bq_keep_ties best_of_two" "index_len (reference_index 2 1 two_rows) = 2" "length two_shards = 2"
    by (simp_all add: best_of_two_def reference_index_def two_shards_def)
  ultimately show ?thesis
    using two_rows_kernel two_rows_batch unfolding fanout_ok_def Let_def by fastforce
qed

lemma two_shards_hits:
  "take 1 (sort_by cmp_hits (all_hits (\<lambda>_. two_rows) two_shards)) = [\<lparr>vector_id = 1, hit_shard = 0, hit_score = 0x40000000\<rparr>]"
  using best_of_two_rows
  by (simp add: all_hits_def shard_hits_map global_hit_def shard_rows_def two_shards_def reference_index_def upt_rec
      cmp_hits_def total_cmp_def total_key_def cmp_lin_def then_with_def sign_bit_def)

theorem fanout_lossless_witness:
  "\<exists>fo. fanout_reach (\<lambda>a b. a) two_shards fo \<and>
     fanout_answer 1 fo = Some [\<lparr>vector_id = 1, hit_shard = 0, hit_score = 0x40000000\<rparr>]"
proof -
  obtain fo ans where "(fanout_step (\<lambda>a b. a) two_shards)\<^sup>*\<^sup>* (fanout_init two_shards) fo" "fanout_answer 1 fo = Some ans"
    using finish_from [OF two_shards_ok fanout_reach.init] by blast
  moreover from this have "fanout_reach (\<lambda>a b. a) two_shards fo" using reach_steps fanout_reach.init by blast
  ultimately show ?thesis using fanout_lossless [OF two_shards_ok, of "\<lambda>a b. a" fo ans] two_shards_hits by auto
qed


theorem fanout_can_finish_witness:
  "\<exists>fo'. (fanout_step (\<lambda>a b. a) two_shards)\<^sup>*\<^sup>* (fanout_init two_shards) fo' \<and>
     fanout_answer 1 fo' = Some [\<lparr>vector_id = 1, hit_shard = 0, hit_score = 0x40000000\<rparr>]"
  using fanout_can_finish [OF two_shards_ok fanout_reach.init, of "\<lambda>a b. a"] two_shards_hits by simp

end
