(* ===== verification/Float64.thy ===== *)
theory Float64
  imports Complex_Main Ranking
begin

text \<open>
  Doubles at their bit pattern, with the exact rational a finite double denotes: what the
  numeric filters, column summaries and placement bounds compare. \<open>f64::floor\<close> and
  \<open>f64::ceil\<close> of a finite double denote integers, which is how the casts after them read
  them; float arithmetic that rounds is not modelled here.
\<close>

section \<open>Bit patterns\<close>

type_synonym f64 = u64

definition f64_sign :: "f64 \<Rightarrow> bool" where
  "f64_sign w = bit w 63"

definition f64_magnitude :: "f64 \<Rightarrow> nat" where
  "f64_magnitude w = unat (take_bit 63 w)"

definition f64_is_nan :: "f64 \<Rightarrow> bool" where
  "f64_is_nan w = (0x7FF0000000000000 < f64_magnitude w)"

definition f64_is_infinite :: "f64 \<Rightarrow> bool" where
  "f64_is_infinite w = (f64_magnitude w = 0x7FF0000000000000)"

definition f64_is_finite :: "f64 \<Rightarrow> bool" where
  "f64_is_finite w = (f64_magnitude w < 0x7FF0000000000000)"

text \<open>
  The value in units of \<open>2^-1074\<close>, the least positive double. The pattern of infinity reads
  as \<open>2^1024\<close>, above every finite double, so one order covers both.
\<close>

definition magnitude_units :: "nat \<Rightarrow> nat" where
  "magnitude_units m =
     (if m div 2 ^ 52 = 0 then m mod 2 ^ 52 else (2 ^ 52 + m mod 2 ^ 52) * 2 ^ (m div 2 ^ 52 - 1))"

definition f64_units :: "f64 \<Rightarrow> int" where
  "f64_units w = (if f64_sign w then - int (magnitude_units (f64_magnitude w))
                  else int (magnitude_units (f64_magnitude w)))"

definition f64_value :: "f64 \<Rightarrow> rat" where
  "f64_value w = of_int (f64_units w) / 2 ^ 1074"

text \<open>IEEE comparisons, \<open>total_cmp\<close>, and the integer parts.\<close>

definition f64_key :: "f64 \<Rightarrow> int" where
  "f64_key w = (if f64_sign w then - int (f64_magnitude w) else int (f64_magnitude w))"

definition f64_lt :: "f64 \<Rightarrow> f64 \<Rightarrow> bool" where
  "f64_lt a b = (\<not> f64_is_nan a \<and> \<not> f64_is_nan b \<and> f64_key a < f64_key b)"

definition f64_le :: "f64 \<Rightarrow> f64 \<Rightarrow> bool" where
  "f64_le a b = (\<not> f64_is_nan a \<and> \<not> f64_is_nan b \<and> f64_key a \<le> f64_key b)"

definition f64_eq :: "f64 \<Rightarrow> f64 \<Rightarrow> bool" where
  "f64_eq a b = (\<not> f64_is_nan a \<and> \<not> f64_is_nan b \<and> f64_key a = f64_key b)"

definition f64_total_key :: "f64 \<Rightarrow> int" where
  "f64_total_key w = (if f64_sign w then - int (f64_magnitude w) - 1 else int (f64_magnitude w))"

definition f64_total_cmp :: "f64 \<Rightarrow> f64 \<Rightarrow> ordering" where
  "f64_total_cmp a b = cmp_lin (f64_total_key a) (f64_total_key b)"

definition f64_floor :: "f64 \<Rightarrow> int" where
  "f64_floor w = f64_units w div 2 ^ 1074"

definition f64_ceil :: "f64 \<Rightarrow> int" where
  "f64_ceil w = - ((- f64_units w) div 2 ^ 1074)"

text \<open>\<open>x > x.floor()\<close>: the double lies above the integer.\<close>

definition f64_above_int :: "f64 \<Rightarrow> int \<Rightarrow> bool" where
  "f64_above_int w z = (z * 2 ^ 1074 < f64_units w)"

text \<open>Saturating casts of an integral double, and the powers of two the code compares with.\<close>

definition saturate :: "int \<Rightarrow> int \<Rightarrow> int \<Rightarrow> int" where
  "saturate lo hi z = max lo (min hi z)"

definition TWO_63 :: f64 where "TWO_63 = 0x43E0000000000000"

definition NEG_TWO_63 :: f64 where "NEG_TWO_63 = 0xC3E0000000000000"

definition TWO_64 :: f64 where "TWO_64 = 0x43F0000000000000"

section \<open>The order of the values\<close>

lemma magnitude_units_mono: "m < n \<Longrightarrow> magnitude_units m < magnitude_units n"
proof -
  assume mn: "m < n"
  let ?e = "m div 2 ^ 52" and ?f = "m mod 2 ^ 52" and ?e' = "n div 2 ^ 52" and ?f' = "n mod 2 ^ 52"
  have le: "?e \<le> ?e'" using mn by (intro div_le_mono) simp
  have f: "?f < 2 ^ 52" "?f' < 2 ^ 52" by simp_all
  show ?thesis
  proof (cases "?e = ?e'")
    case True
    then have "?f < ?f'" using mn by (metis div_mult_mod_eq nat_add_left_cancel_less)
    then show ?thesis using True mn by (simp add: magnitude_units_def)
  next
    case False
    then have lt: "?e < ?e'" using le by simp
    have "magnitude_units m < 2 ^ 52 * 2 ^ ?e"
    proof (cases "?e = 0")
      case True
      then show ?thesis using f(1) unfolding magnitude_units_def by simp
    next
      case False
      then have "(2 ^ 52 + ?f) * 2 ^ (?e - 1) < (2 * 2 ^ 52) * 2 ^ (?e - 1)"
        using f(1) by (intro mult_strict_right_mono) simp_all
      also have "\<dots> = 2 ^ 52 * 2 ^ ?e" using False by (cases ?e) simp_all
      finally show ?thesis using False unfolding magnitude_units_def by simp
    qed
    also have "\<dots> \<le> 2 ^ 52 * 2 ^ (?e' - 1)" using lt by (intro mult_le_mono power_increasing) simp_all
    also have "\<dots> \<le> magnitude_units n" using lt unfolding magnitude_units_def by simp
    finally show ?thesis .
  qed
qed

lemma strict_mono_magnitude_units: "strict_mono magnitude_units"
  by (rule strict_monoI) (rule magnitude_units_mono)

lemma magnitude_units_less [simp]: "magnitude_units m < magnitude_units n \<longleftrightarrow> m < n"
  by (rule strict_mono_less [OF strict_mono_magnitude_units])

lemma magnitude_units_0 [simp]: "magnitude_units 0 = 0"
  by (simp add: magnitude_units_def)

lemma f64_units_less: "f64_units a < f64_units b \<longleftrightarrow> f64_key a < f64_key b"
proof -
  have unit0: "0 < magnitude_units m \<longleftrightarrow> 0 < m" for m using magnitude_units_less [of 0 m] by simp
  have neg: "- int x < int y \<longleftrightarrow> 0 < x \<or> 0 < y" "\<not> int x < - int y" for x y :: nat by auto
  show ?thesis by (cases "f64_sign a"; cases "f64_sign b") (simp_all add: f64_units_def f64_key_def neg unit0)
qed

lemma f64_units_le: "f64_units a \<le> f64_units b \<longleftrightarrow> f64_key a \<le> f64_key b"
  using f64_units_less [of b a] by (simp add: linorder_not_less [symmetric])

lemma f64_value_less: "f64_value a < f64_value b \<longleftrightarrow> f64_key a < f64_key b"
  by (simp add: f64_value_def divide_less_cancel f64_units_less)

lemma f64_value_le: "f64_value a \<le> f64_value b \<longleftrightarrow> f64_key a \<le> f64_key b"
  by (simp add: linorder_not_less [symmetric] f64_value_less)

lemma f64_value_eq: "f64_value a = f64_value b \<longleftrightarrow> f64_key a = f64_key b"
  by (simp add: order_eq_iff f64_value_le)

lemma f64_lt_value: "\<not> f64_is_nan a \<Longrightarrow> \<not> f64_is_nan b \<Longrightarrow> f64_lt a b \<longleftrightarrow> f64_value a < f64_value b"
  by (simp add: f64_lt_def f64_value_less)

lemma f64_le_value: "\<not> f64_is_nan a \<Longrightarrow> \<not> f64_is_nan b \<Longrightarrow> f64_le a b \<longleftrightarrow> f64_value a \<le> f64_value b"
  by (simp add: f64_le_def f64_value_le)

text \<open>\<open>total_cmp\<close> is the value order once \<open>-0.0\<close> has been normalised away.\<close>

lemma f64_total_key_value:
  assumes "a \<noteq> 0x8000000000000000" "b \<noteq> 0x8000000000000000"
  shows "f64_total_key a < f64_total_key b \<longleftrightarrow> f64_value a < f64_value b"
proof -
  have "w = 0x8000000000000000" if "f64_sign w" "f64_magnitude w = 0" for w
  proof (rule bit_word_eqI)
    fix n assume "n < LENGTH(64)"
    have "take_bit 63 w = 0" using that(2) by (simp add: f64_magnitude_def unsigned_eq_0_iff)
    then have "n < 63 \<Longrightarrow> \<not> bit w n" by (metis bit_take_bit_iff bit_0_eq bot_apply bot_bool_def)
    moreover have "(0x8000000000000000 :: u64) = push_bit 63 1" by simp
    ultimately show "bit w n = bit (0x8000000000000000 :: u64) n"
      using that(1) \<open>n < LENGTH(64)\<close> unfolding f64_sign_def
      by (cases "n = 63") (auto simp only: bit_push_bit_iff, auto simp: bit_simps)
  qed
  with assms have "f64_sign a \<Longrightarrow> 0 < f64_magnitude a" "f64_sign b \<Longrightarrow> 0 < f64_magnitude b" by blast+
  then show ?thesis unfolding f64_value_less
    by (cases "f64_sign a"; cases "f64_sign b") (auto simp: f64_total_key_def f64_key_def)
qed

section \<open>Integer parts\<close>

lemma f64_floor_value: "f64_floor w = \<lfloor>f64_value w\<rfloor>"
proof -
  have "f64_value w = of_int (f64_units w) / of_int (2 ^ 1074)" by (simp add: f64_value_def)
  then show ?thesis unfolding f64_floor_def by (simp only: floor_divide_of_int_eq)
qed

lemma f64_ceil_value: "f64_ceil w = \<lceil>f64_value w\<rceil>"
proof -
  have "- f64_value w = of_int (- f64_units w) / of_int (2 ^ 1074)" by (simp add: f64_value_def)
  then show ?thesis unfolding f64_ceil_def ceiling_def by (simp only: floor_divide_of_int_eq)
qed

lemma f64_above_int_value: "f64_above_int w z \<longleftrightarrow> of_int z < f64_value w"
proof -
  have "of_int z < f64_value w \<longleftrightarrow> (of_int (z * 2 ^ 1074) :: rat) < of_int (f64_units w)"
    by (simp add: f64_value_def pos_less_divide_eq)
  then show ?thesis unfolding f64_above_int_def by (simp only: of_int_less_iff)
qed

lemma f64_constants:
  "f64_value TWO_63 = 2 ^ 63" "f64_value NEG_TWO_63 = - (2 ^ 63)" "f64_value TWO_64 = 2 ^ 64" "f64_value 0 = 0"
  "\<not> f64_is_nan TWO_63" "\<not> f64_is_nan NEG_TWO_63" "\<not> f64_is_nan TWO_64" "\<not> f64_is_nan 0"
  by (simp_all add: f64_value_def f64_units_def f64_sign_def f64_magnitude_def magnitude_units_def
      f64_is_nan_def TWO_63_def NEG_TWO_63_def TWO_64_def bit_numeral_word_iff)

text \<open>An infinity denotes \<open>2^1024\<close> or its negation.\<close>

lemma f64_infinite_value:
  assumes "f64_is_infinite w"
  shows "f64_value w = (if f64_sign w then - (2 ^ 1024) else 2 ^ 1024)"
proof -
  have "magnitude_units 0x7FF0000000000000 = 2 ^ 1024 * 2 ^ 1074" by (simp add: magnitude_units_def)
  then have "f64_units w = (if f64_sign w then - (2 ^ 1024 * 2 ^ 1074) else 2 ^ 1024 * 2 ^ 1074)"
    using assms by (simp add: f64_units_def f64_is_infinite_def)
  then show ?thesis by (simp add: f64_value_def)
qed

end
