(* ===== verification/Filter_Eval.thy ===== *)
theory Filter_Eval
  imports Float64
begin

text \<open>
  Compiled filter predicates (\<open>src/filter.rs\<close>): Kleene logic, the exact comparisons of
  doubles with integer bounds, the normalised integer ranges, the resolved filter tree and
  its evaluation, and the validation of the wire tree. Geo regions are those of
  \<open>src/geo.rs\<close>, their distance functions a parameter; a geo filter's validation is that of
  \<open>src/node.rs\<close>.

  Messages are the source's format strings; interpolated values are not rendered.
\<close>

section \<open>Kleene logic\<close>

datatype tri = TFalse | TUnknown | TTrue

instantiation tri :: linorder
begin

fun tri_rank :: "tri \<Rightarrow> nat" where
  "tri_rank TFalse = 0"
| "tri_rank TUnknown = 1"
| "tri_rank TTrue = 2"

definition less_eq_tri :: "tri \<Rightarrow> tri \<Rightarrow> bool" where
  "less_eq_tri a b \<longleftrightarrow> tri_rank a \<le> tri_rank b"

definition less_tri :: "tri \<Rightarrow> tri \<Rightarrow> bool" where
  "less_tri a b \<longleftrightarrow> tri_rank a < tri_rank b"

instance
proof
  fix a b c :: tri
  show "a < b \<longleftrightarrow> a \<le> b \<and> \<not> b \<le> a" "a \<le> a" "a \<le> b \<Longrightarrow> b \<le> c \<Longrightarrow> a \<le> c" "a \<le> b \<or> b \<le> a"
    by (auto simp: less_eq_tri_def less_tri_def)
  show "a \<le> b \<Longrightarrow> b \<le> a \<Longrightarrow> a = b" by (cases a; cases b) (simp_all add: less_eq_tri_def)
qed

end

definition tri_of :: "bool \<Rightarrow> tri" where
  "tri_of b = (if b then TTrue else TFalse)"

definition tri_and :: "tri \<Rightarrow> tri \<Rightarrow> tri" where
  "tri_and a b = min a b"

definition tri_or :: "tri \<Rightarrow> tri \<Rightarrow> tri" where
  "tri_or a b = max a b"

fun tri_not :: "tri \<Rightarrow> tri" where
  "tri_not TTrue = TFalse"
| "tri_not TFalse = TTrue"
| "tri_not TUnknown = TUnknown"

section \<open>Range edges\<close>

datatype num_bound = BoundI int | BoundU u64 | BoundF f64

record edge =
  edge_value :: num_bound
  edge_exclusive :: bool

definition cmp_f64_i64 :: "f64 \<Rightarrow> int \<Rightarrow> ordering" where
  "cmp_f64_i64 x n =
     (if f64_is_infinite x then (if f64_lt 0 x then Greater else Less)
      else if f64_le TWO_63 x then Greater
      else if f64_lt x NEG_TWO_63 then Less
      else
        (let fx = f64_floor x; xi = saturate i64_min i64_max fx in
         case cmp_lin xi n of
           Equal \<Rightarrow> if f64_above_int x fx then Greater else Equal
         | r \<Rightarrow> r))"

definition cmp_f64_u64 :: "f64 \<Rightarrow> u64 \<Rightarrow> ordering" where
  "cmp_f64_u64 x n =
     (if f64_lt x 0 then Less
      else if f64_le TWO_64 x then Greater
      else
        (let fx = f64_floor x in
         case cmp_lin (saturate 0 (2 ^ 64 - 1) fx) (uint n) of
           Equal \<Rightarrow> if f64_above_int x fx then Greater else Equal
         | r \<Rightarrow> r))"

definition cmp_edge :: "edge \<Rightarrow> f64 \<Rightarrow> ordering" where
  "cmp_edge b v =
     (let v = (if f64_eq v 0 then 0 else v) in
      case edge_value b of
        BoundF x \<Rightarrow> f64_total_cmp v x
      | BoundI n \<Rightarrow> cmp_f64_i64 v n
      | BoundU n \<Rightarrow> cmp_f64_u64 v n)"

definition admits_from_below :: "edge \<Rightarrow> f64 \<Rightarrow> bool" where
  "admits_from_below b v =
     (if edge_exclusive b then cmp_edge b v = Greater else cmp_edge b v \<noteq> Less)"

definition admits_from_above :: "edge \<Rightarrow> f64 \<Rightarrow> bool" where
  "admits_from_above b v =
     (if edge_exclusive b then cmp_edge b v = Less else cmp_edge b v \<noteq> Greater)"

text \<open>The arithmetic of the integer edges runs in \<open>i128\<close>, whose casts from doubles saturate.\<close>

definition sat_i128 :: "int \<Rightarrow> int" where
  "sat_i128 = saturate (- (2 ^ 127)) (2 ^ 127 - 1)"

definition int_lower :: "edge \<Rightarrow> int option" where
  "int_lower b =
     (let lo = (case edge_value b of
                  BoundI n \<Rightarrow> n + of_bool (edge_exclusive b)
                | BoundU n \<Rightarrow> uint n + of_bool (edge_exclusive b)
                | BoundF x \<Rightarrow> if edge_exclusive b then sat_i128 (sat_i128 (f64_floor x) + 1)
                             else sat_i128 (f64_ceil x))
      in if i64_max < lo then None else Some (max lo i64_min))"

definition int_upper :: "edge \<Rightarrow> int option" where
  "int_upper b =
     (let hi = (case edge_value b of
                  BoundI n \<Rightarrow> n - of_bool (edge_exclusive b)
                | BoundU n \<Rightarrow> uint n - of_bool (edge_exclusive b)
                | BoundF x \<Rightarrow> if edge_exclusive b then sat_i128 (sat_i128 (f64_ceil x) - 1)
                             else sat_i128 (f64_floor x))
      in if hi < i64_min then None else Some (min hi i64_max))"

definition int_range :: "edge option \<Rightarrow> edge option \<Rightarrow> int \<times> int" where
  "int_range mn mx =
     (case (case mn of None \<Rightarrow> Some i64_min | Some b \<Rightarrow> int_lower b,
            case mx of None \<Rightarrow> Some i64_max | Some b \<Rightarrow> int_upper b) of
        (Some lo, Some hi) \<Rightarrow> (lo, hi)
      | _ \<Rightarrow> (1, 0))"

text \<open>\<open>u64::try_from\<close> of an \<open>i128\<close>.\<close>

definition u64_try_from :: "int \<Rightarrow> u64 option" where
  "u64_try_from z = (if 0 \<le> z \<and> z < 2 ^ 64 then Some (word_of_int z) else None)"

definition uint_lower :: "edge \<Rightarrow> u64 option" where
  "uint_lower b =
     (case edge_value b of
        BoundI n \<Rightarrow> u64_try_from (max (n + of_bool (edge_exclusive b)) 0)
      | BoundU n \<Rightarrow> u64_try_from (max (uint n + of_bool (edge_exclusive b)) 0)
      | BoundF x \<Rightarrow>
          if f64_lt x 0 then Some 0
          else if f64_le TWO_64 x then None
          else u64_try_from (max (if edge_exclusive b then sat_i128 (f64_floor x) + 1 else sat_i128 (f64_ceil x)) 0))"

definition uint_upper :: "edge \<Rightarrow> u64 option" where
  "uint_upper b =
     (case edge_value b of
        BoundI n \<Rightarrow> u64_try_from (min (n - of_bool (edge_exclusive b)) (2 ^ 64 - 1))
      | BoundU n \<Rightarrow> u64_try_from (min (uint n - of_bool (edge_exclusive b)) (2 ^ 64 - 1))
      | BoundF x \<Rightarrow>
          if f64_lt x 0 then None
          else if f64_le TWO_64 x then Some (- 1)
          else u64_try_from (min (if edge_exclusive b then sat_i128 (f64_ceil x) - 1 else sat_i128 (f64_floor x)) (2 ^ 64 - 1)))"

definition uint_range :: "edge option \<Rightarrow> edge option \<Rightarrow> u64 \<times> u64" where
  "uint_range mn mx =
     (case (case mn of None \<Rightarrow> Some 0 | Some b \<Rightarrow> uint_lower b,
            case mx of None \<Rightarrow> Some (- 1) | Some b \<Rightarrow> uint_upper b) of
        (Some lo, Some hi) \<Rightarrow> (lo, hi)
      | _ \<Rightarrow> (1, 0))"

section \<open>Geo regions\<close>

datatype geo_metric = Haversine | Manhattan

datatype geo_region =
    Bbox (min_lat: f64) (max_lat: f64) (min_lon: f64) (max_lon: f64)
  | Radius (r_lat: f64) (r_lon: f64) (r_meters: f64) (r_metric: geo_metric)

type_synonym meters = "geo_metric \<Rightarrow> f64 \<Rightarrow> f64 \<Rightarrow> f64 \<Rightarrow> f64 \<Rightarrow> f64"

fun region_contains :: "meters \<Rightarrow> geo_region \<Rightarrow> f64 \<Rightarrow> f64 \<Rightarrow> bool" where
  "region_contains gd (Bbox la ha lo ho) lat lon =
     (f64_le la lat \<and> f64_le lat ha \<and> f64_le lo lon \<and> f64_le lon ho)"
| "region_contains gd (Radius olat olon r metric) lat lon = f64_le (gd metric olat olon lat lon) r"

section \<open>Resolved filters\<close>

text \<open>The column reads of one shard, \<open>NumericRead\<close>.\<close>

record numeric_read =
  num_value :: "nat \<Rightarrow> u32 \<Rightarrow> f64 option"
  map_value :: "nat \<Rightarrow> u32 \<Rightarrow> u32 \<Rightarrow> f64 option"
  map_int_value :: "nat \<Rightarrow> u32 \<Rightarrow> u32 \<Rightarrow> int option"
  map_uint_value :: "nat \<Rightarrow> u32 \<Rightarrow> u32 \<Rightarrow> u64 option"
  int_value :: "nat \<Rightarrow> u32 \<Rightarrow> int option"
  uint_value :: "nat \<Rightarrow> u32 \<Rightarrow> u64 option"
  geo_value :: "nat \<Rightarrow> u32 \<Rightarrow> (f64 \<times> f64) option"
  facet_ord :: "nat \<Rightarrow> u32 \<Rightarrow> u32 option"
  map_facet_value_ord :: "nat \<Rightarrow> u32 \<Rightarrow> u32 \<Rightarrow> u32 option"

datatype map_key_ref =
    KeyInteger nat "u32 option"
  | KeyUnsignedInteger nat "u32 option"
  | KeyFacet nat "u32 option"
  | KeyNumeric nat "u32 option"
  | KeyUnknown

datatype resolved_leaf =
    RFacet "nat option" "u32 list"
  | RIntRange nat int int
  | RUintRange nat u64 u64
  | RF64Range nat "edge option" "edge option"
  | RNumberUnknown
  | RMapFacet "(nat \<times> u32) option" "u32 list"
  | RMapNumber "(nat \<times> u32) option" "edge option" "edge option"
  | RMapIntRange "(nat \<times> u32) option" int int
  | RMapUintRange "(nat \<times> u32) option" u64 u64
  | RMapHasKey map_key_ref
  | RHas "nat option" "nat option" "nat option" "nat option" "nat option"
  | RGeo "nat option" geo_region
  | RFacetOrdRange "nat option" u32 u32
  | RMapFacetOrdRange "(nat \<times> u32) option" u32 u32

definition in_edges :: "edge option \<Rightarrow> edge option \<Rightarrow> f64 \<Rightarrow> bool" where
  "in_edges lo hi v = ((case lo of None \<Rightarrow> True | Some b \<Rightarrow> admits_from_below b v) \<and>
                     (case hi of None \<Rightarrow> True | Some b \<Rightarrow> admits_from_above b v))"

text \<open>The verdict on a value that may be absent.\<close>

definition tri_opt :: "'a option \<Rightarrow> ('a \<Rightarrow> bool) \<Rightarrow> tri" where
  "tri_opt v P = (case v of None \<Rightarrow> TUnknown | Some x \<Rightarrow> tri_of (P x))"

definition present :: "'a option \<Rightarrow> ('a \<Rightarrow> 'b option) \<Rightarrow> bool" where
  "present column read = (case column of None \<Rightarrow> False | Some i \<Rightarrow> read i \<noteq> None)"

text \<open>\<open>binary_search\<close> over sorted ordinals is membership.\<close>

fun leaf_eval :: "meters \<Rightarrow> numeric_read \<Rightarrow> u32 \<Rightarrow> resolved_leaf \<Rightarrow> tri" where
  "leaf_eval gd cols d (RFacet column ords) =
     tri_opt (Option.bind column (\<lambda>fi. facet_ord cols fi d)) (\<lambda>x. x \<in> set ords)"
| "leaf_eval gd cols d (RIntRange column lo hi) = tri_opt (int_value cols column d) (\<lambda>v. lo \<le> v \<and> v \<le> hi)"
| "leaf_eval gd cols d (RUintRange column lo hi) = tri_opt (uint_value cols column d) (\<lambda>v. lo \<le> v \<and> v \<le> hi)"
| "leaf_eval gd cols d (RF64Range column lo hi) = tri_opt (num_value cols column d) (in_edges lo hi)"
| "leaf_eval gd cols d RNumberUnknown = TUnknown"
| "leaf_eval gd cols d (RMapFacet target ords) =
     tri_opt (Option.bind target (\<lambda>(ci, key). map_facet_value_ord cols ci key d)) (\<lambda>x. x \<in> set ords)"
| "leaf_eval gd cols d (RMapNumber target lo hi) =
     tri_opt (Option.bind target (\<lambda>(ci, key). map_value cols ci key d)) (in_edges lo hi)"
| "leaf_eval gd cols d (RMapIntRange target lo hi) =
     tri_opt (Option.bind target (\<lambda>(ci, key). map_int_value cols ci key d)) (\<lambda>v. lo \<le> v \<and> v \<le> hi)"
| "leaf_eval gd cols d (RMapUintRange target lo hi) =
     tri_opt (Option.bind target (\<lambda>(ci, key). map_uint_value cols ci key d)) (\<lambda>v. lo \<le> v \<and> v \<le> hi)"
| "leaf_eval gd cols d (RMapHasKey target) =
     (case target of
        KeyInteger column (Some key) \<Rightarrow> tri_of (map_int_value cols column key d \<noteq> None)
      | KeyUnsignedInteger column (Some key) \<Rightarrow> tri_of (map_uint_value cols column key d \<noteq> None)
      | KeyFacet column (Some key) \<Rightarrow> tri_of (map_facet_value_ord cols column key d \<noteq> None)
      | KeyNumeric column (Some key) \<Rightarrow> tri_of (map_value cols column key d \<noteq> None)
      | _ \<Rightarrow> TFalse)"
| "leaf_eval gd cols d (RHas facet numeric integer unsigned_integer geo) =
     tri_of (present facet (\<lambda>i. facet_ord cols i d) \<or> present numeric (\<lambda>i. num_value cols i d) \<or>
             present integer (\<lambda>i. int_value cols i d) \<or> present unsigned_integer (\<lambda>i. uint_value cols i d) \<or>
             present geo (\<lambda>i. geo_value cols i d))"
| "leaf_eval gd cols d (RGeo column region) =
     tri_opt (Option.bind column (\<lambda>gi. geo_value cols gi d)) (\<lambda>(lat, lon). region_contains gd region lat lon)"
| "leaf_eval gd cols d (RFacetOrdRange column lo hi) =
     tri_opt (Option.bind column (\<lambda>fi. facet_ord cols fi d)) (\<lambda>x. lo \<le> x \<and> x < hi)"
| "leaf_eval gd cols d (RMapFacetOrdRange target lo hi) =
     tri_opt (Option.bind target (\<lambda>(ci, key). map_facet_value_ord cols ci key d)) (\<lambda>x. lo \<le> x \<and> x < hi)"

datatype resolved_filter =
    RAnd "resolved_filter list"
  | ROr "resolved_filter list"
  | RNot resolved_filter
  | RLeaf resolved_leaf

text \<open>The loops with their early returns.\<close>

fun filter_eval :: "meters \<Rightarrow> numeric_read \<Rightarrow> u32 \<Rightarrow> resolved_filter \<Rightarrow> tri"
  and eval_and :: "meters \<Rightarrow> numeric_read \<Rightarrow> u32 \<Rightarrow> tri \<Rightarrow> resolved_filter list \<Rightarrow> tri"
  and eval_or :: "meters \<Rightarrow> numeric_read \<Rightarrow> u32 \<Rightarrow> tri \<Rightarrow> resolved_filter list \<Rightarrow> tri" where
  "filter_eval gd cols d (RAnd children) = eval_and gd cols d TTrue children"
| "filter_eval gd cols d (ROr children) = eval_or gd cols d TFalse children"
| "filter_eval gd cols d (RNot child) = tri_not (filter_eval gd cols d child)"
| "filter_eval gd cols d (RLeaf leaf) = leaf_eval gd cols d leaf"
| "eval_and gd cols d acc [] = acc"
| "eval_and gd cols d acc (c # cs) =
     (case filter_eval gd cols d c of
        TFalse \<Rightarrow> TFalse
      | v \<Rightarrow> eval_and gd cols d (tri_and acc v) cs)"
| "eval_or gd cols d acc [] = acc"
| "eval_or gd cols d acc (c # cs) =
     (case filter_eval gd cols d c of
        TTrue \<Rightarrow> TTrue
      | v \<Rightarrow> eval_or gd cols d (tri_or acc v) cs)"

text \<open>
  Everything a request filters by. The phrase gates read positions through an index that is
  not modelled here; each is the test it performs.
\<close>

record doc_filter =
  df_deleted :: "u64 list option"
  df_geo :: "(nat option \<times> geo_region) list"
  df_pred :: "resolved_filter option"
  df_phrase :: "(u32 \<Rightarrow> bool) list"

definition geo_passes :: "meters \<Rightarrow> numeric_read \<Rightarrow> u32 \<Rightarrow> (nat option \<times> geo_region) list \<Rightarrow> bool" where
  "geo_passes gd cols d filters =
     list_all (\<lambda>(column, region).
       (case Option.bind column (\<lambda>gi. geo_value cols gi d) of
          None \<Rightarrow> False
        | Some (lat, lon) \<Rightarrow> region_contains gd region lat lon)) filters"

definition doc_passes :: "meters \<Rightarrow> numeric_read \<Rightarrow> doc_filter \<Rightarrow> u32 \<Rightarrow> bool" where
  "doc_passes gd cols flt d =
     (\<not> (case df_deleted flt of
            None \<Rightarrow> False
          | Some words \<Rightarrow>
              (case nth_opt words (unat d div 64) of
                 None \<Rightarrow> False
               | Some w \<Rightarrow> w AND bit_mask (unat d mod 64) \<noteq> 0)) \<and>
      geo_passes gd cols d (df_geo flt) \<and>
      (case df_pred flt of None \<Rightarrow> True | Some p \<Rightarrow> filter_eval gd cols d p = TTrue) \<and>
      list_all (\<lambda>gate. gate d) (df_phrase flt))"

section \<open>The comparisons are exact\<close>

declare of_int_uint [simp del]

text \<open>The number an edge is written with, and what it admits.\<close>

fun bound_value_of :: "num_bound \<Rightarrow> rat" where
  "bound_value_of (BoundI n) = of_int n"
| "bound_value_of (BoundU n) = of_int (uint n)"
| "bound_value_of (BoundF x) = f64_value x"

definition above_edge :: "edge \<Rightarrow> rat \<Rightarrow> bool" where
  "above_edge b q = (if edge_exclusive b then bound_value_of (edge_value b) < q else bound_value_of (edge_value b) \<le> q)"

definition below_edge :: "edge \<Rightarrow> rat \<Rightarrow> bool" where
  "below_edge b q = (if edge_exclusive b then q < bound_value_of (edge_value b) else q \<le> bound_value_of (edge_value b))"

text \<open>What validation and \<open>edge_of\<close> give: integers in range, doubles finite and not \<open>-0.0\<close>.\<close>

fun bound_ok :: "num_bound \<Rightarrow> bool" where
  "bound_ok (BoundI n) = in_i64 n"
| "bound_ok (BoundU n) = True"
| "bound_ok (BoundF x) = (f64_is_finite x \<and> x \<noteq> 0x8000000000000000)"

definition edge_ok :: "edge \<Rightarrow> bool" where
  "edge_ok b = bound_ok (edge_value b)"

lemma saturate_id: "lo \<le> z \<Longrightarrow> z \<le> hi \<Longrightarrow> saturate lo hi z = z"
  by (simp add: saturate_def)

lemma cmp_floor:
  "(case cmp_lin \<lfloor>x\<rfloor> n of Equal \<Rightarrow> if of_int \<lfloor>x\<rfloor> < x then Greater else Equal | r \<Rightarrow> r) = cmp_lin x (of_int n :: rat)"
proof -
  have "of_int \<lfloor>x\<rfloor> \<le> x" by simp
  then consider "\<lfloor>x\<rfloor> < n" | "n < \<lfloor>x\<rfloor>" | "\<lfloor>x\<rfloor> = n" "x = of_int n" | "\<lfloor>x\<rfloor> = n" "of_int n < x" by linarith
  then show ?thesis
  proof cases
    case 1
    then have "x < of_int n" by (simp add: floor_less_iff)
    with 1 show ?thesis by (simp add: cmp_lin_def)
  next
    case 2
    then have "of_int n < x" by linarith
    with 2 show ?thesis by (simp add: cmp_lin_def)
  qed (simp_all add: cmp_lin_def)
qed

lemma cmp_floor_f64:
  "(case cmp_lin (f64_floor x) n of Equal \<Rightarrow> if f64_above_int x (f64_floor x) then Greater else Equal | r \<Rightarrow> r) =
   cmp_lin (f64_value x) (of_int n)"
  unfolding f64_above_int_value f64_floor_value by (rule cmp_floor)

lemma cmp_f64_i64_exact:
  assumes "\<not> f64_is_nan x" "in_i64 n"
  shows "cmp_f64_i64 x n = cmp_lin (f64_value x) (of_int n)"
proof -
  have n: "- (2 ^ 63) \<le> (of_int n :: rat)" "(of_int n :: rat) < 2 ^ 63"
    using assms(2) by (simp_all add: in_i64_simps)
  show ?thesis
  proof (cases "f64_is_infinite x")
    case True
    then have v: "f64_value x = (if f64_sign x then - (2 ^ 1024) else 2 ^ 1024)" by (rule f64_infinite_value)
    have "f64_lt 0 x \<longleftrightarrow> \<not> f64_sign x"
      using f64_lt_value [of 0 x] assms(1) v f64_constants(4,8) by simp
    with n v True show ?thesis by (simp add: cmp_f64_i64_def cmp_lin_def)
  next
    case False
    let ?v = "f64_value x"
    consider "2 ^ 63 \<le> ?v" | "?v < - (2 ^ 63)" | "- (2 ^ 63) \<le> ?v" "?v < 2 ^ 63" by linarith
    then show ?thesis
    proof cases
      case 1
      then have "f64_le TWO_63 x" using f64_le_value [of TWO_63 x] assms(1) f64_constants by simp
      with 1 n False show ?thesis by (simp add: cmp_f64_i64_def cmp_lin_def)
    next
      case 2
      then have "f64_lt x NEG_TWO_63" "\<not> f64_le TWO_63 x"
        using f64_lt_value [of x NEG_TWO_63] f64_le_value [of TWO_63 x] assms(1) f64_constants by simp_all
      with 2 n False show ?thesis by (simp add: cmp_f64_i64_def cmp_lin_def)
    next
      case 3
      then have "\<not> f64_lt x NEG_TWO_63" "\<not> f64_le TWO_63 x"
        using f64_lt_value [of x NEG_TWO_63] f64_le_value [of TWO_63 x] assms(1) f64_constants by simp_all
      moreover have "saturate i64_min i64_max (f64_floor x) = f64_floor x"
        unfolding f64_floor_value using 3 by (intro saturate_id) (simp_all add: i64_min_def i64_max_def le_floor_iff floor_le_iff)
      ultimately show ?thesis
        using False by (simp add: cmp_f64_i64_def cmp_floor_f64)
    qed
  qed
qed

lemma cmp_f64_u64_exact:
  assumes "\<not> f64_is_nan x"
  shows "cmp_f64_u64 x n = cmp_lin (f64_value x) (of_int (uint n))"
proof -
  let ?v = "f64_value x"
  define z where "z = uint n"
  have "0 \<le> z" "z < 2 ^ 64" using uint_lt2p [of n] by (simp_all add: z_def)
  then have n: "0 \<le> (of_int z :: rat)" "(of_int z :: rat) < 2 ^ 64" by simp_all
  consider "?v < 0" | "2 ^ 64 \<le> ?v" | "0 \<le> ?v" "?v < 2 ^ 64" by linarith
  then show ?thesis
  proof cases
    case 1
    then have "f64_lt x 0" using f64_lt_value [of x 0] assms f64_constants by simp
    with 1 n show ?thesis unfolding cmp_f64_u64_def z_def [symmetric] by (simp add: cmp_lin_def)
  next
    case 2
    then have "f64_le TWO_64 x" "\<not> f64_lt x 0"
      using f64_le_value [of TWO_64 x] f64_lt_value [of x 0] assms f64_constants by simp_all
    with 2 n show ?thesis unfolding cmp_f64_u64_def z_def [symmetric] by (simp add: cmp_lin_def)
  next
    case 3
    then have "\<not> f64_lt x 0" "\<not> f64_le TWO_64 x"
      using f64_lt_value [of x 0] f64_le_value [of TWO_64 x] assms f64_constants by simp_all
    moreover have "saturate 0 (2 ^ 64 - 1) (f64_floor x) = f64_floor x"
      unfolding f64_floor_value using 3 by (intro saturate_id) (simp_all add: le_floor_iff floor_le_iff)
    ultimately show ?thesis
      unfolding cmp_f64_u64_def z_def [symmetric] by (simp add: cmp_floor_f64)
  qed
qed

lemma finite_not_nan: "f64_is_finite x \<Longrightarrow> \<not> f64_is_nan x"
  by (simp add: f64_is_finite_def f64_is_nan_def)

lemma cmp_edge_exact:
  assumes "\<not> f64_is_nan v" "edge_ok b"
  shows "cmp_edge b v = cmp_lin (f64_value v) (bound_value_of (edge_value b))"
proof -
  let ?w = "if f64_eq v 0 then 0 else v"
  have w: "f64_value ?w = f64_value v" "\<not> f64_is_nan ?w"
    using assms(1) f64_constants(8) f64_value_eq [of v 0] by (auto simp: f64_eq_def)
  have "?w \<noteq> 0x8000000000000000"
    by (auto simp: f64_eq_def f64_is_nan_def f64_key_def f64_magnitude_def f64_sign_def)
  then have "f64_total_cmp ?w x = cmp_lin (f64_value ?w) (f64_value x)" if "x \<noteq> 0x8000000000000000" for x
    using that f64_total_key_value [of ?w x] f64_total_key_value [of x ?w] by (simp add: f64_total_cmp_def cmp_lin_def)
  then show ?thesis
    using assms(2) w cmp_f64_i64_exact [OF w(2)] cmp_f64_u64_exact [OF w(2)]
    by (cases "edge_value b") (simp_all add: cmp_edge_def Let_def edge_ok_def split del: if_split)
qed

lemma admits_exact:
  assumes "\<not> f64_is_nan v" "edge_ok b"
  shows "admits_from_below b v \<longleftrightarrow> above_edge b (f64_value v)" "admits_from_above b v \<longleftrightarrow> below_edge b (f64_value v)"
  using cmp_edge_exact [OF assms]
  by (auto simp: admits_from_below_def admits_from_above_def above_edge_def below_edge_def cmp_lin_def)

section \<open>The integer ranges are exact\<close>

lemma sat_i128_cases: "sat_i128 z = z \<or> z < - (2 ^ 127) \<and> sat_i128 z = - (2 ^ 127) \<or> 2 ^ 127 - 1 < z \<and> sat_i128 z = 2 ^ 127 - 1"
  by (auto simp: sat_i128_def saturate_def)

lemma above_edge_int:
  assumes "edge_ok b"
  shows "above_edge b (of_int v) \<longleftrightarrow>
    (case edge_value b of BoundI n \<Rightarrow> n + of_bool (edge_exclusive b) \<le> v | BoundU n \<Rightarrow> uint n + of_bool (edge_exclusive b) \<le> v
     | BoundF x \<Rightarrow> if edge_exclusive b then f64_floor x + 1 \<le> v else f64_ceil x \<le> v)"
  by (cases "edge_value b") (auto simp: above_edge_def f64_floor_value f64_ceil_value ceiling_le_iff floor_less_iff add1_zle_eq)

lemma below_edge_int:
  assumes "edge_ok b"
  shows "below_edge b (of_int v) \<longleftrightarrow>
    (case edge_value b of BoundI n \<Rightarrow> v \<le> n - of_bool (edge_exclusive b) | BoundU n \<Rightarrow> v \<le> uint n - of_bool (edge_exclusive b)
     | BoundF x \<Rightarrow> if edge_exclusive b then v \<le> f64_ceil x - 1 else v \<le> f64_floor x)"
  by (cases "edge_value b") (auto simp: below_edge_def f64_floor_value f64_ceil_value le_floor_iff less_ceiling_iff zle_diff1_eq)

lemma clip_lower:
  "in_i64 v \<Longrightarrow> (case if i64_max < lo then None else Some (max lo i64_min) of None \<Rightarrow> False | Some l \<Rightarrow> l \<le> v) \<longleftrightarrow> lo \<le> v"
  by (auto simp: in_i64_def)

lemma clip_upper:
  "in_i64 v \<Longrightarrow> (case if hi < i64_min then None else Some (min hi i64_max) of None \<Rightarrow> False | Some h \<Rightarrow> v \<le> h) \<longleftrightarrow> v \<le> hi"
  by (auto simp: in_i64_def)

lemma int_lower_exact:
  assumes "edge_ok b" "in_i64 v"
  shows "(case int_lower b of None \<Rightarrow> False | Some lo \<Rightarrow> lo \<le> v) \<longleftrightarrow> above_edge b (of_int v)"
proof -
  have small: "sat_i128 z \<le> v \<longleftrightarrow> z \<le> v" "sat_i128 z + 1 \<le> v \<longleftrightarrow> z + 1 \<le> v" for z
    using assms(2) sat_i128_cases [of z] by (auto simp: in_i64_simps)
  show ?thesis
    unfolding above_edge_int [OF assms(1)] int_lower_def Let_def clip_lower [OF assms(2)]
    by (cases "edge_value b") (simp_all only: num_bound.case small if_distrib [of "\<lambda>z. z \<le> v"])
qed

lemma int_upper_exact:
  assumes "edge_ok b" "in_i64 v"
  shows "(case int_upper b of None \<Rightarrow> False | Some hi \<Rightarrow> v \<le> hi) \<longleftrightarrow> below_edge b (of_int v)"
proof -
  have small: "v \<le> sat_i128 z \<longleftrightarrow> v \<le> z" "v \<le> sat_i128 z - 1 \<longleftrightarrow> v \<le> z - 1" for z
    using assms(2) sat_i128_cases [of z] by (auto simp: in_i64_simps)
  show ?thesis
    unfolding below_edge_int [OF assms(1)] int_upper_def Let_def clip_upper [OF assms(2)]
    by (cases "edge_value b") (simp_all only: num_bound.case small if_distrib [of "\<lambda>z. v \<le> z"])
qed

text \<open>What a pair of optional edges admits of an exact number.\<close>

definition between :: "edge option \<Rightarrow> edge option \<Rightarrow> rat \<Rightarrow> bool" where
  "between mn mx q = (list_all (\<lambda>b. above_edge b q) (case mn of None \<Rightarrow> [] | Some b \<Rightarrow> [b]) \<and>
                      list_all (\<lambda>b. below_edge b q) (case mx of None \<Rightarrow> [] | Some b \<Rightarrow> [b]))"

definition edges_ok :: "edge option \<Rightarrow> edge option \<Rightarrow> bool" where
  "edges_ok mn mx = ((case mn of None \<Rightarrow> True | Some b \<Rightarrow> edge_ok b) \<and> (case mx of None \<Rightarrow> True | Some b \<Rightarrow> edge_ok b))"

lemma in_edges_exact:
  assumes "edges_ok mn mx" "\<not> f64_is_nan v"
  shows "in_edges mn mx v \<longleftrightarrow> between mn mx (f64_value v)"
  using assms admits_exact [OF assms(2)]
  by (auto simp: in_edges_def between_def edges_ok_def split: option.splits)

lemma int_range_between:
  assumes "edges_ok mn mx" "in_i64 v"
  shows "fst (int_range mn mx) \<le> v \<and> v \<le> snd (int_range mn mx) \<longleftrightarrow> between mn mx (of_int v)"
proof -
  have lo: "(case (case mn of None \<Rightarrow> Some i64_min | Some b \<Rightarrow> int_lower b) of None \<Rightarrow> False | Some lo \<Rightarrow> lo \<le> v) \<longleftrightarrow>
      list_all (\<lambda>b. above_edge b (of_int v)) (case mn of None \<Rightarrow> [] | Some b \<Rightarrow> [b])"
    using assms int_lower_exact [of _ v] by (cases mn) (auto simp: edges_ok_def in_i64_def)
  have hi: "(case (case mx of None \<Rightarrow> Some i64_max | Some b \<Rightarrow> int_upper b) of None \<Rightarrow> False | Some hi \<Rightarrow> v \<le> hi) \<longleftrightarrow>
      list_all (\<lambda>b. below_edge b (of_int v)) (case mx of None \<Rightarrow> [] | Some b \<Rightarrow> [b])"
    using assms int_upper_exact [of _ v] by (cases mx) (auto simp: edges_ok_def in_i64_def)
  show ?thesis
    unfolding between_def lo [symmetric] hi [symmetric] int_range_def
    by (auto split: option.splits)
qed

text \<open>
  C28: the inclusive integer range a pair of bounds is normalised to holds exactly the
  \<open>i64\<close> values the bounds admit as exact numbers, whatever domain each bound is written in,
  rounding and saturation included.
\<close>

theorem int_range_exact:
  assumes "edges_ok mn mx" "in_i64 v"
  shows "fst (int_range mn mx) \<le> v \<and> v \<le> snd (int_range mn mx) \<longleftrightarrow> between mn mx (of_int v)"
  using assms by (rule int_range_between)

theorem int_range_exact_witness:
  "\<not> between (Some \<lparr>edge_value = BoundU 0x8000000000000000, edge_exclusive = False\<rparr>) None 2"
  using int_range_exact [of "Some \<lparr>edge_value = BoundU 0x8000000000000000, edge_exclusive = False\<rparr>" None 2]
  by (simp add: edges_ok_def edge_ok_def in_i64_simps int_range_def int_lower_def Let_def i64_max_def i64_min_def)

lemma u64_try_from_le: "(case u64_try_from z of None \<Rightarrow> False | Some w \<Rightarrow> w \<le> v) \<longleftrightarrow> 0 \<le> z \<and> z \<le> uint v"
  using uint_lt2p [of v] by (auto simp: u64_try_from_def word_le_def uint_word_of_int)

lemma u64_try_from_ge: "(case u64_try_from z of None \<Rightarrow> False | Some w \<Rightarrow> v \<le> w) \<longleftrightarrow> z < 2 ^ 64 \<and> uint v \<le> z"
  by (auto simp: u64_try_from_def word_le_def uint_word_of_int order_trans [OF uint_ge_0])

lemma f64_sign_tests:
  assumes "f64_is_finite x"
  shows "f64_lt x 0 \<longleftrightarrow> f64_value x < 0" "f64_le TWO_64 x \<longleftrightarrow> 2 ^ 64 \<le> f64_value x"
  using f64_lt_value [of x 0] f64_le_value [of TWO_64 x] finite_not_nan [OF assms] f64_constants by simp_all

lemma sat_i128_id: "- 1 \<le> z \<Longrightarrow> z \<le> 2 ^ 64 \<Longrightarrow> sat_i128 z = z"
  by (simp add: sat_i128_def saturate_def)

lemma uint_lower_exact:
  assumes "edge_ok b"
  shows "(case uint_lower b of None \<Rightarrow> False | Some lo \<Rightarrow> lo \<le> v) \<longleftrightarrow> above_edge b (of_int (uint v))"
proof (cases "edge_value b")
  case (BoundF x)
  then have fin: "f64_is_finite x" using assms by (simp add: edge_ok_def)
  have v: "0 \<le> uint v" "uint v < 2 ^ 64" using uint_lt2p [of v] by simp_all
  consider "f64_value x < 0" | "2 ^ 64 \<le> f64_value x" | "0 \<le> f64_value x" "f64_value x < 2 ^ 64" by linarith
  then show ?thesis
  proof cases
    case 1
    then have "f64_floor x + 1 \<le> 0" "f64_ceil x \<le> 0" by (simp_all add: f64_floor_value f64_ceil_value add1_zle_eq)
    then have "f64_floor x + 1 \<le> uint v" "f64_ceil x \<le> uint v" using v(1) by linarith+
    then show ?thesis using 1 by (simp add: above_edge_int [OF assms] uint_lower_def BoundF f64_sign_tests [OF fin])
  next
    case 2
    then have "2 ^ 64 \<le> f64_floor x" "2 ^ 64 \<le> f64_ceil x" by (simp_all add: f64_floor_value f64_ceil_value le_floor_iff le_ceiling_iff)
    then show ?thesis using 2 v(2) by (simp add: above_edge_int [OF assms] uint_lower_def BoundF f64_sign_tests [OF fin])
  next
    case 3
    then have r: "0 \<le> f64_floor x" "f64_floor x < 2 ^ 64" "0 \<le> f64_ceil x" "f64_ceil x \<le> 2 ^ 64"
      by (simp_all add: f64_floor_value f64_ceil_value floor_less_iff ceiling_le_iff)
    then have "sat_i128 (f64_floor x) = f64_floor x" "sat_i128 (f64_ceil x) = f64_ceil x" by (simp_all add: sat_i128_id)
    then show ?thesis
      using 3 r v by (auto simp add: above_edge_int [OF assms] uint_lower_def BoundF f64_sign_tests [OF fin] u64_try_from_le)
  qed
qed (auto simp add: above_edge_int [OF assms] uint_lower_def u64_try_from_le)

lemma uint_upper_exact:
  assumes "edge_ok b"
  shows "(case uint_upper b of None \<Rightarrow> False | Some hi \<Rightarrow> v \<le> hi) \<longleftrightarrow> below_edge b (of_int (uint v))"
proof (cases "edge_value b")
  case (BoundF x)
  then have fin: "f64_is_finite x" using assms by (simp add: edge_ok_def)
  have v: "0 \<le> uint v" "uint v < 2 ^ 64" using uint_lt2p [of v] by simp_all
  consider "f64_value x < 0" | "2 ^ 64 \<le> f64_value x" | "0 \<le> f64_value x" "f64_value x < 2 ^ 64" by linarith
  then show ?thesis
  proof cases
    case 1
    then have "f64_floor x < 0" "f64_ceil x \<le> 0" by (simp_all add: f64_floor_value f64_ceil_value)
    then have "\<not> uint v \<le> f64_floor x" "\<not> uint v \<le> f64_ceil x - 1" using v(1) by linarith+
    then show ?thesis using 1 by (simp add: below_edge_int [OF assms] uint_upper_def BoundF f64_sign_tests [OF fin])
  next
    case 2
    then have "2 ^ 64 \<le> f64_floor x" "2 ^ 64 \<le> f64_ceil x" by (simp_all add: f64_floor_value f64_ceil_value le_floor_iff le_ceiling_iff)
    then show ?thesis using 2 v(2) by (simp add: below_edge_int [OF assms] uint_upper_def BoundF f64_sign_tests [OF fin])
  next
    case 3
    then have r: "0 \<le> f64_floor x" "f64_floor x < 2 ^ 64" "0 \<le> f64_ceil x" "f64_ceil x \<le> 2 ^ 64"
      by (simp_all add: f64_floor_value f64_ceil_value floor_less_iff ceiling_le_iff)
    then have "sat_i128 (f64_floor x) = f64_floor x" "sat_i128 (f64_ceil x) = f64_ceil x" by (simp_all add: sat_i128_id)
    then show ?thesis
      using 3 r v by (auto simp add: below_edge_int [OF assms] uint_upper_def BoundF f64_sign_tests [OF fin] u64_try_from_ge)
  qed
qed (use uint_lt2p [of v] in \<open>auto simp add: below_edge_int [OF assms] uint_upper_def u64_try_from_ge\<close>)

lemma uint_range_between:
  assumes "edges_ok mn mx"
  shows "fst (uint_range mn mx) \<le> v \<and> v \<le> snd (uint_range mn mx) \<longleftrightarrow> between mn mx (of_int (uint v))"
proof -
  have lo: "(case (case mn of None \<Rightarrow> Some 0 | Some b \<Rightarrow> uint_lower b) of None \<Rightarrow> False | Some lo \<Rightarrow> lo \<le> v) \<longleftrightarrow>
      list_all (\<lambda>b. above_edge b (of_int (uint v))) (case mn of None \<Rightarrow> [] | Some b \<Rightarrow> [b])"
    using assms uint_lower_exact [of _ v] by (cases mn) (auto simp: edges_ok_def)
  have hi: "(case (case mx of None \<Rightarrow> Some (- 1) | Some b \<Rightarrow> uint_upper b) of None \<Rightarrow> False | Some hi \<Rightarrow> v \<le> hi) \<longleftrightarrow>
      list_all (\<lambda>b. below_edge b (of_int (uint v))) (case mx of None \<Rightarrow> [] | Some b \<Rightarrow> [b])"
    using assms uint_upper_exact [of _ v] by (cases mx) (auto simp: edges_ok_def)
  show ?thesis
    unfolding between_def lo [symmetric] hi [symmetric] uint_range_def
    by (auto split: option.splits)
qed

text \<open>
  C29: the same for unsigned columns: the normalised \<open>u64\<close> range holds exactly the values
  the bounds admit, negative and fractional bounds included.
\<close>

theorem uint_range_exact:
  assumes "edges_ok mn mx"
  shows "fst (uint_range mn mx) \<le> v \<and> v \<le> snd (uint_range mn mx) \<longleftrightarrow> between mn mx (of_int (uint v))"
  using assms by (rule uint_range_between)

theorem uint_range_exact_witness:
  "\<not> between None (Some \<lparr>edge_value = BoundI (- 1), edge_exclusive = False\<rparr>) 0"
  using uint_range_exact [of None "Some \<lparr>edge_value = BoundI (- 1), edge_exclusive = False\<rparr>" 0]
  by (simp add: edges_ok_def edge_ok_def in_i64_simps uint_range_def uint_upper_def u64_try_from_def)

section \<open>Evaluation is Kleene logic\<close>

text \<open>The reference semantics: no early return, minima and maxima over the children.\<close>

fun kleene :: "(resolved_leaf \<Rightarrow> tri) \<Rightarrow> resolved_filter \<Rightarrow> tri" where
  "kleene ev (RAnd children) = foldr min (map (kleene ev) children) TTrue"
| "kleene ev (ROr children) = foldr max (map (kleene ev) children) TFalse"
| "kleene ev (RNot child) = tri_not (kleene ev child)"
| "kleene ev (RLeaf leaf) = ev leaf"

lemma tri_bounds [simp]: "TFalse \<le> t" "t \<le> TTrue" "min TFalse t = TFalse" "min TTrue t = t" "max TTrue t = TTrue" "max TFalse t = t"
  "min t TFalse = TFalse" "min t TTrue = t" "max t TTrue = TTrue" "max t TFalse = t"
  by (cases t; simp add: less_eq_tri_def min_def max_def)+

lemma eval_kleene:
  "filter_eval gd cols d f = kleene (leaf_eval gd cols d) f"
  "eval_and gd cols d acc fs = min acc (foldr min (map (kleene (leaf_eval gd cols d)) fs) TTrue)"
  "eval_or gd cols d acc' fs = max acc' (foldr max (map (kleene (leaf_eval gd cols d)) fs) TFalse)"
  by (induction gd cols d f and gd cols d acc fs and gd cols d acc' fs rule: filter_eval_eval_and_eval_or.induct)
    (auto simp: tri_and_def tri_or_def ac_simps split: tri.splits)


end
