(* ===== verification/Segment_Prune.thy ===== *)
theory Segment_Prune
  imports Filter_Eval
begin

text \<open>
  Segment pruning from per-segment column summaries (\<open>src/segment_prune.rs\<close>, the summary
  records of \<open>src/segments.rs\<close>): a segment whose summary rules a filter out holds no row the
  filter passes, so leaving it unopened does not change an answer.
\<close>

section \<open>Summaries\<close>

record int_column_summary =
  ic_name :: string
  ic_min :: int
  ic_max :: int
  ic_present :: u64

record uint_column_summary =
  uc_name :: string
  uc_min :: u64
  uc_max :: u64
  uc_present :: u64

record numeric_column_summary =
  nc_name :: string
  nc_min :: f64
  nc_max :: f64
  nc_present :: u64

record partition_range =
  pr_column :: string
  pr_lo :: int
  pr_hi :: int

record segment_summary =
  int_columns :: "int_column_summary list"
  uint_columns :: "uint_column_summary list"
  numeric_columns :: "numeric_column_summary list"
  sm_partition :: "partition_range option"

text \<open>The shard's column tables by index, \<open>ColumnNames\<close>.\<close>

record column_names =
  integer_name :: "nat \<Rightarrow> string option"
  unsigned_integer_name :: "nat \<Rightarrow> string option"
  numeric_name :: "nat \<Rightarrow> string option"

record prune_stats =
  segments_total :: u32
  segments_skipped :: u32

definition stats_zero :: prune_stats where
  "stats_zero = \<lparr>segments_total = 0, segments_skipped = 0\<rparr>"

definition prune_stats_add :: "prune_stats \<Rightarrow> prune_stats \<Rightarrow> prune_stats" where
  "prune_stats_add s t =
     \<lparr>segments_total = saturating_add_word (segments_total s) (segments_total t),
      segments_skipped = saturating_add_word (segments_skipped s) (segments_skipped t)\<rparr>"

section \<open>The verdict\<close>

definition int_summary :: "segment_summary \<Rightarrow> string \<Rightarrow> int_column_summary option" where
  "int_summary summary name = List.find (\<lambda>c. ic_name c = name) (int_columns summary)"

definition uint_summary :: "segment_summary \<Rightarrow> string \<Rightarrow> uint_column_summary option" where
  "uint_summary summary name = List.find (\<lambda>c. uc_name c = name) (uint_columns summary)"

definition numeric_summary :: "segment_summary \<Rightarrow> string \<Rightarrow> numeric_column_summary option" where
  "numeric_summary summary name = List.find (\<lambda>c. nc_name c = name) (numeric_columns summary)"

definition int_present :: "segment_summary \<Rightarrow> string \<Rightarrow> u64 option" where
  "int_present summary name = map_option ic_present (int_summary summary name)"

definition numeric_present :: "segment_summary \<Rightarrow> string \<Rightarrow> u64 option" where
  "numeric_present summary name = map_option nc_present (numeric_summary summary name)"

definition int_range_impossible :: "segment_summary \<Rightarrow> string \<Rightarrow> int \<Rightarrow> int \<Rightarrow> bool" where
  "int_range_impossible summary name lo hi =
     (if hi < lo then True
      else
        (case int_summary summary name of
           None \<Rightarrow> False
         | Some c \<Rightarrow>
             if ic_present c = 0 then True
             else if ic_max c < lo \<or> hi < ic_min c then True
             else
               (case sm_partition summary of
                  Some pr \<Rightarrow> pr_column pr = name \<and> (pr_hi pr < lo \<or> hi < pr_lo pr)
                | None \<Rightarrow> False)))"

definition uint_range_impossible :: "segment_summary \<Rightarrow> string \<Rightarrow> u64 \<Rightarrow> u64 \<Rightarrow> bool" where
  "uint_range_impossible summary name lo hi =
     (case uint_summary summary name of
        None \<Rightarrow> False
      | Some c \<Rightarrow> uc_present c = 0 \<or> hi < lo \<or> uc_max c < lo \<or> hi < uc_min c)"

definition f64_range_impossible :: "segment_summary \<Rightarrow> string \<Rightarrow> edge option \<Rightarrow> edge option \<Rightarrow> bool" where
  "f64_range_impossible summary name lo hi =
     (case numeric_summary summary name of
        None \<Rightarrow> False
      | Some c \<Rightarrow>
          if nc_present c = 0 then True
          else if f64_is_nan (nc_min c) \<or> f64_is_nan (nc_max c) \<or> f64_lt (nc_max c) (nc_min c) then False
          else \<not> ((case lo of None \<Rightarrow> True | Some b \<Rightarrow> admits_from_below b (nc_max c)) \<and>
                  (case hi of None \<Rightarrow> True | Some b \<Rightarrow> admits_from_above b (nc_min c))))"

text \<open>\<open>is_none_or\<close> of a column index that must be known empty.\<close>

definition family_empty :: "nat option \<Rightarrow> (nat \<Rightarrow> string option) \<Rightarrow> (string \<Rightarrow> u64 option) \<Rightarrow> bool" where
  "family_empty column name_of count_of =
     (case column of
        None \<Rightarrow> True
      | Some i \<Rightarrow> (case name_of i of None \<Rightarrow> False | Some name \<Rightarrow> count_of name = Some 0))"

fun leaf_impossible :: "segment_summary \<Rightarrow> column_names \<Rightarrow> resolved_leaf \<Rightarrow> bool" where
  "leaf_impossible summary names (RIntRange column lo hi) =
     (case integer_name names column of None \<Rightarrow> False | Some name \<Rightarrow> int_range_impossible summary name lo hi)"
| "leaf_impossible summary names (RUintRange column lo hi) =
     (case unsigned_integer_name names column of None \<Rightarrow> False | Some name \<Rightarrow> uint_range_impossible summary name lo hi)"
| "leaf_impossible summary names (RF64Range column lo hi) =
     (case numeric_name names column of None \<Rightarrow> False | Some name \<Rightarrow> f64_range_impossible summary name lo hi)"
| "leaf_impossible summary names (RHas facet numeric integer unsigned_integer geo) =
     (if facet \<noteq> None \<or> geo \<noteq> None then False
      else (integer \<noteq> None \<or> unsigned_integer \<noteq> None \<or> numeric \<noteq> None) \<and>
           family_empty integer (integer_name names) (int_present summary) \<and>
           family_empty unsigned_integer (unsigned_integer_name names)
             (\<lambda>name. map_option uc_present (uint_summary summary name)) \<and>
           family_empty numeric (numeric_name names) (numeric_present summary))"
| "leaf_impossible summary names _ = False"

fun no_row_can_pass :: "segment_summary \<Rightarrow> column_names \<Rightarrow> resolved_filter \<Rightarrow> bool" where
  "no_row_can_pass summary names (RAnd children) = list_ex (no_row_can_pass summary names) children"
| "no_row_can_pass summary names (ROr children) =
     (children \<noteq> [] \<and> list_all (no_row_can_pass summary names) children)"
| "no_row_can_pass summary names (RNot child) = False"
| "no_row_can_pass summary names (RLeaf leaf) = leaf_impossible summary names leaf"

definition verdict_step ::
  "resolved_filter option \<Rightarrow> column_names \<Rightarrow> bool \<Rightarrow> segment_summary option
   \<Rightarrow> bool list \<times> prune_stats \<Rightarrow> bool list \<times> prune_stats" where
  "verdict_step flt names enabled summary = (\<lambda>(out, stats).
     let stats = stats\<lparr>segments_total := segments_total stats + 1\<rparr>;
         pruned = (enabled \<and> (case (flt, summary) of
                               (Some f, Some s) \<Rightarrow> no_row_can_pass s names f
                             | _ \<Rightarrow> False));
         stats = (if pruned then stats\<lparr>segments_skipped := segments_skipped stats + 1\<rparr> else stats)
     in (out @ [pruned], stats))"

definition verdicts_over ::
  "resolved_filter option \<Rightarrow> segment_summary option list \<Rightarrow> column_names \<Rightarrow> bool \<Rightarrow> bool list \<times> prune_stats" where
  "verdicts_over flt summaries names enabled = fold (verdict_step flt names enabled) summaries ([], stats_zero)"

section \<open>Pruning is sound\<close>

text \<open>
  What a summary claims of a segment's rows: a column it lists with no value has none, the
  values of the others lie in its range and, for the partition column, in the partition.
\<close>

definition summary_ok :: "segment_summary \<Rightarrow> column_names \<Rightarrow> numeric_read \<Rightarrow> u32 set \<Rightarrow> bool" where
  "summary_ok summary names cols rows \<longleftrightarrow>
     (\<forall>d \<in> rows.
        (\<forall>i name c v. integer_name names i = Some name \<and> int_summary summary name = Some c \<and> int_value cols i d = Some v \<longrightarrow>
           ic_present c \<noteq> 0 \<and> ic_min c \<le> v \<and> v \<le> ic_max c \<and>
           (\<forall>pr. sm_partition summary = Some pr \<and> pr_column pr = name \<longrightarrow> pr_lo pr \<le> v \<and> v \<le> pr_hi pr)) \<and>
        (\<forall>i name c v. unsigned_integer_name names i = Some name \<and> uint_summary summary name = Some c \<and>
           uint_value cols i d = Some v \<longrightarrow> uc_present c \<noteq> 0 \<and> uc_min c \<le> v \<and> v \<le> uc_max c) \<and>
        (\<forall>i name c v. numeric_name names i = Some name \<and> numeric_summary summary name = Some c \<and>
           num_value cols i d = Some v \<longrightarrow>
           nc_present c \<noteq> 0 \<and> (f64_is_nan (nc_min c) \<or> f64_le (nc_min c) v) \<and> (f64_is_nan (nc_max c) \<or> f64_le v (nc_max c))))"

text \<open>The range edges of a filter that came through validation.\<close>

fun leaf_edges_ok :: "resolved_leaf \<Rightarrow> bool" where
  "leaf_edges_ok (RF64Range column lo hi) = edges_ok lo hi"
| "leaf_edges_ok _ = True"

fun filter_edges_ok :: "resolved_filter \<Rightarrow> bool" where
  "filter_edges_ok (RAnd fs) = list_all filter_edges_ok fs"
| "filter_edges_ok (ROr fs) = list_all filter_edges_ok fs"
| "filter_edges_ok (RNot f) = filter_edges_ok f"
| "filter_edges_ok (RLeaf leaf) = leaf_edges_ok leaf"

lemma tri_opt_True: "tri_opt v P = TTrue \<longleftrightarrow> (\<exists>x. v = Some x \<and> P x)"
  by (auto simp: tri_opt_def tri_of_def split: option.splits)

lemma f64_impossible_sound:
  assumes ok: "summary_ok summary names cols rows" "d \<in> rows" and e: "edges_ok lo hi"
    and nm: "numeric_name names i = Some name" and imp: "f64_range_impossible summary name lo hi"
    and v: "num_value cols i d = Some v"
  shows "\<not> in_edges lo hi v"
proof -
  obtain c where c: "numeric_summary summary name = Some c" using imp by (auto simp: f64_range_impossible_def split: option.splits)
  then have p: "nc_present c \<noteq> 0" "f64_is_nan (nc_min c) \<or> f64_le (nc_min c) v" "f64_is_nan (nc_max c) \<or> f64_le v (nc_max c)"
    using ok nm v unfolding summary_ok_def by blast+
  with c imp have nn: "\<not> f64_is_nan (nc_min c)" "\<not> f64_is_nan (nc_max c)" by (auto simp: f64_range_impossible_def split: if_splits)
  with p have r: "f64_le (nc_min c) v" "f64_le v (nc_max c)" "\<not> f64_is_nan v" by (auto simp: f64_le_def)
  then have val: "f64_value (nc_min c) \<le> f64_value v" "f64_value v \<le> f64_value (nc_max c)"
    using f64_le_value nn by blast+
  have lo_mono: "above_edge b (f64_value v) \<Longrightarrow> above_edge b (f64_value (nc_max c))" for b
    using val(2) by (auto simp: above_edge_def)
  have hi_mono: "below_edge b (f64_value v) \<Longrightarrow> below_edge b (f64_value (nc_min c))" for b
    using val(1) by (auto simp: below_edge_def)
  show ?thesis
  proof
    assume "in_edges lo hi v"
    then have "(case lo of None \<Rightarrow> True | Some b \<Rightarrow> admits_from_below b (nc_max c))"
      "(case hi of None \<Rightarrow> True | Some b \<Rightarrow> admits_from_above b (nc_min c))"
      using e lo_mono hi_mono admits_exact [OF r(3)] admits_exact [OF nn(1)] admits_exact [OF nn(2)]
      by (auto simp: in_edges_def edges_ok_def split: option.splits)
    with imp c p(1) nn show False by (auto simp: f64_range_impossible_def split: if_splits)
  qed
qed

lemma int_impossible_sound:
  assumes ok: "summary_ok summary names cols rows" "d \<in> rows"
    and nm: "integer_name names i = Some name" and imp: "int_range_impossible summary name lo hi"
    and v: "int_value cols i d = Some v"
  shows "\<not> (lo \<le> v \<and> v \<le> hi)"
proof (cases "hi < lo")
  case False
  then obtain c where c: "int_summary summary name = Some c"
    using imp by (auto simp: int_range_impossible_def split: option.splits)
  then have "ic_present c \<noteq> 0 \<and> ic_min c \<le> v \<and> v \<le> ic_max c \<and>
      (\<forall>pr. sm_partition summary = Some pr \<and> pr_column pr = name \<longrightarrow> pr_lo pr \<le> v \<and> v \<le> pr_hi pr)"
    using ok nm v unfolding summary_ok_def by blast
  with imp c False show ?thesis by (auto simp: int_range_impossible_def split: option.splits if_splits)
qed auto

lemma uint_impossible_sound:
  assumes ok: "summary_ok summary names cols rows" "d \<in> rows"
    and nm: "unsigned_integer_name names i = Some name" and imp: "uint_range_impossible summary name lo hi"
    and v: "uint_value cols i d = Some v"
  shows "\<not> (lo \<le> v \<and> v \<le> hi)"
proof -
  obtain c where c: "uint_summary summary name = Some c"
    using imp by (auto simp: uint_range_impossible_def split: option.splits)
  then have "uc_present c \<noteq> 0 \<and> uc_min c \<le> v \<and> v \<le> uc_max c"
    using ok nm v unfolding summary_ok_def by blast
  with imp c show ?thesis by (auto simp: uint_range_impossible_def)
qed

lemma has_impossible_sound:
  assumes ok: "summary_ok summary names cols rows" "d \<in> rows"
    and imp: "leaf_impossible summary names (RHas facet numeric integer unsigned_integer geo)"
  shows "\<not> present integer (\<lambda>i. int_value cols i d)" "\<not> present unsigned_integer (\<lambda>i. uint_value cols i d)"
    "\<not> present numeric (\<lambda>i. num_value cols i d)" "facet = None" "geo = None"
proof -
  have e: "family_empty integer (integer_name names) (int_present summary)"
    "family_empty unsigned_integer (unsigned_integer_name names) (\<lambda>name. map_option uc_present (uint_summary summary name))"
    "family_empty numeric (numeric_name names) (numeric_present summary)"
    using imp by (auto split: if_splits)
  show "facet = None" "geo = None" using imp by (auto split: if_splits)
  have "int_value cols i d = None" if i: "integer = Some i" for i
  proof -
    obtain name c where "integer_name names i = Some name" "int_summary summary name = Some c" "ic_present c = 0"
      using e(1) i by (auto simp: family_empty_def int_present_def split: option.splits)
    then show ?thesis using ok unfolding summary_ok_def by (metis not_None_eq)
  qed
  then show "\<not> present integer (\<lambda>i. int_value cols i d)" by (auto simp: present_def split: option.splits)
  have "uint_value cols i d = None" if i: "unsigned_integer = Some i" for i
  proof -
    obtain name c where "unsigned_integer_name names i = Some name" "uint_summary summary name = Some c" "uc_present c = 0"
      using e(2) i by (auto simp: family_empty_def split: option.splits)
    then show ?thesis using ok unfolding summary_ok_def by (metis not_None_eq)
  qed
  then show "\<not> present unsigned_integer (\<lambda>i. uint_value cols i d)" by (auto simp: present_def split: option.splits)
  have "num_value cols i d = None" if i: "numeric = Some i" for i
  proof -
    obtain name c where "numeric_name names i = Some name" "numeric_summary summary name = Some c" "nc_present c = 0"
      using e(3) i by (auto simp: family_empty_def numeric_present_def split: option.splits)
    then show ?thesis using ok unfolding summary_ok_def by (metis not_None_eq)
  qed
  then show "\<not> present numeric (\<lambda>i. num_value cols i d)" by (auto simp: present_def split: option.splits)
qed

lemma leaf_impossible_sound:
  assumes ok: "summary_ok summary names cols rows" "d \<in> rows" and e: "leaf_edges_ok leaf"
    and imp: "leaf_impossible summary names leaf"
  shows "leaf_eval gd cols d leaf \<noteq> TTrue"
proof (cases leaf)
  case (RIntRange column lo hi)
  then show ?thesis using imp int_impossible_sound [OF ok] by (auto simp: tri_opt_True split: option.splits)
next
  case (RUintRange column lo hi)
  then show ?thesis using imp uint_impossible_sound [OF ok] by (auto simp: tri_opt_True split: option.splits)
next
  case (RF64Range column lo hi)
  then show ?thesis using imp e f64_impossible_sound [OF ok] by (auto simp: tri_opt_True split: option.splits)
next
  case (RHas facet numeric integer unsigned_integer geo)
  then show ?thesis using has_impossible_sound [OF ok imp [unfolded RHas]] by (simp add: tri_of_def present_def)
qed (use imp in auto)

lemma foldr_min_True: "foldr min xs TTrue = TTrue \<longleftrightarrow> (\<forall>x \<in> set xs. x = TTrue)"
proof (induction xs)
  case (Cons x xs)
  have "min x t = TTrue \<longleftrightarrow> x = TTrue \<and> t = TTrue" for t :: tri
    by (cases x; cases t) (simp_all add: min_def less_eq_tri_def)
  with Cons show ?case by auto
qed simp

lemma foldr_max_True: "foldr max xs TFalse = TTrue \<longleftrightarrow> (\<exists>x \<in> set xs. x = TTrue)"
proof (induction xs)
  case (Cons x xs)
  have "max x t = TTrue \<longleftrightarrow> x = TTrue \<or> t = TTrue" for t :: tri
    by (cases x; cases t) (simp_all add: max_def less_eq_tri_def)
  with Cons show ?case by auto
qed simp

lemma no_row_can_pass_sound:
  assumes ok: "summary_ok summary names cols rows" "d \<in> rows"
  shows "filter_edges_ok f \<Longrightarrow> no_row_can_pass summary names f \<Longrightarrow> filter_eval gd cols d f \<noteq> TTrue"
proof (induction f)
  case (RLeaf leaf)
  then show ?case using leaf_impossible_sound [OF ok] by simp
next
  case (ROr fs)
  then have "\<forall>x \<in> set fs. kleene (leaf_eval gd cols d) x \<noteq> TTrue" by (simp add: list_all_iff eval_kleene)
  then show ?case unfolding eval_kleene kleene.simps foldr_max_True by auto
next
  case (RAnd fs)
  then have "\<exists>x \<in> set fs. kleene (leaf_eval gd cols d) x \<noteq> TTrue" by (auto simp: list_all_iff list_ex_iff eval_kleene)
  then show ?case unfolding eval_kleene kleene.simps foldr_min_True by auto
qed simp

lemma verdict_step_fold:
  "fold (verdict_step flt names enabled) ss (out, stats) =
     (let vs = map (\<lambda>s. enabled \<and> (case (flt, s) of (Some f, Some s) \<Rightarrow> no_row_can_pass s names f | _ \<Rightarrow> False)) ss
      in (out @ vs, \<lparr>segments_total = segments_total stats + of_nat (length ss),
                     segments_skipped = segments_skipped stats + of_nat (length (filter id vs))\<rparr>))"
  by (induction ss arbitrary: out stats) (simp_all add: verdict_step_def Let_def)

text \<open>
  C11: pruning never changes an answer. A segment that \<open>verdicts_over\<close> prunes holds no row the
  filter passes, whatever its rows are, as long as its summary describes them; and there is one
  verdict per segment, with the counts of segments and of pruned segments.
\<close>

theorem verdicts_over_sound:
  assumes "verdicts_over (Some f) summaries names enabled = (out, stats)" "filter_edges_ok f"
  shows "length out = length summaries \<and> segments_total stats = of_nat (length summaries) \<and>
    segments_skipped stats = of_nat (length (filter id out)) \<and>
    (\<forall>s < length summaries. out ! s \<longrightarrow> (\<exists>summary. summaries ! s = Some summary \<and>
      (\<forall>cols rows d. summary_ok summary names cols rows \<and> d \<in> rows \<longrightarrow> filter_eval gd cols d f \<noteq> TTrue)))"
proof -
  let ?v = "\<lambda>s. enabled \<and> (case s of None \<Rightarrow> False | Some s \<Rightarrow> no_row_can_pass s names f)"
  have "(out, stats) = (map ?v summaries, \<lparr>segments_total = of_nat (length summaries),
      segments_skipped = of_nat (length (filter id (map ?v summaries)))\<rparr>)"
    using assms(1) [symmetric] unfolding verdicts_over_def verdict_step_fold stats_zero_def Let_def by simp
  then have out: "out = map ?v summaries" and st: "segments_total stats = of_nat (length summaries)"
    "segments_skipped stats = of_nat (length (filter id out))" by simp_all
  have "\<exists>summary. summaries ! s = Some summary \<and>
      (\<forall>cols rows d. summary_ok summary names cols rows \<and> d \<in> rows \<longrightarrow> filter_eval gd cols d f \<noteq> TTrue)"
    if s: "s < length summaries" "out ! s" for s
  proof -
    obtain summary where "summaries ! s = Some summary" "no_row_can_pass summary names f"
      using s by (auto simp: out split: option.splits)
    then show ?thesis using no_row_can_pass_sound assms(2) by blast
  qed
  then show ?thesis using st by (simp add: out)
qed

text \<open>A segment of integers 5 to 9 against \<open>x >= 10\<close>.\<close>

definition small_segment :: segment_summary where
  "small_segment = \<lparr>int_columns = [\<lparr>ic_name = ''x'', ic_min = 5, ic_max = 9, ic_present = 3\<rparr>],
     uint_columns = [], numeric_columns = [], sm_partition = None\<rparr>"

definition one_column :: column_names where
  "one_column = \<lparr>integer_name = \<lambda>i. if i = 0 then Some ''x'' else None,
     unsigned_integer_name = \<lambda>_. None, numeric_name = \<lambda>_. None\<rparr>"

theorem verdicts_over_sound_witness:
  "\<exists>stats. verdicts_over (Some (RLeaf (RIntRange 0 10 20))) [Some small_segment, None] one_column True = ([True, False], stats) \<and>
     segments_skipped stats = 1"
proof -
  obtain out stats where v: "verdicts_over (Some (RLeaf (RIntRange 0 10 20))) [Some small_segment, None] one_column True = (out, stats)"
    by fastforce
  moreover have "out = [True, False]"
    using v by (simp add: verdicts_over_def verdict_step_def small_segment_def one_column_def int_range_impossible_def int_summary_def Let_def)
  ultimately show ?thesis using verdicts_over_sound [OF v] by simp
qed

end
