(* ===== verification/Filter_Wire.thy ===== *)
theory Filter_Wire
  imports Filter_Eval
begin

text \<open>
  The wire filter tree (\<open>FilterExpr\<close> of \<open>search.proto\<close>), its validation and its leaves in
  the order of the positional handshake (\<open>src/filter.rs\<close>), with the validation of geo
  regions (\<open>src/node.rs\<close>).
\<close>

section \<open>The wire tree\<close>

datatype bound_value = VInt int | VNum f64 | VUint u64

record filter_bound =
  fb_value :: "bound_value option"
  fb_exclusive :: bool

record facet_predicate =
  fp_column :: string
  fp_values :: "string list"

record number_predicate =
  np_column :: string
  np_min :: "filter_bound option"
  np_max :: "filter_bound option"

record map_facet_predicate =
  mf_column :: string
  mf_key :: string
  mf_values :: "string list"

record map_number_predicate =
  mn_column :: string
  mn_key :: string
  mn_min :: "filter_bound option"
  mn_max :: "filter_bound option"

record map_key_predicate =
  mk_column :: string
  mk_key :: string

record string_bound =
  sb_value :: string
  sb_exclusive :: bool

record string_range_predicate =
  sr_column :: string
  sr_key :: string
  sr_min :: "string_bound option"
  sr_max :: "string_bound option"

record string_prefix_predicate =
  sp_column :: string
  sp_key :: string
  sp_prefix :: string

text \<open>The region oneof: a box, or a radius with its wire metric.\<close>

datatype wire_region =
    WBbox f64 f64 f64 f64
  | WRadius f64 f64 f64 int

record geo_filter =
  gf_column :: string
  gf_region :: "wire_region option"

datatype filter_expr =
    EUnset
  | EAnd "filter_expr list"
  | EOr "filter_expr list"
  | ENot filter_expr
  | EFacet facet_predicate
  | ENumber number_predicate
  | EMapFacet map_facet_predicate
  | EMapNumber map_number_predicate
  | ETypedMapNumber map_number_predicate
  | EMapHasKey map_key_predicate
  | ETypedMapHasKey map_key_predicate
  | EHas string
  | EGeo geo_filter
  | EStringRange string_range_predicate
  | EStringPrefix string_prefix_predicate
  | EMapStringRange string_range_predicate
  | EMapStringPrefix string_prefix_predicate

definition MAX_DEPTH :: nat where "MAX_DEPTH = 32"

definition MAX_LEAVES :: nat where "MAX_LEAVES = 256"

section \<open>Bounds\<close>

definition edge_of :: "filter_bound \<Rightarrow> edge option" where
  "edge_of b =
     map_option (\<lambda>v. \<lparr>edge_value = (case v of
                        VInt n \<Rightarrow> BoundI n
                      | VUint n \<Rightarrow> BoundU n
                      | VNum x \<Rightarrow> BoundF (if f64_eq x 0 then 0 else x)),
                      edge_exclusive = fb_exclusive b\<rparr>) (fb_value b)"

definition validate_bound :: "filter_bound option \<Rightarrow> unit result" where
  "validate_bound b =
     (case b of
        None \<Rightarrow> Inr ()
      | Some bound \<Rightarrow>
          (case fb_value bound of
             None \<Rightarrow> Inl (InvalidArgument, ''filter bound on {column:?}: no value set; a bound says the number it bounds by'')
           | Some (VNum x) \<Rightarrow>
               ensure (f64_is_finite x)
                 (InvalidArgument, ''filter bound on {column:?}: {x} is not finite; NaN and infinity bound nothing a column can hold'')
           | Some _ \<Rightarrow> Inr ()))"

section \<open>Geo regions\<close>

definition in_closed :: "f64 \<Rightarrow> f64 \<Rightarrow> f64 \<Rightarrow> bool" where
  "in_closed lo hi x = (f64_le lo x \<and> f64_le x hi)"

definition validate_lat_lon :: "f64 \<Rightarrow> f64 \<Rightarrow> unit result" where
  "validate_lat_lon lat lon =
     (if \<not> f64_is_finite lat \<or> \<not> in_closed 0xC056800000000000 0x4056800000000000 lat
      then Inl (InvalidArgument, ''{what}: latitude {lat} is not a finite degree in [-90, 90]'')
      else if \<not> f64_is_finite lon \<or> \<not> in_closed 0xC066800000000000 0x4066800000000000 lon
      then Inl (InvalidArgument, ''{what}: longitude {lon} is not a finite degree in [-180, 180]'')
      else Inr ())"

definition metric_of :: "int \<Rightarrow> geo_metric option" where
  "metric_of m = (if m = 1 then Some Haversine else if m = 2 then Some Manhattan else None)"

definition validate_geo_filter :: "geo_filter \<Rightarrow> geo_region result" where
  "validate_geo_filter g =
     (if gf_column g = [] then Inl (InvalidArgument, ''geo filter: a filter names the geo column it reads'')
      else
        (case gf_region g of
           Some (WBbox min_la max_la min_lo max_lo) \<Rightarrow>
             bind_result (validate_lat_lon min_la min_lo) (\<lambda>_.
             bind_result (validate_lat_lon max_la max_lo) (\<lambda>_.
             if f64_lt max_la min_la then Inl (InvalidArgument, ''{named}: min_lat {} is above max_lat {}'')
             else if f64_lt max_lo min_lo
             then Inl (InvalidArgument, ''{named}: min_lon {} is east of max_lon {}, which would describe an antimeridian-crossing box'')
             else Inr (Bbox min_la max_la min_lo max_lo)))
         | Some (WRadius lat lon meters metric) \<Rightarrow>
             bind_result (validate_lat_lon lat lon) (\<lambda>_.
             if \<not> f64_is_finite meters \<or> f64_le meters 0
             then Inl (InvalidArgument, ''{named}: radius meters {} must be finite and above zero'')
             else
               (case metric_of metric of
                  Some m \<Rightarrow> Inr (Radius lat lon meters m)
                | None \<Rightarrow> Inl (InvalidArgument, ''{named}: unknown geo metric {}'')))
         | None \<Rightarrow> Inl (InvalidArgument, ''{named}: no region set; a filter must name a bbox or a radius'')))"

section \<open>Validation\<close>

text \<open>The contract of one leaf; a connective has none.\<close>

definition named_column :: "string \<Rightarrow> string \<Rightarrow> unit result" where
  "named_column column msg = ensure (column \<noteq> []) (InvalidArgument, msg)"

definition two_bounds :: "filter_bound option \<Rightarrow> filter_bound option \<Rightarrow> string \<Rightarrow> unit result" where
  "two_bounds mn mx msg =
     bind_result (validate_bound mn) (\<lambda>_.
     bind_result (validate_bound mx) (\<lambda>_.
     ensure (mn \<noteq> None \<or> mx \<noteq> None) (InvalidArgument, msg)))"

definition string_range_ok :: "string_range_predicate \<Rightarrow> unit result" where
  "string_range_ok p =
     bind_result (named_column (sr_column p) ''filter string-range predicate: a predicate names the column it reads'') (\<lambda>_.
     ensure (sr_min p \<noteq> None \<or> sr_max p \<noteq> None)
       (InvalidArgument, ''filter string-range predicate on {:?}: at least one bound; bare presence is has({})''))"

definition string_prefix_ok :: "string_prefix_predicate \<Rightarrow> unit result" where
  "string_prefix_ok p =
     bind_result (named_column (sp_column p) ''filter string-prefix predicate: a predicate names the column it reads'') (\<lambda>_.
     ensure (sp_prefix p \<noteq> [])
       (InvalidArgument, ''filter string-prefix predicate on {:?}: an empty prefix matches every value, which is has({})''))"

definition map_number_ok :: "map_number_predicate \<Rightarrow> unit result" where
  "map_number_ok p =
     bind_result (named_column (mn_column p) ''filter map-number predicate: a predicate names the column it reads'') (\<lambda>_.
     two_bounds (mn_min p) (mn_max p)
       ''filter map-number predicate on {:?}[{:?}]: at least one bound; key presence is `{:?} in {}`'')"

fun leaf_ok :: "filter_expr \<Rightarrow> unit result" where
  "leaf_ok (EFacet p) =
     bind_result (named_column (fp_column p) ''filter facet predicate: a predicate names the column it reads'') (\<lambda>_.
     ensure (fp_values p \<noteq> [])
       (InvalidArgument, ''filter facet predicate on {:?}: at least one value; membership in the empty set is a predicate nobody meant to send''))"
| "leaf_ok (ENumber p) =
     bind_result (named_column (np_column p) ''filter number predicate: a predicate names the column it reads'') (\<lambda>_.
     two_bounds (np_min p) (np_max p) ''filter number predicate on {:?}: at least one bound; bare presence is has({})'')"
| "leaf_ok (EMapFacet p) =
     bind_result (named_column (mf_column p) ''filter map-facet predicate: a predicate names the column it reads'') (\<lambda>_.
     ensure (mf_values p \<noteq> []) (InvalidArgument, ''filter map-facet predicate on {:?}[{:?}]: at least one value''))"
| "leaf_ok (EMapNumber p) = map_number_ok p"
| "leaf_ok (ETypedMapNumber p) = map_number_ok p"
| "leaf_ok (EMapHasKey p) = named_column (mk_column p) ''filter map-key predicate: a predicate names the column it reads''"
| "leaf_ok (ETypedMapHasKey p) = named_column (mk_column p) ''filter map-key predicate: a predicate names the column it reads''"
| "leaf_ok (EHas column) = named_column column ''filter has predicate: a predicate names the column it reads''"
| "leaf_ok (EGeo g) = bind_result (validate_geo_filter g) (\<lambda>_. Inr ())"
| "leaf_ok (EStringRange p) = string_range_ok p"
| "leaf_ok (EMapStringRange p) = string_range_ok p"
| "leaf_ok (EStringPrefix p) = string_prefix_ok p"
| "leaf_ok (EMapStringPrefix p) = string_prefix_ok p"
| "leaf_ok _ = Inr ()"

text \<open>The walk with its depth and the count of leaves seen.\<close>

fun validate_node :: "filter_expr \<Rightarrow> nat \<Rightarrow> nat \<Rightarrow> nat result"
  and validate_nodes :: "filter_expr list \<Rightarrow> nat \<Rightarrow> nat \<Rightarrow> nat result" where
  "validate_node expr depth leaves =
     (if MAX_DEPTH < depth then Inl (InvalidArgument, ''filter tree is deeper than {MAX_DEPTH} levels'')
      else
        (case expr of
           EUnset \<Rightarrow> Inl (InvalidArgument, ''filter: a node with no expression set; an empty filter is the field left absent, never an empty node'')
         | EAnd children \<Rightarrow>
             if children = [] then Inl (InvalidArgument, ''filter: and/or with no children; a connective with nothing to connect is refused rather than resolved to a vacuous truth value'')
             else validate_nodes children (depth + 1) leaves
         | EOr children \<Rightarrow>
             if children = [] then Inl (InvalidArgument, ''filter: and/or with no children; a connective with nothing to connect is refused rather than resolved to a vacuous truth value'')
             else validate_nodes children (depth + 1) leaves
         | ENot child \<Rightarrow> validate_node child (depth + 1) leaves
         | leaf \<Rightarrow> bind_result (leaf_ok leaf) (\<lambda>_. Inr (leaves + 1))))"
| "validate_nodes [] depth leaves = Inr leaves"
| "validate_nodes (c # cs) depth leaves = bind_result (validate_node c depth leaves) (validate_nodes cs depth)"

definition validate_filter :: "filter_expr \<Rightarrow> unit result" where
  "validate_filter expr =
     bind_result (validate_node expr 1 0) (\<lambda>leaves.
     ensure (leaves \<le> MAX_LEAVES)
       (InvalidArgument, ''filter has {leaves} leaves; the limit is {MAX_LEAVES} - a filter is a predicate, not a program''))"

text \<open>The leaves in handshake order.\<close>

fun walk_leaves :: "filter_expr \<Rightarrow> filter_expr list" where
  "walk_leaves (EAnd children) = concat (map walk_leaves children)"
| "walk_leaves (EOr children) = concat (map walk_leaves children)"
| "walk_leaves (ENot child) = walk_leaves child"
| "walk_leaves EUnset = []"
| "walk_leaves leaf = [leaf]"

definition leaf_count :: "filter_expr \<Rightarrow> nat" where
  "leaf_count expr = length (walk_leaves expr)"

section \<open>What validation accepts\<close>

text \<open>The specification: a tree of at most \<open>n\<close> levels whose nodes are all set and well formed.\<close>

fun wf_tree :: "nat \<Rightarrow> filter_expr \<Rightarrow> bool" where
  "wf_tree 0 e = False"
| "wf_tree (Suc n) EUnset = False"
| "wf_tree (Suc n) (EAnd cs) = (cs \<noteq> [] \<and> list_all (wf_tree n) cs)"
| "wf_tree (Suc n) (EOr cs) = (cs \<noteq> [] \<and> list_all (wf_tree n) cs)"
| "wf_tree (Suc n) (ENot c) = wf_tree n c"
| "wf_tree (Suc n) leaf = (leaf_ok leaf = Inr ())"

lemma validate_node_iff:
  "validate_node e depth leaves = Inr m \<longleftrightarrow> wf_tree (33 - depth) e \<and> m = leaves + leaf_count e"
  "validate_nodes es depth' leaves' = Inr m' \<longleftrightarrow>
     list_all (wf_tree (33 - depth')) es \<and> m' = leaves' + length (concat (map walk_leaves es))"
proof (induction e depth leaves and es depth' leaves' arbitrary: m and m' rule: validate_node_validate_nodes.induct)
  case (1 e depth leaves)
  show ?case
  proof (cases "MAX_DEPTH < depth")
    case True
    then show ?thesis by (simp add: MAX_DEPTH_def)
  next
    case False
    then have d: "33 - depth = Suc (33 - (depth + 1))" by (simp add: MAX_DEPTH_def)
    show ?thesis
      using 1 False unfolding d by (cases e) (auto simp: leaf_count_def bind_result_eq_Inr)
  qed
next
  case (3 c cs depth leaves)
  then show ?case by (auto simp: bind_result_eq_Inr leaf_count_def)
qed auto


text \<open>What the comparisons rely on: the bounds of a validated leaf resolve to sound edges.\<close>

lemma edge_of_ok:
  assumes "validate_bound (Some b) = Inr ()" "\<forall>n. fb_value b = Some (VInt n) \<longrightarrow> in_i64 n"
  shows "\<exists>e. edge_of b = Some e \<and> edge_ok e"
proof -
  obtain v where v: "fb_value b = Some v" using assms(1) by (auto simp: validate_bound_def split: option.splits)
  have "(if f64_eq x 0 then 0 else x) \<noteq> 0x8000000000000000" for x
    by (auto simp: f64_eq_def f64_is_nan_def f64_key_def f64_magnitude_def f64_sign_def)
  moreover have "f64_is_finite 0" by (simp add: f64_is_finite_def f64_magnitude_def)
  ultimately show ?thesis
    using assms v by (cases v) (auto simp: edge_of_def edge_ok_def validate_bound_def)
qed

end
