(* ===== verification/Filter_Resolve.thy ===== *)
theory Filter_Resolve
  imports Filter_Wire "HOL-Library.List_Lexorder" "HOL-Library.Char_ord" "HOL-Library.Sublist"
begin

text \<open>
  Resolution of a validated filter tree against one shard (\<open>resolve_filter\<close>,
  \<open>resolve_string_predicate\<close> and \<open>filter_columns_known\<close> of \<open>src/node.rs\<close>): names become
  column indexes, strings become dictionary ordinals, bounds become exact ranges. The shard's
  tables are a parameter; a resolved tree gives every row the verdict the wire tree has on
  the row's own strings and numbers.
\<close>

section \<open>The shard's tables\<close>

datatype shard_shape = Building | Spilling | Resident | Segmented

record shard_tables =
  shape :: shard_shape
  facet_index :: "string \<Rightarrow> nat option"
  facet_value_ord_of :: "nat \<Rightarrow> string \<Rightarrow> u32 option"
  facet_dictionary :: "nat \<Rightarrow> string list"
  facet_dictionary_sorted :: "nat \<Rightarrow> bool"
  numeric_index :: "string \<Rightarrow> nat option"
  integer_index :: "string \<Rightarrow> nat option"
  unsigned_integer_index :: "string \<Rightarrow> nat option"
  geo_index :: "string \<Rightarrow> nat option"
  map_facet_index :: "string \<Rightarrow> nat option"
  map_facet_key_ord :: "nat \<Rightarrow> string \<Rightarrow> u32 option"
  map_facet_value_ord_of :: "nat \<Rightarrow> string \<Rightarrow> u32 option"
  map_facet_values :: "nat \<Rightarrow> string list"
  map_facet_values_sorted :: "nat \<Rightarrow> bool"
  map_numeric_index :: "string \<Rightarrow> nat option"
  map_numeric_key_ord :: "nat \<Rightarrow> string \<Rightarrow> u32 option"
  map_integer_index :: "string \<Rightarrow> nat option"
  map_integer_key_ord :: "nat \<Rightarrow> string \<Rightarrow> u32 option"
  map_unsigned_integer_index :: "string \<Rightarrow> nat option"
  map_unsigned_integer_key_ord :: "nat \<Rightarrow> string \<Rightarrow> u32 option"

section \<open>String predicates\<close>

text \<open>A bound is a string and whether it is exclusive; a prefix is a string.\<close>

record string_target =
  st_min :: "(string \<times> bool) option"
  st_max :: "(string \<times> bool) option"
  st_prefix :: "string option"

definition admits :: "string_target \<Rightarrow> string \<Rightarrow> bool" where
  "admits t v =
     ((case st_min t of None \<Rightarrow> True | Some (b, exclusive) \<Rightarrow> if exclusive then b < v else b \<le> v) \<and>
      (case st_max t of None \<Rightarrow> True | Some (b, exclusive) \<Rightarrow> if exclusive then v < b else v \<le> b) \<and>
      (case st_prefix t of None \<Rightarrow> True | Some p \<Rightarrow> prefix p v))"

text \<open>\<open>partition_point\<close>: the length of the prefix the predicate holds on.\<close>

definition partition_point :: "('a \<Rightarrow> bool) \<Rightarrow> 'a list \<Rightarrow> nat" where
  "partition_point P xs = length (takeWhile P xs)"

definition below_start :: "string_target \<Rightarrow> string \<Rightarrow> bool" where
  "below_start t v =
     ((case st_min t of None \<Rightarrow> False | Some (b, exclusive) \<Rightarrow> if exclusive then v \<le> b else v < b) \<or>
      (case st_prefix t of None \<Rightarrow> False | Some p \<Rightarrow> v < p))"

definition below_end :: "string_target \<Rightarrow> string \<Rightarrow> bool" where
  "below_end t v =
     ((case st_prefix t of None \<Rightarrow> True | Some p \<Rightarrow> v < p \<or> prefix p v) \<and>
      (case st_max t of None \<Rightarrow> True | Some (b, exclusive) \<Rightarrow> if exclusive then v < b else v \<le> b))"

definition ord_range :: "string_target \<Rightarrow> string list \<Rightarrow> u32 \<times> u32" where
  "ord_range t dict =
     (let lo = partition_point (below_start t) dict;
          hi = partition_point (below_end t) dict
      in (of_nat lo, of_nat (max hi lo)))"

definition matching_ords :: "string_target \<Rightarrow> string list \<Rightarrow> u32 list" where
  "matching_ords t dict = map (\<lambda>(i, v). of_nat i) (filter (\<lambda>(i, v). admits t v) (List.enumerate 0 dict))"

definition unordered :: status where
  "unordered = (FailedPrecondition, ''{what} was written with a first-seen (unordered) dictionary; string ordering and prefixes need a dictionary in byte order, which this version writes at flush - rebuild or reshard the generation'')"

definition bulk_build :: status where
  "bulk_build = (FailedPrecondition, ''bm25 bulk build in progress; Flush first'')"

definition map_facet_target :: "shard_tables \<Rightarrow> string \<Rightarrow> string \<Rightarrow> (nat \<times> u32) option" where
  "map_facet_target tb column key =
     Option.bind (map_facet_index tb column) (\<lambda>ci. map_option (Pair ci) (map_facet_key_ord tb ci key))"

definition resolve_string_predicate ::
  "shard_tables \<Rightarrow> string \<Rightarrow> string option \<Rightarrow> string_target \<Rightarrow> resolved_leaf result" where
  "resolve_string_predicate tb column key t =
     (case key of
        None \<Rightarrow>
          (case facet_index tb column of
             None \<Rightarrow> Inr (RFacetOrdRange None 0 0)
           | Some fi \<Rightarrow>
               let dict = facet_dictionary tb fi; in_order = facet_dictionary_sorted tb fi;
                   ranged = (case ord_range t dict of (lo, hi) \<Rightarrow> RFacetOrdRange (Some fi) lo hi)
               in case shape tb of
                    Spilling \<Rightarrow> Inl bulk_build
                  | Resident \<Rightarrow> if in_order then Inr ranged else Inl unordered
                  | _ \<Rightarrow> Inr (if in_order then ranged else RFacet (Some fi) (matching_ords t dict)))
      | Some key \<Rightarrow>
          (case map_facet_target tb column key of
             None \<Rightarrow> Inr (RMapFacetOrdRange None 0 0)
           | Some (ci, key_ord) \<Rightarrow>
               let dict = map_facet_values tb ci; in_order = map_facet_values_sorted tb ci;
                   ranged = (case ord_range t dict of (lo, hi) \<Rightarrow> RMapFacetOrdRange (Some (ci, key_ord)) lo hi)
               in case shape tb of
                    Spilling \<Rightarrow> Inl bulk_build
                  | Resident \<Rightarrow> if in_order then Inr ranged else Inl unordered
                  | _ \<Rightarrow> Inr (if in_order then ranged else RMapFacet (Some (ci, key_ord)) (matching_ords t dict))))"

definition range_target :: "string_range_predicate \<Rightarrow> string_target" where
  "range_target p =
     \<lparr>st_min = map_option (\<lambda>b. (sb_value b, sb_exclusive b)) (sr_min p),
      st_max = map_option (\<lambda>b. (sb_value b, sb_exclusive b)) (sr_max p), st_prefix = None\<rparr>"

definition prefix_target :: "string_prefix_predicate \<Rightarrow> string_target" where
  "prefix_target p = \<lparr>st_min = None, st_max = None, st_prefix = Some (sp_prefix p)\<rparr>"

definition plain_key :: "string \<Rightarrow> string option" where
  "plain_key key = (if key = [] then None else Some key)"

section \<open>Leaves\<close>

definition sorted_ords :: "u32 list \<Rightarrow> u32 list" where
  "sorted_ords ords = remdups_adj (sort ords)"

definition opt_edge :: "filter_bound option \<Rightarrow> edge option" where
  "opt_edge b = Option.bind b edge_of"

definition resolve_number :: "shard_tables \<Rightarrow> number_predicate \<Rightarrow> resolved_leaf" where
  "resolve_number tb p =
     (let lo = opt_edge (np_min p); hi = opt_edge (np_max p) in
      case integer_index tb (np_column p) of
        Some ii \<Rightarrow> (case int_range lo hi of (lo, hi) \<Rightarrow> RIntRange ii lo hi)
      | None \<Rightarrow>
          (case unsigned_integer_index tb (np_column p) of
             Some ii \<Rightarrow> (case uint_range lo hi of (lo, hi) \<Rightarrow> RUintRange ii lo hi)
           | None \<Rightarrow>
               (case numeric_index tb (np_column p) of
                  Some ni \<Rightarrow> RF64Range ni lo hi
                | None \<Rightarrow> RNumberUnknown)))"

definition resolve_map_number :: "shard_tables \<Rightarrow> bool \<Rightarrow> map_number_predicate \<Rightarrow> resolved_leaf" where
  "resolve_map_number tb typed p =
     (let lo = opt_edge (mn_min p); hi = opt_edge (mn_max p) in
      case (if typed then map_integer_index tb (mn_column p) else None) of
        Some ci \<Rightarrow> (case int_range lo hi of (lo, hi) \<Rightarrow>
          RMapIntRange (map_option (Pair ci) (map_integer_key_ord tb ci (mn_key p))) lo hi)
      | None \<Rightarrow>
          (case (if typed then map_unsigned_integer_index tb (mn_column p) else None) of
             Some ci \<Rightarrow> (case uint_range lo hi of (lo, hi) \<Rightarrow>
               RMapUintRange (map_option (Pair ci) (map_unsigned_integer_key_ord tb ci (mn_key p))) lo hi)
           | None \<Rightarrow>
               RMapNumber (Option.bind (map_numeric_index tb (mn_column p))
                 (\<lambda>ci. map_option (Pair ci) (map_numeric_key_ord tb ci (mn_key p)))) lo hi))"

definition resolve_map_key :: "shard_tables \<Rightarrow> bool \<Rightarrow> map_key_predicate \<Rightarrow> map_key_ref" where
  "resolve_map_key tb typed p =
     (case map_facet_index tb (mk_column p) of
        Some ci \<Rightarrow> KeyFacet ci (map_facet_key_ord tb ci (mk_key p))
      | None \<Rightarrow>
          (case map_numeric_index tb (mk_column p) of
             Some ci \<Rightarrow> KeyNumeric ci (map_numeric_key_ord tb ci (mk_key p))
           | None \<Rightarrow>
               (case (if typed then map_integer_index tb (mk_column p) else None) of
                  Some ci \<Rightarrow> KeyInteger ci (map_integer_key_ord tb ci (mk_key p))
                | None \<Rightarrow>
                    (case (if typed then map_unsigned_integer_index tb (mk_column p) else None) of
                       Some ci \<Rightarrow> KeyUnsignedInteger ci (map_unsigned_integer_key_ord tb ci (mk_key p))
                     | None \<Rightarrow> KeyUnknown))))"

section \<open>The tree\<close>

text \<open>
  An unset node and a geo leaf that would not validate are panics; so is every ordinal lookup
  of a shard in bulk build, whose \<open>unreachable!\<close> arms say it is not searchable.
\<close>

definition map_result :: "('a \<Rightarrow> 'b) \<Rightarrow> 'e + 'a \<Rightarrow> 'e + 'b" where
  "map_result f r = bind_result r (\<lambda>x. Inr (f x))"

fun unreachable_lookup :: "shard_tables \<Rightarrow> filter_expr \<Rightarrow> bool" where
  "unreachable_lookup tb (EFacet p) = (shape tb = Spilling \<and> facet_index tb (fp_column p) \<noteq> None \<and> fp_values p \<noteq> [])"
| "unreachable_lookup tb (EMapFacet p) = (shape tb = Spilling \<and> map_facet_index tb (mf_column p) \<noteq> None)"
| "unreachable_lookup tb (EMapNumber p) = (shape tb = Spilling \<and> map_numeric_index tb (mn_column p) \<noteq> None)"
| "unreachable_lookup tb (ETypedMapNumber p) =
     (shape tb = Spilling \<and> (map_integer_index tb (mn_column p) \<noteq> None \<or>
        map_unsigned_integer_index tb (mn_column p) \<noteq> None \<or> map_numeric_index tb (mn_column p) \<noteq> None))"
| "unreachable_lookup tb (EMapHasKey p) =
     (shape tb = Spilling \<and> (map_facet_index tb (mk_column p) \<noteq> None \<or> map_numeric_index tb (mk_column p) \<noteq> None))"
| "unreachable_lookup tb (ETypedMapHasKey p) =
     (shape tb = Spilling \<and> (map_facet_index tb (mk_column p) \<noteq> None \<or> map_numeric_index tb (mk_column p) \<noteq> None \<or>
        map_integer_index tb (mk_column p) \<noteq> None \<or> map_unsigned_integer_index tb (mk_column p) \<noteq> None))"
| "unreachable_lookup tb (EStringRange p) = (shape tb = Spilling \<and> sr_key p \<noteq> [] \<and> map_facet_index tb (sr_column p) \<noteq> None)"
| "unreachable_lookup tb (EStringPrefix p) = (shape tb = Spilling \<and> sp_key p \<noteq> [] \<and> map_facet_index tb (sp_column p) \<noteq> None)"
| "unreachable_lookup tb (EMapStringRange p) = (shape tb = Spilling \<and> map_facet_index tb (sr_column p) \<noteq> None)"
| "unreachable_lookup tb (EMapStringPrefix p) = (shape tb = Spilling \<and> map_facet_index tb (sp_column p) \<noteq> None)"
| "unreachable_lookup tb _ = False"

fun resolve_filter :: "shard_tables \<Rightarrow> filter_expr \<Rightarrow> resolved_filter result option"
  and resolve_filters :: "shard_tables \<Rightarrow> filter_expr list \<Rightarrow> resolved_filter list result option" where
  "resolve_filter tb EUnset = None"
| "resolve_filter tb (EAnd es) = map_option (map_result RAnd) (resolve_filters tb es)"
| "resolve_filter tb (EOr es) = map_option (map_result ROr) (resolve_filters tb es)"
| "resolve_filter tb (ENot e) = map_option (map_result RNot) (resolve_filter tb e)"
| "resolve_filter tb (EStringRange p) =
     (if unreachable_lookup tb (EStringRange p) then None else
      Some (map_result RLeaf (resolve_string_predicate tb (sr_column p) (plain_key (sr_key p)) (range_target p))))"
| "resolve_filter tb (EMapStringRange p) =
     (if unreachable_lookup tb (EMapStringRange p) then None else
      Some (map_result RLeaf (resolve_string_predicate tb (sr_column p) (Some (sr_key p)) (range_target p))))"
| "resolve_filter tb (EStringPrefix p) =
     (if unreachable_lookup tb (EStringPrefix p) then None else
      Some (map_result RLeaf (resolve_string_predicate tb (sp_column p) (plain_key (sp_key p)) (prefix_target p))))"
| "resolve_filter tb (EMapStringPrefix p) =
     (if unreachable_lookup tb (EMapStringPrefix p) then None else
      Some (map_result RLeaf (resolve_string_predicate tb (sp_column p) (Some (sp_key p)) (prefix_target p))))"
| "resolve_filter tb (EFacet p) =
     (if unreachable_lookup tb (EFacet p) then None else
      (let column = facet_index tb (fp_column p) in
      Some (Inr (RLeaf (RFacet column
        (case column of
           None \<Rightarrow> []
         | Some fi \<Rightarrow> sorted_ords (List.map_filter (facet_value_ord_of tb fi) (fp_values p))))))))"
| "resolve_filter tb (ENumber p) =
     (if unreachable_lookup tb (ENumber p) then None else
      Some (Inr (RLeaf (resolve_number tb p))))"
| "resolve_filter tb (EMapFacet p) =
     (if unreachable_lookup tb (EMapFacet p) then None else
      (let target = map_facet_target tb (mf_column p) (mf_key p) in
      Some (Inr (RLeaf (RMapFacet target
        (case target of
           None \<Rightarrow> []
         | Some (ci, _) \<Rightarrow> sorted_ords (List.map_filter (map_facet_value_ord_of tb ci) (mf_values p))))))))"
| "resolve_filter tb (EMapNumber p) =
     (if unreachable_lookup tb (EMapNumber p) then None else
      Some (Inr (RLeaf (resolve_map_number tb False p))))"
| "resolve_filter tb (ETypedMapNumber p) =
     (if unreachable_lookup tb (ETypedMapNumber p) then None else
      Some (Inr (RLeaf (resolve_map_number tb True p))))"
| "resolve_filter tb (EMapHasKey p) =
     (if unreachable_lookup tb (EMapHasKey p) then None else
      Some (Inr (RLeaf (RMapHasKey (resolve_map_key tb False p)))))"
| "resolve_filter tb (ETypedMapHasKey p) =
     (if unreachable_lookup tb (ETypedMapHasKey p) then None else
      Some (Inr (RLeaf (RMapHasKey (resolve_map_key tb True p)))))"
| "resolve_filter tb (EHas column) =
     Some (Inr (RLeaf (RHas (facet_index tb column) (numeric_index tb column) (integer_index tb column)
       (unsigned_integer_index tb column) (geo_index tb column))))"
| "resolve_filter tb (EGeo g) =
     (case validate_geo_filter g of
        Inl _ \<Rightarrow> None
      | Inr region \<Rightarrow> Some (Inr (RLeaf (RGeo (geo_index tb (gf_column g)) region))))"
| "resolve_filters tb [] = Some (Inr [])"
| "resolve_filters tb (e # es) =
     (case resolve_filter tb e of
        None \<Rightarrow> None
      | Some (Inl err) \<Rightarrow> Some (Inl err)
      | Some (Inr f) \<Rightarrow> map_option (map_result (Cons f)) (resolve_filters tb es))"

text \<open>Which leaves the shard can resolve, in handshake order.\<close>

definition string_target_known :: "shard_tables \<Rightarrow> string \<Rightarrow> string option \<Rightarrow> bool" where
  "string_target_known tb column key =
     (case key of
        None \<Rightarrow> facet_index tb column \<noteq> None
      | Some key \<Rightarrow> map_facet_target tb column key \<noteq> None)"

definition map_number_known :: "shard_tables \<Rightarrow> bool \<Rightarrow> map_number_predicate \<Rightarrow> bool" where
  "map_number_known tb typed p =
     (Option.bind (if typed then map_integer_index tb (mn_column p) else None)
        (\<lambda>ci. map_integer_key_ord tb ci (mn_key p)) \<noteq> None \<or>
      Option.bind (if typed then map_unsigned_integer_index tb (mn_column p) else None)
        (\<lambda>ci. map_unsigned_integer_key_ord tb ci (mn_key p)) \<noteq> None \<or>
      Option.bind (map_numeric_index tb (mn_column p)) (\<lambda>ci. map_numeric_key_ord tb ci (mn_key p)) \<noteq> None)"

definition map_key_known :: "shard_tables \<Rightarrow> bool \<Rightarrow> map_key_predicate \<Rightarrow> bool" where
  "map_key_known tb typed p =
     (map_facet_index tb (mk_column p) \<noteq> None \<or> map_numeric_index tb (mk_column p) \<noteq> None \<or>
      typed \<and> map_integer_index tb (mk_column p) \<noteq> None \<or>
      typed \<and> map_unsigned_integer_index tb (mk_column p) \<noteq> None)"

fun leaf_known :: "shard_tables \<Rightarrow> filter_expr \<Rightarrow> bool" where
  "leaf_known tb (EFacet p) = (facet_index tb (fp_column p) \<noteq> None)"
| "leaf_known tb (ENumber p) =
     (integer_index tb (np_column p) \<noteq> None \<or> unsigned_integer_index tb (np_column p) \<noteq> None \<or>
      numeric_index tb (np_column p) \<noteq> None)"
| "leaf_known tb (EMapFacet p) = (map_facet_target tb (mf_column p) (mf_key p) \<noteq> None)"
| "leaf_known tb (EMapNumber p) = map_number_known tb False p"
| "leaf_known tb (ETypedMapNumber p) = map_number_known tb True p"
| "leaf_known tb (EMapHasKey p) = map_key_known tb False p"
| "leaf_known tb (ETypedMapHasKey p) = map_key_known tb True p"
| "leaf_known tb (EHas column) =
     (facet_index tb column \<noteq> None \<or> numeric_index tb column \<noteq> None \<or> integer_index tb column \<noteq> None \<or>
      unsigned_integer_index tb column \<noteq> None \<or> geo_index tb column \<noteq> None)"
| "leaf_known tb (EGeo g) = (geo_index tb (gf_column g) \<noteq> None)"
| "leaf_known tb (EStringRange p) = string_target_known tb (sr_column p) (plain_key (sr_key p))"
| "leaf_known tb (EMapStringRange p) = string_target_known tb (sr_column p) (Some (sr_key p))"
| "leaf_known tb (EStringPrefix p) = string_target_known tb (sp_column p) (plain_key (sp_key p))"
| "leaf_known tb (EMapStringPrefix p) = string_target_known tb (sp_column p) (Some (sp_key p))"
| "leaf_known tb _ = False"

fun unreachable_known :: "shard_tables \<Rightarrow> filter_expr \<Rightarrow> bool" where
  "unreachable_known tb (EFacet p) = False"
| "unreachable_known tb (EMapHasKey p) = False"
| "unreachable_known tb (ETypedMapHasKey p) = False"
| "unreachable_known tb leaf = unreachable_lookup tb leaf"

definition filter_columns_known :: "shard_tables \<Rightarrow> filter_expr \<Rightarrow> bool list option" where
  "filter_columns_known tb expr =
     (if list_ex (unreachable_known tb) (walk_leaves expr) then None
      else Some (map (leaf_known tb) (walk_leaves expr)))"

section \<open>What a filter means\<close>

text \<open>
  The row's own values by column name: strings through the dictionary, numbers as exact
  rationals. A leaf on an absent value is unknown.
\<close>

definition facet_string :: "shard_tables \<Rightarrow> numeric_read \<Rightarrow> u32 \<Rightarrow> string \<Rightarrow> string option" where
  "facet_string tb cols d column =
     Option.bind (facet_index tb column) (\<lambda>fi.
       map_option (\<lambda>x. facet_dictionary tb fi ! unat x) (facet_ord cols fi d))"

definition map_facet_string :: "shard_tables \<Rightarrow> numeric_read \<Rightarrow> u32 \<Rightarrow> string \<Rightarrow> string \<Rightarrow> string option" where
  "map_facet_string tb cols d column key =
     Option.bind (map_facet_target tb column key) (\<lambda>(ci, k).
       map_option (\<lambda>x. map_facet_values tb ci ! unat x) (map_facet_value_ord cols ci k d))"

definition row_string :: "shard_tables \<Rightarrow> numeric_read \<Rightarrow> u32 \<Rightarrow> string \<Rightarrow> string option \<Rightarrow> string option" where
  "row_string tb cols d column key =
     (case key of None \<Rightarrow> facet_string tb cols d column | Some key \<Rightarrow> map_facet_string tb cols d column key)"

definition row_number :: "shard_tables \<Rightarrow> numeric_read \<Rightarrow> u32 \<Rightarrow> string \<Rightarrow> rat option" where
  "row_number tb cols d column =
     (case integer_index tb column of
        Some ii \<Rightarrow> map_option of_int (int_value cols ii d)
      | None \<Rightarrow>
          (case unsigned_integer_index tb column of
             Some ii \<Rightarrow> map_option (\<lambda>v. of_int (uint v)) (uint_value cols ii d)
           | None \<Rightarrow> Option.bind (numeric_index tb column) (\<lambda>ni. map_option f64_value (num_value cols ni d))))"

definition row_map_number :: "shard_tables \<Rightarrow> numeric_read \<Rightarrow> u32 \<Rightarrow> bool \<Rightarrow> string \<Rightarrow> string \<Rightarrow> rat option" where
  "row_map_number tb cols d typed column key =
     (case (if typed then map_integer_index tb column else None) of
        Some ci \<Rightarrow> Option.bind (map_integer_key_ord tb ci key) (\<lambda>k. map_option of_int (map_int_value cols ci k d))
      | None \<Rightarrow>
          (case (if typed then map_unsigned_integer_index tb column else None) of
             Some ci \<Rightarrow> Option.bind (map_unsigned_integer_key_ord tb ci key)
               (\<lambda>k. map_option (\<lambda>v. of_int (uint v)) (map_uint_value cols ci k d))
           | None \<Rightarrow> Option.bind (map_numeric_index tb column)
               (\<lambda>ci. Option.bind (map_numeric_key_ord tb ci key) (\<lambda>k. map_option f64_value (map_value cols ci k d)))))"

fun leaf_meaning :: "meters \<Rightarrow> shard_tables \<Rightarrow> numeric_read \<Rightarrow> u32 \<Rightarrow> filter_expr \<Rightarrow> tri" where
  "leaf_meaning gd tb cols d (EFacet p) = tri_opt (facet_string tb cols d (fp_column p)) (\<lambda>s. s \<in> set (fp_values p))"
| "leaf_meaning gd tb cols d (EMapFacet p) =
     tri_opt (map_facet_string tb cols d (mf_column p) (mf_key p)) (\<lambda>s. s \<in> set (mf_values p))"
| "leaf_meaning gd tb cols d (ENumber p) =
     tri_opt (row_number tb cols d (np_column p)) (between (opt_edge (np_min p)) (opt_edge (np_max p)))"
| "leaf_meaning gd tb cols d (EMapNumber p) =
     tri_opt (row_map_number tb cols d False (mn_column p) (mn_key p)) (between (opt_edge (mn_min p)) (opt_edge (mn_max p)))"
| "leaf_meaning gd tb cols d (ETypedMapNumber p) =
     tri_opt (row_map_number tb cols d True (mn_column p) (mn_key p)) (between (opt_edge (mn_min p)) (opt_edge (mn_max p)))"
| "leaf_meaning gd tb cols d (EStringRange p) =
     tri_opt (row_string tb cols d (sr_column p) (plain_key (sr_key p))) (admits (range_target p))"
| "leaf_meaning gd tb cols d (EMapStringRange p) =
     tri_opt (row_string tb cols d (sr_column p) (Some (sr_key p))) (admits (range_target p))"
| "leaf_meaning gd tb cols d (EStringPrefix p) =
     tri_opt (row_string tb cols d (sp_column p) (plain_key (sp_key p))) (admits (prefix_target p))"
| "leaf_meaning gd tb cols d (EMapStringPrefix p) =
     tri_opt (row_string tb cols d (sp_column p) (Some (sp_key p))) (admits (prefix_target p))"
| "leaf_meaning gd tb cols d (EMapHasKey p) = leaf_eval gd cols d (RMapHasKey (resolve_map_key tb False p))"
| "leaf_meaning gd tb cols d (ETypedMapHasKey p) = leaf_eval gd cols d (RMapHasKey (resolve_map_key tb True p))"
| "leaf_meaning gd tb cols d (EHas column) =
     tri_of (facet_string tb cols d column \<noteq> None \<or> present (numeric_index tb column) (\<lambda>i. num_value cols i d) \<or>
             present (integer_index tb column) (\<lambda>i. int_value cols i d) \<or>
             present (unsigned_integer_index tb column) (\<lambda>i. uint_value cols i d) \<or>
             present (geo_index tb column) (\<lambda>i. geo_value cols i d))"
| "leaf_meaning gd tb cols d (EGeo g) =
     tri_opt (Option.bind (geo_index tb (gf_column g)) (\<lambda>gi. geo_value cols gi d)) (\<lambda>(lat, lon).
       (case validate_geo_filter g of Inl _ \<Rightarrow> False | Inr region \<Rightarrow> region_contains gd region lat lon))"
| "leaf_meaning gd tb cols d _ = TUnknown"

text \<open>Kleene's strong logic over the tree.\<close>

fun meaning :: "meters \<Rightarrow> shard_tables \<Rightarrow> numeric_read \<Rightarrow> u32 \<Rightarrow> filter_expr \<Rightarrow> tri" where
  "meaning gd tb cols d (EAnd es) = foldr min (map (meaning gd tb cols d) es) TTrue"
| "meaning gd tb cols d (EOr es) = foldr max (map (meaning gd tb cols d) es) TFalse"
| "meaning gd tb cols d (ENot e) = tri_not (meaning gd tb cols d e)"
| "meaning gd tb cols d leaf = leaf_meaning gd tb cols d leaf"

text \<open>
  What the tables promise: a dictionary lists distinct values, looks them up, is in byte order
  where it says so and has room in 32 bits; a row's ordinals lie in its dictionary; an \<open>i64\<close>
  column holds \<open>i64\<close> values and a double column holds no NaN.
\<close>

definition dict_ok :: "string list \<Rightarrow> (string \<Rightarrow> u32 option) \<Rightarrow> bool \<Rightarrow> bool" where
  "dict_ok dict ord_of in_order =
     (length dict < 2 ^ 32 \<and> (in_order \<longrightarrow> sorted dict) \<and>
      (\<forall>s x. ord_of s = Some x \<longleftrightarrow> unat x < length dict \<and> dict ! unat x = s))"

definition tables_ok :: "shard_tables \<Rightarrow> numeric_read \<Rightarrow> bool" where
  "tables_ok tb cols =
     ((\<forall>fi. dict_ok (facet_dictionary tb fi) (facet_value_ord_of tb fi) (facet_dictionary_sorted tb fi)) \<and>
      (\<forall>ci. dict_ok (map_facet_values tb ci) (map_facet_value_ord_of tb ci) (map_facet_values_sorted tb ci)) \<and>
      (\<forall>fi d x. facet_ord cols fi d = Some x \<longrightarrow> unat x < length (facet_dictionary tb fi)) \<and>
      (\<forall>ci k d x. map_facet_value_ord cols ci k d = Some x \<longrightarrow> unat x < length (map_facet_values tb ci)) \<and>
      (\<forall>ii d v. int_value cols ii d = Some v \<longrightarrow> in_i64 v) \<and>
      (\<forall>ci k d v. map_int_value cols ci k d = Some v \<longrightarrow> in_i64 v) \<and>
      (\<forall>ni d v. num_value cols ni d = Some v \<longrightarrow> \<not> f64_is_nan v) \<and>
      (\<forall>ci k d v. map_value cols ci k d = Some v \<longrightarrow> \<not> f64_is_nan v))"

text \<open>The bounds of a leaf, and that their integers came as \<open>int64\<close>.\<close>

fun leaf_bounds :: "filter_expr \<Rightarrow> filter_bound option list" where
  "leaf_bounds (ENumber p) = [np_min p, np_max p]"
| "leaf_bounds (EMapNumber p) = [mn_min p, mn_max p]"
| "leaf_bounds (ETypedMapNumber p) = [mn_min p, mn_max p]"
| "leaf_bounds _ = []"

definition bound_i64 :: "filter_bound option \<Rightarrow> bool" where
  "bound_i64 b = (case Option.bind b fb_value of Some (VInt n) \<Rightarrow> in_i64 n | _ \<Rightarrow> True)"

definition wire_i64 :: "filter_expr \<Rightarrow> bool" where
  "wire_i64 e = list_all bound_i64 (concat (map leaf_bounds (walk_leaves e)))"

section \<open>A byte-ordered dictionary\<close>

lemma partition_point_iff:
  assumes "sorted xs" "\<And>v w. v \<le> w \<Longrightarrow> P w \<Longrightarrow> P v" "i < length xs"
  shows "i < partition_point P xs \<longleftrightarrow> P (xs ! i)"
  using assms(1,3)
proof (induction xs arbitrary: i)
  case (Cons x xs)
  have "\<not> P (xs ! j)" if "\<not> P x" "j < length xs" for j
    using Cons.prems(1) assms(2) [of x "xs ! j"] that by auto
  then show ?case
    using Cons by (cases i) (auto simp: partition_point_def)
qed simp

lemma prefix_between: "prefix p w \<Longrightarrow> p \<le> v \<Longrightarrow> v \<le> w \<Longrightarrow> prefix p (v :: 'a :: linorder list)"
proof (induction p arbitrary: v w)
  case (Cons x p)
  then obtain w' where "w = x # w'" "prefix p w'" by (cases w) auto
  with Cons show ?case by (cases v) auto
qed simp

lemma prefix_le: "prefix p v \<Longrightarrow> p \<le> (v :: 'a :: linorder list)"
proof (induction p arbitrary: v)
  case (Cons x p)
  then show ?case by (cases v) auto
qed simp

lemma below_start_down: "v \<le> w \<Longrightarrow> below_start t w \<Longrightarrow> below_start t v"
  by (auto simp: below_start_def split: option.splits if_splits)

lemma below_end_down: "v \<le> w \<Longrightarrow> below_end t w \<Longrightarrow> below_end t v"
  using prefix_between [of _ w v] by (fastforce simp: below_end_def not_less split: option.splits if_splits)

lemma admits_iff: "admits t v \<longleftrightarrow> \<not> below_start t v \<and> below_end t v"
  using prefix_le [of _ v] by (fastforce simp: admits_def below_start_def below_end_def not_less split: option.splits if_splits)

lemma partition_point_length: "partition_point P xs \<le> length xs"
  by (simp add: partition_point_def length_takeWhile_le)

lemma ord_range_exact:
  assumes "sorted dict" "length dict < 2 ^ 32" "unat x < length dict"
  shows "fst (ord_range t dict) \<le> x \<and> x < snd (ord_range t dict) \<longleftrightarrow> admits t (dict ! unat x)"
proof -
  let ?lo = "partition_point (below_start t) dict" and ?hi = "partition_point (below_end t) dict"
  have "?lo < 2 ^ 32" "max ?hi ?lo < 2 ^ 32"
    using assms(2) partition_point_length [of "below_start t" dict] partition_point_length [of "below_end t" dict] by simp_all
  then have "unat (of_nat ?lo :: u32) = ?lo" "unat (of_nat (max ?hi ?lo) :: u32) = max ?hi ?lo"
    by (simp_all add: unat_of_nat take_bit_nat_eq_self)
  then have "fst (ord_range t dict) \<le> x \<and> x < snd (ord_range t dict) \<longleftrightarrow> ?lo \<le> unat x \<and> unat x < ?hi"
    by (auto simp: ord_range_def Let_def word_le_nat_alt word_less_nat_alt)
  then show ?thesis
    using partition_point_iff [OF assms(1) below_start_down assms(3)] partition_point_iff [OF assms(1) below_end_down assms(3)]
    by (simp add: admits_iff not_less [symmetric])
qed

lemma matching_ords_exact:
  assumes "length dict < 2 ^ 32" "unat x < length dict"
  shows "x \<in> set (matching_ords t dict) \<longleftrightarrow> admits t (dict ! unat x)"
proof -
  have "of_nat i = x \<longleftrightarrow> i = unat x" if "i < length dict" for i
    using that assms(1) by (auto simp: unat_of_nat take_bit_nat_eq_self)
  then show ?thesis
    using assms(2) by (force simp: matching_ords_def in_set_enumerate_eq)
qed

section \<open>Leaves\<close>

lemma sorted_ords_set [simp]: "set (sorted_ords ords) = set ords"
  by (simp add: sorted_ords_def)

lemma map_filter_ords:
  assumes "dict_ok dict ord_of in_order" "unat x < length dict"
  shows "x \<in> set (List.map_filter ord_of vs) \<longleftrightarrow> dict ! unat x \<in> set vs"
proof -
  have "ord_of s = Some x \<longleftrightarrow> s = dict ! unat x" for s using assms by (auto simp: dict_ok_def)
  moreover have "x \<in> set (List.map_filter ord_of vs) \<longleftrightarrow> (\<exists>v \<in> set vs. ord_of v = Some x)"
    by (force simp: List.map_filter_def)
  ultimately show ?thesis by simp
qed

lemma tri_opt_map: "tri_opt (map_option f v) P = tri_opt v (\<lambda>x. P (f x))"
  by (cases v) (simp_all add: tri_opt_def)

lemma tri_opt_eq: "(\<And>x. v = Some x \<Longrightarrow> P x = Q x) \<Longrightarrow> tri_opt v P = tri_opt v Q"
  by (cases v) (simp_all add: tri_opt_def)

lemma tables_okD:
  assumes "tables_ok tb cols"
  shows "dict_ok (facet_dictionary tb fi) (facet_value_ord_of tb fi) (facet_dictionary_sorted tb fi)"
    "dict_ok (map_facet_values tb ci) (map_facet_value_ord_of tb ci) (map_facet_values_sorted tb ci)"
    "facet_ord cols fi d = Some x \<Longrightarrow> unat x < length (facet_dictionary tb fi)"
    "map_facet_value_ord cols ci k d = Some x \<Longrightarrow> unat x < length (map_facet_values tb ci)"
    "int_value cols ii d = Some v \<Longrightarrow> in_i64 v" "map_int_value cols ci k d = Some v \<Longrightarrow> in_i64 v"
    "num_value cols ni d = Some w \<Longrightarrow> \<not> f64_is_nan w" "map_value cols ci k d = Some w \<Longrightarrow> \<not> f64_is_nan w"
  using assms by (auto simp: tables_ok_def)

lemma facet_leaf:
  assumes "tables_ok tb cols"
  shows "resolve_filter tb (EFacet p) = Some (Inr f) \<Longrightarrow> filter_eval gd cols d f = leaf_meaning gd tb cols d (EFacet p)"
  using map_filter_ords [OF tables_okD(1) [OF assms] tables_okD(3) [OF assms]]
  by (cases "facet_index tb (fp_column p)")
     (auto simp: Let_def facet_string_def tri_opt_map tri_opt_def [of None] split: if_splits intro!: tri_opt_eq)

lemma map_facet_leaf:
  assumes "tables_ok tb cols"
  shows "resolve_filter tb (EMapFacet p) = Some (Inr f) \<Longrightarrow> filter_eval gd cols d f = leaf_meaning gd tb cols d (EMapFacet p)"
  using map_filter_ords [OF tables_okD(2) [OF assms] tables_okD(4) [OF assms]]
  by (cases "map_facet_target tb (mf_column p) (mf_key p)")
     (auto simp: Let_def map_facet_string_def tri_opt_map tri_opt_def [of None] split: if_splits intro!: tri_opt_eq)

lemma int_tri:
  assumes "edges_ok mn mx" "\<And>w. v = Some w \<Longrightarrow> in_i64 w"
  shows "tri_opt v (\<lambda>w. fst (int_range mn mx) \<le> w \<and> w \<le> snd (int_range mn mx)) = tri_opt (map_option of_int v) (between mn mx)"
  unfolding tri_opt_map by (rule tri_opt_eq) (rule int_range_between [OF assms])

lemma uint_tri:
  assumes "edges_ok mn mx"
  shows "tri_opt v (\<lambda>w. fst (uint_range mn mx) \<le> w \<and> w \<le> snd (uint_range mn mx)) =
         tri_opt (map_option (\<lambda>w. of_int (uint w)) v) (between mn mx)"
  unfolding tri_opt_map by (rule tri_opt_eq) (rule uint_range_between [OF assms])

lemma f64_tri:
  assumes "edges_ok mn mx" "\<And>w. v = Some w \<Longrightarrow> \<not> f64_is_nan w"
  shows "tri_opt v (in_edges mn mx) = tri_opt (map_option f64_value v) (between mn mx)"
  unfolding tri_opt_map by (rule tri_opt_eq) (rule in_edges_exact [OF assms])

lemma tri_opt_None [simp]: "tri_opt None P = TUnknown"
  by (simp add: tri_opt_def)

lemma number_leaf:
  assumes "tables_ok tb cols" "edges_ok (opt_edge (np_min p)) (opt_edge (np_max p))"
  shows "leaf_eval gd cols d (resolve_number tb p) = leaf_meaning gd tb cols d (ENumber p)"
  using int_tri [OF assms(2) tables_okD(5) [OF assms(1)]] uint_tri [OF assms(2)] f64_tri [OF assms(2) tables_okD(7) [OF assms(1)]]
  by (simp add: resolve_number_def Let_def row_number_def split_beta split: option.split)

lemma map_number_leaf:
  assumes "tables_ok tb cols" "edges_ok (opt_edge (mn_min p)) (opt_edge (mn_max p))"
  shows "leaf_eval gd cols d (resolve_map_number tb typed p) =
    tri_opt (row_map_number tb cols d typed (mn_column p) (mn_key p)) (between (opt_edge (mn_min p)) (opt_edge (mn_max p)))"
proof -
  note tri = int_tri [OF assms(2) tables_okD(6) [OF assms(1)]] uint_tri [OF assms(2)] f64_tri [OF assms(2) tables_okD(8) [OF assms(1)]]
  consider (i) ci where "(if typed then map_integer_index tb (mn_column p) else None) = Some ci"
    | (u) ci where "(if typed then map_integer_index tb (mn_column p) else None) = None"
        "(if typed then map_unsigned_integer_index tb (mn_column p) else None) = Some ci"
    | (n) "(if typed then map_integer_index tb (mn_column p) else None) = None"
        "(if typed then map_unsigned_integer_index tb (mn_column p) else None) = None" by fastforce
  then show ?thesis
  proof cases
    case i
    then show ?thesis
      by (cases "map_integer_key_ord tb ci (mn_key p)")
         (simp_all only: resolve_map_number_def row_map_number_def Let_def leaf_eval.simps split_beta option.case option.map
          bind.simps fst_conv snd_conv tri tri_opt_None)
  next
    case u
    then show ?thesis
      by (cases "map_unsigned_integer_key_ord tb ci (mn_key p)")
         (simp_all only: resolve_map_number_def row_map_number_def Let_def leaf_eval.simps split_beta option.case option.map
          bind.simps fst_conv snd_conv tri tri_opt_None)
  next
    case n
    then have r: "resolve_map_number tb typed p = RMapNumber (Option.bind (map_numeric_index tb (mn_column p))
        (\<lambda>ci. map_option (Pair ci) (map_numeric_key_ord tb ci (mn_key p)))) (opt_edge (mn_min p)) (opt_edge (mn_max p))"
      "row_map_number tb cols d typed (mn_column p) (mn_key p) = Option.bind (map_numeric_index tb (mn_column p))
        (\<lambda>ci. Option.bind (map_numeric_key_ord tb ci (mn_key p)) (\<lambda>k. map_option f64_value (map_value cols ci k d)))"
      by (simp_all only: resolve_map_number_def row_map_number_def Let_def option.case)
    show ?thesis
    proof (cases "map_numeric_index tb (mn_column p)")
      case (Some ci)
      then show ?thesis
        by (cases "map_numeric_key_ord tb ci (mn_key p)") (simp_all add: r tri)
    qed (simp add: r)
  qed
qed

lemma dict_tri:
  assumes "dict_ok dict ord_of in_order" "\<And>x. v = Some x \<Longrightarrow> unat x < length dict"
  shows "tri_opt v (\<lambda>x. x \<in> set (matching_ords t dict)) = tri_opt (map_option (\<lambda>x. dict ! unat x) v) (admits t)"
    "in_order \<Longrightarrow> tri_opt v (\<lambda>x. fst (ord_range t dict) \<le> x \<and> x < snd (ord_range t dict)) =
      tri_opt (map_option (\<lambda>x. dict ! unat x) v) (admits t)"
proof -
  have dict: "length dict < 2 ^ 32" "in_order \<Longrightarrow> sorted dict" using assms(1) by (auto simp: dict_ok_def)
  show "tri_opt v (\<lambda>x. x \<in> set (matching_ords t dict)) = tri_opt (map_option (\<lambda>x. dict ! unat x) v) (admits t)"
    unfolding tri_opt_map by (intro tri_opt_eq matching_ords_exact dict assms(2))
  show "tri_opt v (\<lambda>x. fst (ord_range t dict) \<le> x \<and> x < snd (ord_range t dict)) =
      tri_opt (map_option (\<lambda>x. dict ! unat x) v) (admits t)" if in_order
    unfolding tri_opt_map by (intro tri_opt_eq ord_range_exact dict assms(2) that)
qed

lemma plain_predicate_cases:
  assumes "resolve_string_predicate tb column None t = Inr leaf"
  obtains "facet_index tb column = None" "leaf = RFacetOrdRange None 0 0"
  | fi where "facet_index tb column = Some fi" "facet_dictionary_sorted tb fi"
      "leaf = RFacetOrdRange (Some fi) (fst (ord_range t (facet_dictionary tb fi))) (snd (ord_range t (facet_dictionary tb fi)))"
  | fi where "facet_index tb column = Some fi" "leaf = RFacet (Some fi) (matching_ords t (facet_dictionary tb fi))"
  using assms
  by (cases "facet_index tb column"; cases "shape tb")
     (auto simp: resolve_string_predicate_def split_beta Let_def split: if_splits)

lemma keyed_predicate_cases:
  assumes "resolve_string_predicate tb column (Some key) t = Inr leaf"
  obtains "map_facet_target tb column key = None" "leaf = RMapFacetOrdRange None 0 0"
  | ci k where "map_facet_target tb column key = Some (ci, k)" "map_facet_values_sorted tb ci"
      "leaf = RMapFacetOrdRange (Some (ci, k)) (fst (ord_range t (map_facet_values tb ci))) (snd (ord_range t (map_facet_values tb ci)))"
  | ci k where "map_facet_target tb column key = Some (ci, k)" "leaf = RMapFacet (Some (ci, k)) (matching_ords t (map_facet_values tb ci))"
  using assms
  by (cases "map_facet_target tb column key"; cases "shape tb")
     (auto simp: resolve_string_predicate_def split_beta Let_def split: if_splits)

lemma string_leaf:
  assumes "tables_ok tb cols" "resolve_string_predicate tb column key t = Inr leaf"
  shows "leaf_eval gd cols d leaf = tri_opt (row_string tb cols d column key) (admits t)"
proof (cases key)
  case None
  note tri = dict_tri [OF tables_okD(1) [OF assms(1)] tables_okD(3) [OF assms(1)]]
  show ?thesis
    using assms(2) unfolding None
    by (cases rule: plain_predicate_cases) (simp_all add: row_string_def facet_string_def tri)
next
  case (Some k)
  note tri = dict_tri [OF tables_okD(2) [OF assms(1)] tables_okD(4) [OF assms(1)]]
  show ?thesis
    using assms(2) unfolding Some
    by (cases rule: keyed_predicate_cases) (simp_all add: row_string_def map_facet_string_def tri)
qed

section \<open>The tree\<close>

lemma opt_edge_ok:
  assumes "validate_bound b = Inr ()" "bound_i64 b"
  shows "case opt_edge b of None \<Rightarrow> True | Some e \<Rightarrow> edge_ok e"
proof (cases b)
  case (Some fb)
  then obtain e where "edge_of fb = Some e" "edge_ok e"
    using edge_of_ok [of fb] assms by (auto simp: bound_i64_def split: option.splits bound_value.splits)
  with Some show ?thesis by (simp add: opt_edge_def)
qed (simp add: opt_edge_def)

lemma two_bounds_edges_ok:
  assumes "two_bounds mn mx msg = Inr ()" "bound_i64 mn" "bound_i64 mx"
  shows "edges_ok (opt_edge mn) (opt_edge mx)"
  using assms opt_edge_ok [of mn] opt_edge_ok [of mx]
  by (simp add: two_bounds_def bind_result_eq_Inr edges_ok_def)

text \<open>What a resolution may answer: an error of an unordered or unfinished shard, or the value.\<close>

definition resolves :: "shard_tables \<Rightarrow> ('a \<Rightarrow> bool) \<Rightarrow> 'a result option \<Rightarrow> bool" where
  "resolves tb Q r =
     (case r of
        None \<Rightarrow> shape tb = Spilling
      | Some (Inl err) \<Rightarrow> err = unordered \<and> shape tb = Resident \<or> err = bulk_build \<and> shape tb = Spilling
      | Some (Inr x) \<Rightarrow> Q x)"

lemma resolves_map:
  "resolves tb Q (map_option (map_result g) r) = resolves tb (\<lambda>x. Q (g x)) r"
  by (auto simp: resolves_def map_result_def bind_result_def split: option.splits sum.splits)

lemma resolves_mono: "resolves tb P r \<Longrightarrow> (\<And>x. P x \<Longrightarrow> Q x) \<Longrightarrow> resolves tb Q r"
  by (auto simp: resolves_def split: option.splits sum.splits)

lemma resolves_value [simp]: "resolves tb Q (Some (Inr x)) = Q x" "resolves tb Q None = (shape tb = Spilling)"
  by (simp_all add: resolves_def)

lemma resolves_string:
  assumes "tables_ok tb cols"
  shows "resolves tb (\<lambda>f. filter_eval gd cols d f = tri_opt (row_string tb cols d column key) (admits t))
    (Some (map_result RLeaf (resolve_string_predicate tb column key t)))"
proof (cases "resolve_string_predicate tb column key t")
  case (Inl err)
  then show ?thesis
    by (cases key) (auto simp: resolves_def map_result_def resolve_string_predicate_def Let_def
        split: option.splits shard_shape.splits if_splits prod.splits)
next
  case (Inr leaf)
  then show ?thesis
    using string_leaf [OF assms Inr] by (simp add: map_result_def)
qed

fun is_leaf :: "filter_expr \<Rightarrow> bool" where
  "is_leaf EUnset = False"
| "is_leaf (EAnd es) = False"
| "is_leaf (EOr es) = False"
| "is_leaf (ENot e) = False"
| "is_leaf leaf = True"

lemma is_leaf_simps:
  assumes "is_leaf e"
  shows "walk_leaves e = [e]" "wf_tree (Suc n) e = (leaf_ok e = Inr ())" "meaning gd tb cols d e = leaf_meaning gd tb cols d e"
  using assms by (cases e; simp)+

lemma resolves_leaf:
  assumes "tables_ok tb cols" "leaf_ok e = Inr ()" "list_all bound_i64 (leaf_bounds e)" "is_leaf e"
  shows "resolves tb (\<lambda>f. filter_eval gd cols d f = leaf_meaning gd tb cols d e) (resolve_filter tb e)"
proof (cases "unreachable_lookup tb e")
  case True
  then have "resolve_filter tb e = None" "shape tb = Spilling" by (cases e; simp)+
  then show ?thesis by (simp add: resolves_def)
next
  case reachable: False
  show ?thesis
  proof (cases e)
    case (EFacet p)
    then obtain f where "resolve_filter tb e = Some (Inr f)" using reachable by (simp add: Let_def)
    then show ?thesis using facet_leaf [OF assms(1), of p f] by (simp only: EFacet resolves_value)
  next
    case (EMapFacet p)
    then obtain f where "resolve_filter tb e = Some (Inr f)" using reachable by (simp add: Let_def)
    then show ?thesis using map_facet_leaf [OF assms(1), of p f] by (simp only: EMapFacet resolves_value)
  next
    case (ENumber p)
    then have "edges_ok (opt_edge (np_min p)) (opt_edge (np_max p))"
      using assms(2,3) by (auto simp: bind_result_eq_Inr dest: two_bounds_edges_ok)
    then show ?thesis using reachable ENumber number_leaf [OF assms(1), of p] by simp
  next
    case (EMapNumber p)
    then have "edges_ok (opt_edge (mn_min p)) (opt_edge (mn_max p))"
      using assms(2,3) by (auto simp: bind_result_eq_Inr map_number_ok_def dest: two_bounds_edges_ok)
    then show ?thesis using reachable EMapNumber map_number_leaf [OF assms(1), of p] by simp
  next
    case (ETypedMapNumber p)
    then have "edges_ok (opt_edge (mn_min p)) (opt_edge (mn_max p))"
      using assms(2,3) by (auto simp: bind_result_eq_Inr map_number_ok_def dest: two_bounds_edges_ok)
    then show ?thesis using reachable ETypedMapNumber map_number_leaf [OF assms(1), of p] by simp
  next
    case (EGeo g)
    then show ?thesis using assms(2) by (auto simp: bind_result_eq_Inr)
  next
    case (EHas column)
    then show ?thesis by (cases "facet_index tb column") (auto simp: facet_string_def present_def)
  next
    case (EMapHasKey p)
    then show ?thesis using reachable by (simp del: leaf_eval.simps)
  next
    case (ETypedMapHasKey p)
    then show ?thesis using reachable by (simp del: leaf_eval.simps)
  qed (use reachable assms(4) resolves_string [OF assms(1)] in simp_all)
qed

lemma wf_tree_0: "wf_tree n e \<Longrightarrow> \<exists>m. n = Suc m"
  by (cases n) simp_all

lemma resolves_leaf_tree:
  assumes "is_leaf e" "tables_ok tb cols" "wf_tree n e" "wire_i64 e"
  shows "resolves tb (\<lambda>f. filter_eval gd cols d f = meaning gd tb cols d e) (resolve_filter tb e)"
  using wf_tree_0 [OF assms(3)] resolves_leaf [OF assms(2) _ _ assms(1)] assms(3,4)
  by (auto simp: is_leaf_simps [OF assms(1)] wire_i64_def simp del: wf_tree.simps resolve_filter.simps)

lemma eval_connectives:
  "filter_eval gd cols d (RAnd fs) = foldr min (map (filter_eval gd cols d) fs) TTrue"
  "filter_eval gd cols d (ROr fs) = foldr max (map (filter_eval gd cols d) fs) TFalse"
proof -
  have "filter_eval gd cols d = kleene (leaf_eval gd cols d)" by (rule ext) (rule eval_kleene)
  then show "filter_eval gd cols d (RAnd fs) = foldr min (map (filter_eval gd cols d) fs) TTrue"
    "filter_eval gd cols d (ROr fs) = foldr max (map (filter_eval gd cols d) fs) TFalse" by simp_all
qed

lemma resolves_cons:
  assumes "resolves tb P (resolve_filter tb e)"
    "\<And>f. resolve_filter tb e = Some (Inr f) \<Longrightarrow> resolves tb (\<lambda>fs. P f \<longrightarrow> Q (f # fs)) (resolve_filters tb es)"
  shows "resolves tb Q (resolve_filters tb (e # es))"
proof (cases "resolve_filter tb e")
  case (Some r)
  show ?thesis
  proof (cases r)
    case (Inl err)
    with Some assms(1) show ?thesis by (simp add: resolves_def)
  next
    case (Inr f)
    with Some assms(1) have "P f" by simp
    then show ?thesis
      using assms(2) [of f] Some Inr by (simp add: resolves_map)
  qed
qed (use assms(1) in \<open>simp add: resolves_def\<close>)

lemma resolves_tree:
  "tables_ok tb cols \<Longrightarrow> wf_tree n e \<Longrightarrow> wire_i64 e \<Longrightarrow>
     resolves tb (\<lambda>f. filter_eval gd cols d f = meaning gd tb cols d e) (resolve_filter tb e)"
  "tables_ok tb cols \<Longrightarrow> list_all (wf_tree m) es \<Longrightarrow> list_all wire_i64 es \<Longrightarrow>
     resolves tb (\<lambda>fs. map (filter_eval gd cols d) fs = map (meaning gd tb cols d) es) (resolve_filters tb es)"
proof (induction tb e and tb es arbitrary: n and m rule: resolve_filter_resolve_filters.induct)
  case (1 tb)
  then show ?case by (cases n) simp_all
next
  case (2 tb es)
  then obtain k where k: "list_all (wf_tree k) es" using wf_tree_0 [of n] by fastforce
  have i: "list_all wire_i64 es" using 2(4) by (auto simp: wire_i64_def list_all_iff)
  show ?case
    unfolding resolve_filter.simps resolves_map
    by (rule resolves_mono [OF 2(1) [OF 2(2) k i]]) (simp only: eval_connectives meaning.simps)
next
  case (3 tb es)
  then obtain k where k: "list_all (wf_tree k) es" using wf_tree_0 [of n] by fastforce
  have i: "list_all wire_i64 es" using 3(4) by (auto simp: wire_i64_def list_all_iff)
  show ?case
    unfolding resolve_filter.simps resolves_map
    by (rule resolves_mono [OF 3(1) [OF 3(2) k i]]) (simp only: eval_connectives meaning.simps)
next
  case (4 tb e)
  then obtain k where k: "wf_tree k e" using wf_tree_0 [of n] by fastforce
  have i: "wire_i64 e" using 4(4) by (simp add: wire_i64_def)
  show ?case
    unfolding resolve_filter.simps resolves_map by (rule resolves_mono [OF 4(1) [OF 4(2) k i]]) simp
next
  case (19 tb e es)
  show ?case
  proof (rule resolves_cons)
    show "resolves tb (\<lambda>f. filter_eval gd cols d f = meaning gd tb cols d e) (resolve_filter tb e)"
      using 19(1) [of m] 19(3-5) by simp
    show "resolves tb (\<lambda>fs. filter_eval gd cols d f = meaning gd tb cols d e \<longrightarrow>
        map (filter_eval gd cols d) (f # fs) = map (meaning gd tb cols d) (e # es)) (resolve_filters tb es)"
      if "resolve_filter tb e = Some (Inr f)" for f
      using 19(2) [OF that refl 19(3), of m] 19(4,5) by (auto elim: resolves_mono)
  qed
next
  case (18 tb)
  then show ?case by simp
qed (rule resolves_leaf_tree, simp, assumption+)+


definition sample_tables :: shard_tables where
  "sample_tables =
     \<lparr>shape = Resident, facet_index = (\<lambda>c. if c = ''lang'' then Some 0 else None),
      facet_value_ord_of = (\<lambda>_ s. if s = ''de'' then Some 0 else if s = ''en'' then Some 1 else if s = ''fr'' then Some 2 else None),
      facet_dictionary = (\<lambda>_. [''de'', ''en'', ''fr'']), facet_dictionary_sorted = (\<lambda>_. True),
      numeric_index = Map.empty, integer_index = Map.empty, unsigned_integer_index = Map.empty, geo_index = Map.empty,
      map_facet_index = Map.empty, map_facet_key_ord = (\<lambda>_. Map.empty), map_facet_value_ord_of = (\<lambda>_. Map.empty),
      map_facet_values = (\<lambda>_. []), map_facet_values_sorted = (\<lambda>_. True), map_numeric_index = Map.empty,
      map_numeric_key_ord = (\<lambda>_. Map.empty), map_integer_index = Map.empty, map_integer_key_ord = (\<lambda>_. Map.empty),
      map_unsigned_integer_index = Map.empty, map_unsigned_integer_key_ord = (\<lambda>_. Map.empty)\<rparr>"

definition sample_columns :: numeric_read where
  "sample_columns =
     \<lparr>num_value = (\<lambda>_. Map.empty), map_value = (\<lambda>_ _. Map.empty), map_int_value = (\<lambda>_ _. Map.empty), map_uint_value = (\<lambda>_ _. Map.empty),
      int_value = (\<lambda>_. Map.empty), uint_value = (\<lambda>_. Map.empty), geo_value = (\<lambda>_. Map.empty),
      facet_ord = (\<lambda>_ d. if d < 3 then Some d else None), map_facet_value_ord = (\<lambda>_ _. Map.empty)\<rparr>"

definition sample_range :: filter_expr where
  "sample_range = EStringRange \<lparr>sr_column = ''lang'', sr_key = [], sr_min = Some \<lparr>sb_value = ''de'', sb_exclusive = True\<rparr>,
                                sr_max = Some \<lparr>sb_value = ''f'', sb_exclusive = False\<rparr>\<rparr>"

lemma sample_dict: "dict_ok [''de'', ''en'', ''fr'']
  (\<lambda>s. if s = ''de'' then Some 0 else if s = ''en'' then Some 1 else if s = ''fr'' then Some 2 else None) True"
proof -
  have x: "x = 0 \<or> x = 1 \<or> x = 2" if "unat x < Suc (Suc (Suc 0))" for x :: u32
  proof -
    from that have "unat x = unat (0 :: u32) \<or> unat x = unat (1 :: u32) \<or> unat x = unat (2 :: u32)" by auto
    then show ?thesis by (simp only: word_unat_eq_iff)
  qed
  show ?thesis by (auto simp: dict_ok_def less_eq_char_def split: if_splits dest!: x)
qed

lemma sample_tables_ok: "tables_ok sample_tables sample_columns"
  using sample_dict
  by (auto simp: tables_ok_def sample_tables_def sample_columns_def dict_ok_def [of "[]"] word_less_nat_alt split: if_splits)


lemma walk_leaves_leaf: "l \<in> set (walk_leaves e) \<Longrightarrow> is_leaf l"
  by (induction e rule: walk_leaves.induct) auto

text \<open>
  C32: a leaf the shard reports as unknown in the positional handshake accepts no row of the
  shard.
\<close>

theorem unknown_leaf_accepts_nothing:
  assumes "filter_columns_known tb e = Some known" "i < length (walk_leaves e)" "\<not> known ! i"
    "resolve_filter tb (walk_leaves e ! i) = Some (Inr f)"
  shows "filter_eval gd cols d f \<noteq> TTrue"
proof -
  have u: "\<not> leaf_known tb (walk_leaves e ! i)" using assms(1-3) by (auto simp: filter_columns_known_def split: if_splits)
  have "filter_eval gd cols d f \<noteq> TTrue" if "\<not> leaf_known tb l" "is_leaf l" "resolve_filter tb l = Some (Inr f)" for l
    using that
    by (cases l) (auto simp: Let_def resolve_number_def string_target_known_def present_def resolve_string_predicate_def map_result_def
        bind_result_def tri_of_def resolve_map_key_def resolve_map_number_def map_number_known_def map_key_known_def split_beta
        split: option.splits sum.splits if_splits bind_splits)
  then show ?thesis using u assms(2,4) walk_leaves_leaf [of "walk_leaves e ! i" e] by simp
qed

theorem unknown_leaf_accepts_nothing_witness:
  "filter_columns_known sample_tables (ENot (EHas ''size'')) = Some [False] \<and>
   filter_eval (\<lambda>_ _ _ _ _. 0) sample_columns 1 (RLeaf (RHas None None None None None)) \<noteq> TTrue"
proof -
  have "filter_columns_known sample_tables (ENot (EHas ''size'')) = Some [False]"
    by (simp add: filter_columns_known_def sample_tables_def)
  then show ?thesis
    using unknown_leaf_accepts_nothing [of sample_tables "ENot (EHas ''size'')" "[False]" 0 "RLeaf (RHas None None None None None)"]
    by (simp add: sample_tables_def)
qed

end
