(* ===== verification/Sha256.thy ===== *)
theory Sha256
  imports Prelude
begin

text \<open>
  The streaming SHA-256 of \<open>src/sha256.rs\<close>: the compression function with its message
  schedule in place, the block buffer of \<open>update\<close>, the padding loop of \<open>finalize\<close> and the
  hexadecimal rendering. The digest of a stream is the padded one-shot definition of the
  standard, however the input is cut.
\<close>

section \<open>Compression\<close>

definition K :: "u32 list" where
  "K = concat
    [[0x428a2f98, 0x71374491, 0xb5c0fbcf, 0xe9b5dba5, 0x3956c25b, 0x59f111f1, 0x923f82a4, 0xab1c5ed5],
     [0xd807aa98, 0x12835b01, 0x243185be, 0x550c7dc3, 0x72be5d74, 0x80deb1fe, 0x9bdc06a7, 0xc19bf174],
     [0xe49b69c1, 0xefbe4786, 0x0fc19dc6, 0x240ca1cc, 0x2de92c6f, 0x4a7484aa, 0x5cb0a9dc, 0x76f988da],
     [0x983e5152, 0xa831c66d, 0xb00327c8, 0xbf597fc7, 0xc6e00bf3, 0xd5a79147, 0x06ca6351, 0x14292967],
     [0x27b70a85, 0x2e1b2138, 0x4d2c6dfc, 0x53380d13, 0x650a7354, 0x766a0abb, 0x81c2c92e, 0x92722c85],
     [0xa2bfe8a1, 0xa81a664b, 0xc24b8b70, 0xc76c51a3, 0xd192e819, 0xd6990624, 0xf40e3585, 0x106aa070],
     [0x19a4c116, 0x1e376c08, 0x2748774c, 0x34b0bcb5, 0x391c0cb3, 0x4ed8aa4a, 0x5b9cca4f, 0x682e6ff3],
     [0x748f82ee, 0x78a5636f, 0x84c87814, 0x8cc70208, 0x90befffa, 0xa4506ceb, 0xbef9a3f7, 0xc67178f2]]"

definition rotate_right :: "nat \<Rightarrow> u32 \<Rightarrow> u32" where
  "rotate_right n w = drop_bit n w OR push_bit (32 - n) w"

definition from_be_bytes :: "bytes \<Rightarrow> u32" where
  "from_be_bytes bs = foldl (\<lambda>acc b. push_bit 8 acc OR ucast b) 0 bs"

definition u32_be_bytes :: "u32 \<Rightarrow> bytes" where
  "u32_be_bytes w = map (\<lambda>i. ucast (drop_bit (8 * i) w)) [3, 2, 1, 0]"

definition u64_be_bytes :: "u64 \<Rightarrow> bytes" where
  "u64_be_bytes w = map (\<lambda>i. ucast (drop_bit (8 * i) w)) [7, 6, 5, 4, 3, 2, 1, 0]"

text \<open>The first sixteen words of the schedule, then the loop that fills the rest in place.\<close>

definition block_words :: "bytes \<Rightarrow> u32 list" where
  "block_words block = map (\<lambda>i. from_be_bytes (take 4 (drop (4 * i) block))) [0..<16]"

definition schedule_step :: "nat \<Rightarrow> u32 list \<Rightarrow> u32 list" where
  "schedule_step i w =
     (let s0 = rotate_right 7 (w ! (i - 15)) XOR rotate_right 18 (w ! (i - 15)) XOR drop_bit 3 (w ! (i - 15));
          s1 = rotate_right 17 (w ! (i - 2)) XOR rotate_right 19 (w ! (i - 2)) XOR drop_bit 10 (w ! (i - 2))
      in w[i := w ! (i - 16) + s0 + w ! (i - 7) + s1])"

definition schedule :: "bytes \<Rightarrow> u32 list" where
  "schedule block = fold schedule_step [16..<64] (block_words block @ replicate 48 0)"

type_synonym vars = "u32 \<times> u32 \<times> u32 \<times> u32 \<times> u32 \<times> u32 \<times> u32 \<times> u32"

definition round_step :: "u32 list \<Rightarrow> nat \<Rightarrow> vars \<Rightarrow> vars" where
  "round_step w i v =
     (case v of (a, b, c, d, e, f, g, h) \<Rightarrow>
        let s1 = rotate_right 6 e XOR rotate_right 11 e XOR rotate_right 25 e;
            ch = (e AND f) XOR (NOT e AND g);
            t1 = h + s1 + ch + K ! i + w ! i;
            s0 = rotate_right 2 a XOR rotate_right 13 a XOR rotate_right 22 a;
            maj = (a AND b) XOR (a AND c) XOR (b AND c);
            t2 = s0 + maj
        in (t1 + t2, a, b, c, d + t1, e, f, g))"

fun compress :: "u32 list \<Rightarrow> bytes \<Rightarrow> u32 list" where
  "compress [s0, s1, s2, s3, s4, s5, s6, s7] block =
     (case fold (round_step (schedule block)) [0..<64] (s0, s1, s2, s3, s4, s5, s6, s7) of
        (a, b, c, d, e, f, g, h) \<Rightarrow> [s0 + a, s1 + b, s2 + c, s3 + d, s4 + e, s5 + f, s6 + g, s7 + h])"
| "compress state block = state"

section \<open>The streaming state\<close>

record sha256 =
  sha_state :: "u32 list"
  sha_len :: u64
  sha_block :: bytes
  sha_fill :: nat

definition sha_new :: sha256 where
  "sha_new =
     \<lparr>sha_state = [0x6a09e667, 0xbb67ae85, 0x3c6ef372, 0xa54ff53a, 0x510e527f, 0x9b05688c, 0x1f83d9ab, 0x5be0cd19],
      sha_len = 0, sha_block = replicate 64 0, sha_fill = 0\<rparr>"

text \<open>\<open>block[at..at + data.len()].copy_from_slice(data)\<close>.\<close>

definition copy_at :: "nat \<Rightarrow> bytes \<Rightarrow> bytes \<Rightarrow> bytes" where
  "copy_at at data block = take at block @ data @ drop (at + length data) block"

text \<open>The loop over whole blocks.\<close>

function absorb_blocks :: "u32 list \<Rightarrow> bytes \<Rightarrow> u32 list \<times> bytes" where
  "absorb_blocks state data =
     (if 64 \<le> length data then absorb_blocks (compress state (take 64 data)) (drop 64 data) else (state, data))"
  by pat_completeness auto
termination by (relation "measure (\<lambda>(state, data). length data)") auto

declare absorb_blocks.simps [simp del]

definition update_tail :: "sha256 \<Rightarrow> bytes \<Rightarrow> sha256" where
  "update_tail h data =
     (case absorb_blocks (sha_state h) data of (state, rest) \<Rightarrow>
        h\<lparr>sha_state := state, sha_block := copy_at 0 rest (sha_block h), sha_fill := length rest\<rparr>)"

text \<open>The length is \<open>checked_add\<close> with \<open>expect\<close>; \<open>64 - self.fill\<close> underflows on a corrupt state.\<close>

definition sha_update :: "bytes \<Rightarrow> sha256 \<Rightarrow> sha256 option" where
  "sha_update data h =
     (if 2 ^ 64 \<le> unat (sha_len h) + length data \<or> 64 < sha_fill h then None
      else
        let h = h\<lparr>sha_len := sha_len h + of_nat (length data)\<rparr> in
        if 0 < sha_fill h then
          let n = min (64 - sha_fill h) (length data);
              block = copy_at (sha_fill h) (take n data) (sha_block h);
              fill = sha_fill h + n
          in if fill < 64 then Some (h\<lparr>sha_block := block, sha_fill := fill\<rparr>)
             else Some (update_tail (h\<lparr>sha_state := compress (sha_state h) block, sha_block := block, sha_fill := 0\<rparr>) (drop n data))
        else Some (update_tail h data))"

text \<open>The zero bytes up to offset 56 of a block, one \<open>update\<close> each.\<close>

lemma absorb_one: "absorb_blocks s [b] = (s, [b])"
  by (simp add: absorb_blocks.simps)

lemma absorb_Nil: "absorb_blocks s [] = (s, [])"
  by (simp add: absorb_blocks.simps)

lemma update_one_fill:
  assumes "sha_update [b] h = Some h'"
  shows "sha_fill h' = (sha_fill h + 1) mod 64" "sha_fill h \<le> 64"
proof -
  have "sha_fill h \<le> 64" using assms by (simp add: sha_update_def split: if_splits)
  then consider "sha_fill h = 0" | "sha_fill h = 63" | "sha_fill h = 64" | "0 < sha_fill h" "sha_fill h < 63" by linarith
  then show "sha_fill h' = (sha_fill h + 1) mod 64"
    using assms by cases (auto simp: sha_update_def update_tail_def absorb_one absorb_Nil Let_def min_def split: if_splits)
  show "sha_fill h \<le> 64" by fact
qed

lemma pad_measure:
  assumes "f \<le> (64 :: nat)" "f \<noteq> 56"
  shows "(120 - (f + 1) mod 64) mod 64 < (120 - f) mod 64"
proof -
  consider "f < 56" | "56 < f" "f < 63" | "f = 63" | "f = 64" using assms by linarith
  then show ?thesis
  proof cases
    case 1
    then show ?thesis by (simp add: le_mod_geq)
  qed simp_all
qed

lemma pad_step: "sha_update [b] h = Some h' \<Longrightarrow> sha_fill h \<noteq> 56 \<Longrightarrow> (120 - sha_fill h') mod 64 < (120 - sha_fill h) mod 64"
  using update_one_fill [of b h h'] pad_measure [of "sha_fill h"] by simp

function pad_zeros :: "sha256 \<Rightarrow> sha256 option" where
  "pad_zeros h = (if sha_fill h \<noteq> 56 then Option.bind (sha_update [0] h) pad_zeros else Some h)"
  by pat_completeness auto
termination
  by (relation "measure (\<lambda>h. (120 - sha_fill h) mod 64)") (auto intro: pad_step)

declare pad_zeros.simps [simp del]

text \<open>\<open>self.len * 8\<close> wraps.\<close>

definition sha_finalize :: "sha256 \<Rightarrow> bytes option" where
  "sha_finalize h =
     (let bit_len = sha_len h * 8 in
      Option.bind (sha_update [0x80] h) (\<lambda>h.
      Option.bind (pad_zeros h) (\<lambda>h.
      Some (concat (map u32_be_bytes (compress (sha_state h) (copy_at 56 (u64_be_bytes bit_len) (sha_block h))))))))"

definition sha_digest :: "bytes \<Rightarrow> bytes option" where
  "sha_digest data = Option.bind (sha_update data sha_new) sha_finalize"

definition hex_digit :: "nat \<Rightarrow> char" where
  "hex_digit n = ''0123456789abcdef'' ! n"

definition to_hex :: "bytes \<Rightarrow> string" where
  "to_hex digest = concat (map (\<lambda>b. [hex_digit (unat b div 16), hex_digit (unat b mod 16)]) digest)"

definition hex_digest :: "bytes \<Rightarrow> string option" where
  "hex_digest data = map_option to_hex (sha_digest data)"

section \<open>The standard\<close>

text \<open>
  The digest as FIPS 180-4 defines it: the message is followed by a one bit, zeros to 448
  modulo 512 bits and its length in bits; the blocks are folded into the hash value by rounds
  over the recursive message schedule.
\<close>

fun fips_W :: "bytes \<Rightarrow> nat \<Rightarrow> u32" where
  "fips_W block t =
     (if t < 16 then from_be_bytes (take 4 (drop (4 * t) block))
      else (rotate_right 17 (fips_W block (t - 2)) XOR rotate_right 19 (fips_W block (t - 2)) XOR drop_bit 10 (fips_W block (t - 2)))
         + fips_W block (t - 7)
         + (rotate_right 7 (fips_W block (t - 15)) XOR rotate_right 18 (fips_W block (t - 15)) XOR drop_bit 3 (fips_W block (t - 15)))
         + fips_W block (t - 16))"

declare fips_W.simps [simp del]

fun fips_compress :: "u32 list \<Rightarrow> bytes \<Rightarrow> u32 list" where
  "fips_compress [s0, s1, s2, s3, s4, s5, s6, s7] block =
     (case fold (round_step (map (fips_W block) [0..<64])) [0..<64] (s0, s1, s2, s3, s4, s5, s6, s7) of
        (a, b, c, d, e, f, g, h) \<Rightarrow> [s0 + a, s1 + b, s2 + c, s3 + d, s4 + e, s5 + f, s6 + g, s7 + h])"
| "fips_compress state block = state"

definition fips_pad :: "bytes \<Rightarrow> bytes" where
  "fips_pad msg = msg @ [0x80] @ replicate ((119 - length msg mod 64) mod 64) 0 @ u64_be_bytes (of_nat (8 * length msg))"

function fips_blocks :: "bytes \<Rightarrow> bytes list" where
  "fips_blocks bs = (if length bs < 64 then [] else take 64 bs # fips_blocks (drop 64 bs))"
  by pat_completeness auto
termination by (relation "measure length") auto

declare fips_blocks.simps [simp del]

definition fips_sha256 :: "bytes \<Rightarrow> bytes" where
  "fips_sha256 msg = concat (map u32_be_bytes (foldl fips_compress (sha_state sha_new) (fips_blocks (fips_pad msg))))"

text \<open>The schedule array holds the recursive schedule.\<close>

lemma schedule_prefix:
  assumes "n \<le> 48"
  shows "length (fold schedule_step [16..<16 + n] (block_words block @ replicate 48 0)) = 64 \<and>
    (\<forall>t < 16 + n. fold schedule_step [16..<16 + n] (block_words block @ replicate 48 0) ! t = fips_W block t)"
  using assms
proof (induction n)
  case 0
  then show ?case by (auto simp: block_words_def nth_append fips_W.simps)
next
  case (Suc n)
  let ?w = "fold schedule_step [16..<16 + n] (block_words block @ replicate 48 0)"
  have w: "length ?w = 64" "\<And>t. t < 16 + n \<Longrightarrow> ?w ! t = fips_W block t" using Suc by auto
  have step: "fold schedule_step [16..<16 + Suc n] (block_words block @ replicate 48 0) = schedule_step (16 + n) ?w"
    by (simp only: add_Suc_right upt_Suc_append le_add1 fold_append fold_simps comp_apply)
  have idx: "?w ! (16 + n - 15) = fips_W block (16 + n - 15)" "?w ! (16 + n - 2) = fips_W block (16 + n - 2)"
    "?w ! (16 + n - 16) = fips_W block (16 + n - 16)" "?w ! (16 + n - 7) = fips_W block (16 + n - 7)"
    by (rule w(2), simp)+
  have "schedule_step (16 + n) ?w = ?w[16 + n := fips_W block (16 + n)]"
    unfolding schedule_step_def Let_def idx
    by (subst (2) fips_W.simps) (simp add: ac_simps)
  then show ?case
    unfolding step using w Suc(2) by (auto simp: nth_list_update less_Suc_eq)
qed

lemma schedule_fips: "schedule block = map (fips_W block) [0..<64]"
  using schedule_prefix [of 48 block] by (intro nth_equalityI) (simp_all add: schedule_def)

lemma compress_fips: "compress = fips_compress"
proof (intro ext)
  fix s b
  show "compress s b = fips_compress s b"
    by (cases "(s, b)" rule: compress.cases) (simp_all add: schedule_fips del: upt_Suc)
qed

section \<open>Streaming\<close>

lemma absorb_append:
  "absorb_blocks (fst (absorb_blocks s msg)) (snd (absorb_blocks s msg) @ data) = absorb_blocks s (msg @ data)"
proof (induction s msg rule: absorb_blocks.induct)
  case (1 s msg)
  show ?case
  proof (cases "64 \<le> length msg")
    case True
    then have "absorb_blocks s (msg @ data) = absorb_blocks (compress s (take 64 msg)) (drop 64 msg @ data)"
      "absorb_blocks s msg = absorb_blocks (compress s (take 64 msg)) (drop 64 msg)"
      by (simp_all add: absorb_blocks.simps [of s "msg @ data"] absorb_blocks.simps [of s msg])
    then show ?thesis using 1 [OF True] by simp
  next
    case False
    then show ?thesis by (simp add: absorb_blocks.simps [of s msg])
  qed
qed

lemma absorb_rest: "length (snd (absorb_blocks s msg)) = length msg mod 64"
proof (induction s msg rule: absorb_blocks.induct)
  case (1 s msg)
  then show ?case by (cases "64 \<le> length msg") (simp_all add: absorb_blocks.simps [of s msg] le_mod_geq)
qed

lemma absorb_fips: "fst (absorb_blocks s msg) = foldl compress s (fips_blocks msg)"
proof (induction s msg rule: absorb_blocks.induct)
  case (1 s msg)
  then show ?case by (cases "64 \<le> length msg") (simp_all add: absorb_blocks.simps [of s msg] fips_blocks.simps [of msg])
qed

text \<open>What a state stands for: the bytes absorbed so far.\<close>

definition absorbed :: "sha256 \<Rightarrow> bytes \<Rightarrow> bool" where
  "absorbed h msg =
     (length (sha_block h) = 64 \<and> sha_fill h = length msg mod 64 \<and> length msg < 2 ^ 64 \<and> unat (sha_len h) = length msg \<and>
      absorb_blocks (sha_state sha_new) msg = (sha_state h, take (sha_fill h) (sha_block h)))"

lemma absorbed_new: "absorbed sha_new []"
  by (simp add: absorbed_def absorb_Nil sha_new_def)

lemma update_len:
  assumes "absorbed h msg" "length msg + length data < 2 ^ 64"
  shows "unat (sha_len h + of_nat (length data)) = length (msg @ data)"
  using assms by (simp add: absorbed_def unat_word_ariths unat_of_nat take_bit_nat_eq_self)

lemma absorbedD:
  assumes "absorbed h msg"
  shows "length (sha_block h) = 64" "sha_fill h = length msg mod 64" "sha_fill h < 64" "unat (sha_len h) = length msg"
    "absorb_blocks (sha_state sha_new) (msg @ data) = absorb_blocks (sha_state h) (take (sha_fill h) (sha_block h) @ data)"
  using assms absorb_append [of "sha_state sha_new" msg data] by (simp_all add: absorbed_def)

lemma update_tail_absorbed:
  assumes "absorb_blocks (sha_state sha_new) msg = absorb_blocks (sha_state h) rest"
    "unat (sha_len h) = length msg" "length (sha_block h) = 64" "length msg < 2 ^ 64"
  shows "absorbed (update_tail h rest) msg"
proof -
  obtain s r where r: "absorb_blocks (sha_state h) rest = (s, r)" by fastforce
  have "length r = length msg mod 64"
    using absorb_rest [of "sha_state sha_new" msg] assms(1) r by simp
  moreover from this have "length r \<le> 64" by simp
  ultimately show ?thesis
    using assms r by (simp add: update_tail_def absorbed_def copy_at_def)
qed

lemma update_absorbed_fit:
  assumes "absorbed h msg" "length msg + length data < 2 ^ 64" "0 < sha_fill h" "sha_fill h + length data < 64"
  shows "\<exists>h'. sha_update data h = Some h' \<and> absorbed h' (msg @ data)"
proof -
  let ?f = "sha_fill h" and ?b = "sha_block h"
  let ?h = "h\<lparr>sha_len := sha_len h + of_nat (length data), sha_block := copy_at ?f data ?b, sha_fill := ?f + length data\<rparr>"
  note h = absorbedD [OF assms(1)]
  have u: "sha_update data h = Some ?h"
    using h(3,4) assms(2-4) by (simp add: sha_update_def Let_def min_def)
  have "length (take ?f ?b @ data) < 64" using assms(4) h(1) by simp
  then have "absorb_blocks (sha_state h) (take ?f ?b @ data) = (sha_state h, take ?f ?b @ data)"
    by (simp add: absorb_blocks.simps)
  moreover have "length (take ?f ?b) = ?f" "length (copy_at ?f data ?b) = 64"
    using assms(4) h(1) by (simp_all add: copy_at_def)
  moreover have "take (?f + length data) (copy_at ?f data ?b) = take ?f ?b @ data"
    using \<open>length (take ?f ?b) = ?f\<close> by (simp add: copy_at_def)
  moreover have "(length msg + length data) mod 64 = ?f + length data"
    using mod_add_left_eq [of "length msg" 64 "length data"] mod_less [OF assms(4)] unfolding h(2) by simp
  ultimately have "absorbed ?h (msg @ data)"
    unfolding absorbed_def using h(5) [of data] update_len [OF assms(1,2)] assms(2) by simp
  with u show ?thesis by blast
qed

lemma update_absorbed:
  assumes "absorbed h msg" "length msg + length data < 2 ^ 64"
  shows "\<exists>h'. sha_update data h = Some h' \<and> absorbed h' (msg @ data)"
proof -
  let ?f = "sha_fill h" and ?b = "sha_block h"
  note h = absorbedD [OF assms(1)]
  note len = update_len [OF assms]
  consider "0 < ?f" "?f + length data < 64" | (over) "0 < ?f" "64 \<le> ?f + length data" | (empty) "?f = 0" by linarith
  then show ?thesis
  proof cases
    case over
    let ?n = "64 - ?f"
    let ?full = "copy_at ?f (take ?n data) ?b"
    have full: "?full = take ?f ?b @ take ?n data" "length ?full = 64" using over h(1,3) by (simp_all add: copy_at_def)
    have "absorb_blocks (sha_state h) (take ?f ?b @ data) = absorb_blocks (compress (sha_state h) ?full) (drop ?n data)"
      using over h(1,3) unfolding full(1) by (subst absorb_blocks.simps) simp
    then have "absorbed (update_tail (h\<lparr>sha_len := sha_len h + of_nat (length data), sha_state := compress (sha_state h) ?full,
        sha_block := ?full, sha_fill := 0\<rparr>) (drop ?n data)) (msg @ data)"
      using h(5) [of data] len assms(2) full(2) by (intro update_tail_absorbed) simp_all
    moreover have "min ?n (length data) = ?n" using over by simp
    ultimately show ?thesis
      using over h(3,4) assms(2) by (simp add: sha_update_def Let_def)
  next
    case empty
    then have "absorbed (update_tail (h\<lparr>sha_len := sha_len h + of_nat (length data)\<rparr>) data) (msg @ data)"
      using h(5) [of data] len assms(2) h(1) by (intro update_tail_absorbed) simp_all
    with empty show ?thesis
      using h(4) assms(2) by (simp add: sha_update_def Let_def)
  qed (rule update_absorbed_fit [OF assms])
qed

lemma updates_absorbed:
  assumes "absorbed h msg" "length msg + length (concat chunks) < 2 ^ 64"
  shows "\<exists>h'. fold_opt sha_update chunks h = Some h' \<and> absorbed h' (msg @ concat chunks)"
  using assms
proof (induction chunks arbitrary: h msg)
  case (Cons c cs)
  then obtain h1 where h1: "sha_update c h = Some h1" "absorbed h1 (msg @ c)"
    using update_absorbed [of h msg c] by auto
  with Cons show ?case using Cons.IH [OF h1(2)] by simp
qed simp

section \<open>Padding\<close>

lemma pad_count:
  assumes "f < (64 :: nat)" "(120 - f) mod 64 = Suc n"
  shows "(120 - (f + 1) mod 64) mod 64 = n" "f \<noteq> 56"
proof -
  show "f \<noteq> 56" using assms(2) by auto
  then consider "f < 56" | "56 < f" "f < 63" | "f = 63" using assms(1) by linarith
  then show "(120 - (f + 1) mod 64) mod 64 = n"
    using assms(2) by cases (simp_all add: le_mod_geq)
qed

lemma pad_zeros_absorbed:
  assumes "absorbed h msg" "(120 - sha_fill h) mod 64 = n" "length msg + n < 2 ^ 64"
  shows "\<exists>h'. pad_zeros h = Some h' \<and> absorbed h' (msg @ replicate n 0) \<and> sha_fill h' = 56"
  using assms
proof (induction n arbitrary: h msg)
  case 0
  then have "sha_fill h = 56"
    using absorbedD(3) [OF 0(1)] by (cases "sha_fill h \<le> 56") (simp_all add: le_mod_geq mod_less)
  with 0 show ?case by (simp add: pad_zeros.simps)
next
  case (Suc n)
  obtain h1 where h1: "sha_update [0] h = Some h1" "absorbed h1 (msg @ [0])"
    using update_absorbed [OF Suc(2), of "[0]"] Suc(4) by auto
  have "(120 - sha_fill h1) mod 64 = n" "sha_fill h \<noteq> 56"
    using update_one_fill(1) [OF h1(1)] pad_count [OF absorbedD(3) [OF Suc(2)] Suc(3)] by simp_all
  then show ?case
    using Suc.IH [OF h1(2)] Suc(4) h1(1) by (simp add: pad_zeros.simps [of h] replicate_app_Cons_same)
qed

lemma pad_total: "(120 - (m + 1) mod 64) mod 64 = (119 - m mod 64) mod (64 :: nat)"
proof -
  have "(m + 1) mod 64 = (m mod 64 + 1) mod 64" by (simp add: mod_Suc_eq)
  moreover have "(120 - (f + 1) mod 64) mod 64 = (119 - f) mod 64" if "f < 64" for f :: nat
    using that by (cases "f = 63") simp_all
  ultimately show ?thesis by simp
qed

lemma u64_be_bytes_length [simp]: "length (u64_be_bytes w) = 8"
  by (simp add: u64_be_bytes_def)

lemma finalize_absorbed:
  assumes "absorbed h msg" "length msg < 2 ^ 63"
  shows "sha_finalize h = Some (fips_sha256 msg)"
proof -
  let ?n = "(119 - length msg mod 64) mod 64"
  let ?msg = "msg @ [0x80] @ replicate ?n 0"
  obtain h1 where h1: "sha_update [0x80] h = Some h1" "absorbed h1 (msg @ [0x80])"
    using update_absorbed [OF assms(1), of "[0x80]"] assms(2) by auto
  have "length msg + ?n < 2 ^ 63 + 64" by (rule add_strict_mono [OF assms(2)]) simp
  then have "length (msg @ [0x80]) + ?n < 2 ^ 64" by simp
  moreover have "(120 - sha_fill h1) mod 64 = ?n" using absorbedD(2) [OF h1(2)] pad_total [of "length msg"] by simp
  ultimately obtain h2 where h2: "pad_zeros h1 = Some h2" "absorbed h2 ?msg" "sha_fill h2 = 56"
    using pad_zeros_absorbed [OF h1(2), of ?n] by auto
  let ?last = "copy_at 56 (u64_be_bytes (sha_len h * 8)) (sha_block h2)"
  have "sha_len h = of_nat (length msg)" unfolding absorbedD(4) [OF assms(1), symmetric] by simp
  then have pad: "fips_pad msg = ?msg @ u64_be_bytes (sha_len h * 8)" by (simp add: fips_pad_def mult.commute)
  have last: "?last = take 56 (sha_block h2) @ u64_be_bytes (sha_len h * 8)" "length ?last = 64"
    using absorbedD(1) [OF h2(2)] by (simp_all add: copy_at_def)
  have "absorb_blocks (sha_state sha_new) (fips_pad msg) = absorb_blocks (sha_state h2) ?last"
    unfolding pad absorbedD(5) [OF h2(2)] h2(3) last(1) ..
  also have "\<dots> = (compress (sha_state h2) ?last, [])"
    using last(2) by (simp add: absorb_blocks.simps [of _ ?last] absorb_Nil)
  finally have "compress (sha_state h2) ?last = foldl compress (sha_state sha_new) (fips_blocks (fips_pad msg))"
    using absorb_fips [of "sha_state sha_new" "fips_pad msg"] by simp
  with h1 h2 show ?thesis by (simp add: sha_finalize_def fips_sha256_def compress_fips)
qed

lemma stream_total:
  assumes "length (concat chunks) < 2 ^ 63"
  shows "Option.bind (fold_opt sha_update chunks sha_new) sha_finalize = Some (fips_sha256 (concat chunks))"
proof -
  obtain h where "fold_opt sha_update chunks sha_new = Some h" "absorbed h (concat chunks)"
    using updates_absorbed [OF absorbed_new, of chunks] assms by auto
  then show ?thesis using finalize_absorbed assms by simp
qed

text \<open>
  C21: hashing a message in any chunks returns, and the result is the padded one-shot digest of
  the concatenation. The bound is the one the standard puts on a message, \<open>2^64\<close> bits.
\<close>

theorem sha256_streaming:
  assumes "length (concat chunks) < 2 ^ 61"
  shows "Option.bind (fold_opt sha_update chunks sha_new) sha_finalize = Some (fips_sha256 (concat chunks))"
  using assms by (intro stream_total) simp

text \<open>The published test vector \<open>abc\<close>, fed in two chunks.\<close>

theorem sha256_streaming_witness:
  "map_option to_hex (Option.bind (fold_opt sha_update [[0x61], [0x62, 0x63]] sha_new) sha_finalize) =
   Some ''ba7816bf8f01cfea414140de5dae2223b00361a396177a9cb410ff61f20015ad''"
proof -
  have "to_hex (fips_sha256 [0x61, 0x62, 0x63]) = ''ba7816bf8f01cfea414140de5dae2223b00361a396177a9cb410ff61f20015ad''"
    unfolding fips_sha256_def compress_fips [symmetric] by code_simp
  then show ?thesis using sha256_streaming [of "[[0x61], [0x62, 0x63]]"] by simp
qed

text \<open>
  The digest of a sequence of slices as the other components take it. A slice holds at most
  \<open>isize::MAX\<close> bytes, so the panic of \<open>update\<close> is out of reach and the empty case unused.
\<close>

definition sha256_of :: "bytes list \<Rightarrow> bytes" where
  "sha256_of chunks =
     (case Option.bind (fold_opt sha_update chunks sha_new) sha_finalize of Some d \<Rightarrow> d | None \<Rightarrow> [])"

lemma sha256_of_fips: "length (concat chunks) < 2 ^ 63 \<Longrightarrow> sha256_of chunks = fips_sha256 (concat chunks)"
  by (simp add: sha256_of_def stream_total)

end
