(* ===== verification/Visibility.thy ===== *)
theory Visibility
  imports Filter_Resolve Sha256
begin

text \<open>
  Mandatory document views (\<open>src/visibility.rs\<close>): the fingerprinted scope of a view, the
  checks of a node's echo, and the intersection of a view with the caller's own filter. The
  canonical protobuf encoding is a parameter.
\<close>

record document_visibility =
  dv_filter :: "filter_expr option"

record visibility_scope =
  vs_fingerprint :: bytes
  vs_columns :: nat

definition visibility_domain :: bytes where
  "visibility_domain = bytes_of ''protomolt.search.document-visibility.v1'' @ [0]"

definition visibility_default :: visibility_scope where
  "visibility_default = \<lparr>vs_fingerprint = [], vs_columns = 0\<rparr>"

definition visibility_new ::
  "(document_visibility \<Rightarrow> bytes result) \<Rightarrow> document_visibility option \<Rightarrow> visibility_scope result" where
  "visibility_new canonical_bytes visibility =
     (case visibility of
        None \<Rightarrow> Inr visibility_default
      | Some v \<Rightarrow>
          (case dv_filter v of
             None \<Rightarrow> Inl (InvalidArgument, ''document visibility must contain a filter'')
           | Some f \<Rightarrow>
               bind_result (validate_filter f) (\<lambda>_.
               bind_result (canonical_bytes v) (\<lambda>canon.
               Inr \<lparr>vs_fingerprint = sha256_of [visibility_domain, canon], vs_columns = leaf_count f\<rparr>))))"

definition validate_echo :: "visibility_scope \<Rightarrow> bytes \<Rightarrow> bool list \<Rightarrow> unit result" where
  "validate_echo scope fingerprint columns_known =
     (if fingerprint \<noteq> vs_fingerprint scope
      then Inl (FailedPrecondition, ''document visibility mismatch; the node must apply the requested document view'')
      else if length columns_known \<noteq> vs_columns scope
      then Inl (FailedPrecondition, ''document visibility column handshake has the wrong length'')
      else Inr ())"

record term_stats_request =
  tq_version_only :: bool
  tq_terms :: "string list"
  tq_fields :: "string list"

record term_stats_response =
  tr_version_only :: bool
  tr_doc_count :: u64
  tr_total_doc_length :: u64
  tr_doc_frequencies :: "u32 list"
  tr_field_stats :: "string list"
  tr_visibility_fingerprint :: bytes
  tr_visibility_columns_known :: "bool list"

definition validate_response :: "visibility_scope \<Rightarrow> term_stats_response \<Rightarrow> unit result" where
  "validate_response scope response =
     validate_echo scope (tr_visibility_fingerprint response) (tr_visibility_columns_known response)"

definition validate_stats_request :: "term_stats_request \<Rightarrow> unit result" where
  "validate_stats_request request =
     (if tq_version_only request \<and> (tq_terms request \<noteq> [] \<or> tq_fields request \<noteq> [])
      then Inl (InvalidArgument, ''a version-only probe cannot request terms or fields'')
      else Inr ())"

definition validate_stats_mode :: "bool \<Rightarrow> term_stats_response \<Rightarrow> unit result" where
  "validate_stats_mode version_only response =
     (if tr_version_only response \<noteq> version_only
      then Inl (FailedPrecondition, ''statistics response mode mismatch; use matching node and coordinator builds'')
      else if version_only \<and> (tr_doc_count response \<noteq> 0 \<or> tr_total_doc_length response \<noteq> 0 \<or>
                tr_doc_frequencies response \<noteq> [] \<or> tr_field_stats response \<noteq> [])
      then Inl (FailedPrecondition, ''a version-only probe returned corpus statistics'')
      else Inr ())"

definition intersect_filter ::
  "(document_visibility \<Rightarrow> bytes result) \<Rightarrow> document_visibility option \<Rightarrow> filter_expr option \<Rightarrow> filter_expr option result" where
  "intersect_filter canonical_bytes view user =
     bind_result (visibility_new canonical_bytes view) (\<lambda>_.
     let result =
       (case Option.bind view dv_filter of
          None \<Rightarrow> user
        | Some mandatory \<Rightarrow> Some (case user of None \<Rightarrow> mandatory | Some u \<Rightarrow> EAnd [mandatory, u]))
     in (case result of
           None \<Rightarrow> Inr None
         | Some f \<Rightarrow> bind_result (validate_filter f) (\<lambda>_. Inr (Some f))))"

section \<open>A view is never widened\<close>

lemma min_TTrue: "min a b = TTrue \<longleftrightarrow> a = TTrue \<and> b = (TTrue :: tri)"
  by (cases a; cases b; simp add: min_def less_eq_tri_def)

lemma validated_wf: "validate_filter e = Inr () \<Longrightarrow> wf_tree MAX_DEPTH e"
  by (auto simp: validate_filter_def bind_result_eq_Inr validate_node_iff MAX_DEPTH_def simp del: validate_node.simps)

lemma intersect_meaning:
  assumes "intersect_filter canon (Some v) user = Inr r"
  shows "\<exists>m f. dv_filter v = Some m \<and> r = Some f \<and> validate_filter m = Inr () \<and> validate_filter f = Inr () \<and>
    (\<forall>gd tb cols d. meaning gd tb cols d f = TTrue \<longleftrightarrow>
       meaning gd tb cols d m = TTrue \<and> (\<forall>u. user = Some u \<longrightarrow> meaning gd tb cols d u = TTrue)) \<and>
    set (walk_leaves f) = set (walk_leaves m) \<union> set (concat (map walk_leaves (case user of None \<Rightarrow> [] | Some u \<Rightarrow> [u])))"
  using assms
  by (cases user) (auto simp: intersect_filter_def visibility_new_def bind_result_eq_Inr min_TTrue split: option.splits)

text \<open>
  C20: with a mandatory view, the effective filter of a request accepts a row exactly when the
  view's predicate accepts it and the caller's filter, if any, accepts it too. So no filter a
  caller writes, a negation or a disjunction included, reaches a document outside the view.
\<close>

theorem view_never_widened:
  assumes "intersect_filter canon (Some v) user = Inr (Some f)" "dv_filter v = Some m"
    "wire_i64 f" "tables_ok tb cols"
    "resolve_filter tb f = Some (Inr rf)" "resolve_filter tb m = Some (Inr rm)"
  shows "filter_eval gd cols d rf = TTrue \<longleftrightarrow>
    filter_eval gd cols d rm = TTrue \<and> (\<forall>u. user = Some u \<longrightarrow> meaning gd tb cols d u = TTrue)"
proof -
  have m: "validate_filter m = Inr ()" "validate_filter f = Inr ()"
    and tt: "meaning gd tb cols d f = TTrue \<longleftrightarrow>
      meaning gd tb cols d m = TTrue \<and> (\<forall>u. user = Some u \<longrightarrow> meaning gd tb cols d u = TTrue)"
    and leaves: "set (walk_leaves m) \<subseteq> set (walk_leaves f)"
    using intersect_meaning [OF assms(1)] assms(2) by auto
  have "wire_i64 m" using assms(3) leaves by (force simp: wire_i64_def list_all_iff)
  then have "filter_eval gd cols d rm = meaning gd tb cols d m"
    using resolves_tree(1) [OF assms(4) validated_wf [OF m(1)]] assms(6) by simp
  moreover have "filter_eval gd cols d rf = meaning gd tb cols d f"
    using resolves_tree(1) [OF assms(4) validated_wf [OF m(2)] assms(3)] assms(5) by simp
  ultimately show ?thesis using tt by simp
qed

theorem view_never_widened_witness:
  "filter_eval (\<lambda>_ _ _ _ _. 0) sample_columns 0
     (RAnd [RLeaf (RFacetOrdRange (Some 0) 1 2), RNot (RLeaf (RFacetOrdRange (Some 0) 1 2))]) \<noteq> TTrue"
proof -
  have r: "resolve_filter sample_tables sample_range = Some (Inr (RLeaf (RFacetOrdRange (Some 0) 1 2)))"
    by (simp add: sample_range_def sample_tables_def resolve_string_predicate_def plain_key_def Let_def ord_range_def partition_point_def
        below_start_def below_end_def range_target_def map_result_def bind_result_def less_eq_char_def less_char_def)
  have i: "intersect_filter (\<lambda>_. Inr []) (Some \<lparr>dv_filter = Some sample_range\<rparr>) (Some (ENot sample_range)) =
      Inr (Some (EAnd [sample_range, ENot sample_range]))" and w: "wire_i64 (EAnd [sample_range, ENot sample_range])"
    by (simp_all add: intersect_filter_def visibility_new_def sample_range_def validate_filter_def MAX_DEPTH_def MAX_LEAVES_def
        string_range_ok_def named_column_def wire_i64_def)
  have a: "resolve_filter sample_tables (EAnd [sample_range, ENot sample_range]) =
      Some (Inr (RAnd [RLeaf (RFacetOrdRange (Some 0) 1 2), RNot (RLeaf (RFacetOrdRange (Some 0) 1 2))]))"
    using r by (simp add: map_result_def)
  have "filter_eval (\<lambda>_ _ _ _ _. 0) sample_columns 0 (RLeaf (RFacetOrdRange (Some 0) 1 2)) \<noteq> TTrue"
    by (simp add: sample_columns_def tri_opt_def tri_of_def)
  then show ?thesis
    using view_never_widened [OF i _ w sample_tables_ok a r] by (simp only: document_visibility.simps simp_thms)
qed

end
