(* ===== verification/Value_Expr.thy ===== *)
theory Value_Expr
  imports Float64
begin

text \<open>
  Compiled value expressions, the \<open>ValueExpr\<close> message, and the columns one reads
  (\<open>src/values.rs\<close>). Operation and function codes are the wire's integers, decoded where the
  code decodes them.
\<close>

section \<open>Value expressions\<close>

datatype value_expr =
    VUnset
  | VColumn string
  | VMap string string
  | VTypedMap string string
  | VIntLiteral int
  | VUintLiteral u64
  | VFloatLiteral f64
  | VBoolLiteral bool
  | VStringLiteral string
  | VStableKeyHash
  | VArith int "value_expr option" "value_expr option"
  | VCompare int "value_expr option" "value_expr option"
  | VToDouble value_expr
  | VNegate value_expr
  | VNot value_expr
  | VLogic int "value_expr list"
  | VFunc int "value_expr list"
  | VTernary "value_expr option" "value_expr option" "value_expr option"

datatype value_leaf = LeafColumn string | LeafMap string string | LeafTypedMap string string

definition opt_list :: "'a option \<Rightarrow> 'a list" where
  "opt_list x = (case x of None \<Rightarrow> [] | Some y \<Rightarrow> [y])"

lemma opt_list_simps [simp]: "opt_list None = []" "opt_list (Some x) = [x]"
  by (simp_all add: opt_list_def)

lemma opt_list_cong [fundef_cong]: "x = y \<Longrightarrow> (\<And>z. z \<in> set_option y \<Longrightarrow> f z = g z) \<Longrightarrow> opt_list (map_option f x) = opt_list (map_option g y)"
  by (cases y) simp_all

text \<open>The leaves, depth first, an absent operand contributing nothing.\<close>

fun column_leaves :: "value_expr \<Rightarrow> value_leaf list" where
  "column_leaves (VColumn name) = [LeafColumn name]"
| "column_leaves (VTypedMap column key) = [LeafTypedMap column key]"
| "column_leaves (VMap column key) = [LeafMap column key]"
| "column_leaves (VArith op left right) =
     concat (opt_list (map_option column_leaves left)) @ concat (opt_list (map_option column_leaves right))"
| "column_leaves (VToDouble inner) = column_leaves inner"
| "column_leaves (VNegate inner) = column_leaves inner"
| "column_leaves (VNot inner) = column_leaves inner"
| "column_leaves (VCompare op left right) =
     concat (opt_list (map_option column_leaves left)) @ concat (opt_list (map_option column_leaves right))"
| "column_leaves (VLogic op children) = concat (map column_leaves children)"
| "column_leaves (VFunc f args) = concat (map column_leaves args)"
| "column_leaves (VTernary cond then_value else_value) =
     concat (opt_list (map_option column_leaves cond)) @ concat (opt_list (map_option column_leaves then_value)) @
     concat (opt_list (map_option column_leaves else_value))"
| "column_leaves _ = []"

fun reads_stable_key :: "value_expr \<Rightarrow> bool" where
  "reads_stable_key VStableKeyHash = True"
| "reads_stable_key (VArith op left right) =
     (list_ex id (opt_list (map_option reads_stable_key left)) \<or> list_ex id (opt_list (map_option reads_stable_key right)))"
| "reads_stable_key (VToDouble inner) = reads_stable_key inner"
| "reads_stable_key (VNegate inner) = reads_stable_key inner"
| "reads_stable_key (VNot inner) = reads_stable_key inner"
| "reads_stable_key (VCompare op left right) =
     (list_ex id (opt_list (map_option reads_stable_key left)) \<or> list_ex id (opt_list (map_option reads_stable_key right)))"
| "reads_stable_key (VLogic op children) = list_ex id (map reads_stable_key children)"
| "reads_stable_key (VFunc f args) = list_ex id (map reads_stable_key args)"
| "reads_stable_key (VTernary cond then_value else_value) =
     (list_ex id (opt_list (map_option reads_stable_key cond)) \<or> list_ex id (opt_list (map_option reads_stable_key then_value)) \<or>
      list_ex id (opt_list (map_option reads_stable_key else_value)))"
| "reads_stable_key _ = False"

fun leaf_column :: "value_leaf \<Rightarrow> string" where
  "leaf_column (LeafColumn column) = column"
| "leaf_column (LeafMap column key) = column"
| "leaf_column (LeafTypedMap column key) = column"

section \<open>The columns an expression reads\<close>

text \<open>As a relation independent of the walk.\<close>

inductive reads :: "value_expr \<Rightarrow> string \<Rightarrow> bool" where
  column: "reads (VColumn c) c"
| map: "reads (VMap c k) c"
| typed_map: "reads (VTypedMap c k) c"
| arith: "reads e c \<Longrightarrow> Some e \<in> {l, r} \<Longrightarrow> reads (VArith op l r) c"
| compare: "reads e c \<Longrightarrow> Some e \<in> {l, r} \<Longrightarrow> reads (VCompare op l r) c"
| to_double: "reads e c \<Longrightarrow> reads (VToDouble e) c"
| negate: "reads e c \<Longrightarrow> reads (VNegate e) c"
| not: "reads e c \<Longrightarrow> reads (VNot e) c"
| logic: "reads e c \<Longrightarrow> e \<in> set es \<Longrightarrow> reads (VLogic op es) c"
| func: "reads e c \<Longrightarrow> e \<in> set es \<Longrightarrow> reads (VFunc f es) c"
| ternary: "reads e c \<Longrightarrow> Some e \<in> {a, b, d} \<Longrightarrow> reads (VTernary a b d) c"

lemma reads_leaves: "reads e c \<Longrightarrow> c \<in> leaf_column ` set (column_leaves e)"
  by (induction rule: reads.induct) force+

lemma leaves_reads: "l \<in> set (column_leaves e) \<Longrightarrow> reads e (leaf_column l)"
  by (induction e rule: column_leaves.induct)
     (auto intro: reads.intros simp: opt_list_def split: option.splits)

end
