(* ===== verification/Derived.thy ===== *)
theory Derived
  imports Value_Expr "HOL-Library.List_Lexorder" "HOL-Library.Char_ord" "HOL-Library.Sublist"
begin

text \<open>
  Derived columns (\<open>src/derived.rs\<close>): what a declaration accepts, and what each compiled
  column records about its inputs. The expression compiler of \<open>src/cel.rs\<close> is a parameter.
\<close>

section \<open>Trimming\<close>

text \<open>The UTF-8 encodings of the code points \<open>str::trim\<close> strips.\<close>

definition white_space :: "string list" where
  "white_space =
     [[CHR 0x09], [CHR 0x0A], [CHR 0x0B], [CHR 0x0C], [CHR 0x0D], [CHR 0x20],
      [CHR 0xC2, CHR 0x85], [CHR 0xC2, CHR 0xA0], [CHR 0xE1, CHR 0x9A, CHR 0x80],
      [CHR 0xE2, CHR 0x80, CHR 0x80], [CHR 0xE2, CHR 0x80, CHR 0x81], [CHR 0xE2, CHR 0x80, CHR 0x82],
      [CHR 0xE2, CHR 0x80, CHR 0x83], [CHR 0xE2, CHR 0x80, CHR 0x84], [CHR 0xE2, CHR 0x80, CHR 0x85],
      [CHR 0xE2, CHR 0x80, CHR 0x86], [CHR 0xE2, CHR 0x80, CHR 0x87], [CHR 0xE2, CHR 0x80, CHR 0x88],
      [CHR 0xE2, CHR 0x80, CHR 0x89], [CHR 0xE2, CHR 0x80, CHR 0x8A], [CHR 0xE2, CHR 0x80, CHR 0xA8],
      [CHR 0xE2, CHR 0x80, CHR 0xA9], [CHR 0xE2, CHR 0x80, CHR 0xAF], [CHR 0xE2, CHR 0x81, CHR 0x9F],
      [CHR 0xE3, CHR 0x80, CHR 0x80]]"

function trim_start :: "string \<Rightarrow> string" where
  "trim_start s =
     (case find (\<lambda>w. w \<noteq> [] \<and> prefix w s) white_space of
        None \<Rightarrow> s
      | Some w \<Rightarrow> trim_start (drop (length w) s))"
  by pat_completeness auto
termination
  by (relation "measure length") (auto simp: find_Some_iff dest: prefix_length_le intro!: diff_less)

declare trim_start.simps [simp del]

function trim_end :: "string \<Rightarrow> string" where
  "trim_end s =
     (case find (\<lambda>w. w \<noteq> [] \<and> suffix w s) white_space of
        None \<Rightarrow> s
      | Some w \<Rightarrow> trim_end (take (length s - length w) s))"
  by pat_completeness auto
termination
  by (relation "measure length") (auto simp: find_Some_iff dest: suffix_length_le intro!: diff_less)

declare trim_end.simps [simp del]

definition trim :: "string \<Rightarrow> string" where
  "trim s = trim_end (trim_start s)"

section \<open>Declarations\<close>

datatype materialize_kind = KindF64 | KindI64 | KindU64

datatype disclosure = InputsRule | OwnRule

record derived_column =
  dc_name :: string
  dc_expression :: string
  dc_kind :: int
  dc_disclosure :: int

record compiled_column =
  cc_name :: string
  cc_expr :: value_expr
  cc_kind :: materialize_kind
  cc_disclosure :: disclosure
  cc_inputs :: "string list"
  cc_reads_stable_key :: bool

definition kind_of :: "int \<Rightarrow> materialize_kind option" where
  "kind_of k = (if k = 1 then Some KindF64 else if k = 2 then Some KindI64 else if k = 3 then Some KindU64 else None)"

definition disclosure_of :: "int \<Rightarrow> disclosure option" where
  "disclosure_of k = (if k = 1 then Some InputsRule else if k = 2 then Some OwnRule else None)"

text \<open>The \<open>BTreeSet\<close> of the columns read, in order.\<close>

definition input_columns :: "value_expr \<Rightarrow> string list" where
  "input_columns e = remdups_adj (sort (map leaf_column (column_leaves e)))"

definition compile_column ::
  "(string \<Rightarrow> string + value_expr) \<Rightarrow> derived_column \<Rightarrow> compiled_column list \<Rightarrow> string + compiled_column list" where
  "compile_column compile_value column columns =
     (let name = trim (dc_name column) in
      if name = [] \<or> name \<noteq> dc_name column
      then Inl ''derived column {:?}: a name is non-empty with no surrounding whitespace''
      else if name \<in> set (map cc_name columns) then Inl ''derived column {name:?} is declared twice''
      else
        (case kind_of (dc_kind column) of
           None \<Rightarrow> Inl ''derived column {name:?} declares no kind; kinds are explicit (f64, i64, or u64), never inferred from data''
         | Some kind \<Rightarrow>
             (case disclosure_of (dc_disclosure column) of
                None \<Rightarrow> Inl ''derived column {name:?} declares no disclosure rule; it is explicit: `inputs` or `own`''
              | Some disc \<Rightarrow>
                  if trim (dc_expression column) = [] then Inl ''derived column {name:?} has an empty expression''
                  else
                    bind_result (compile_value (dc_expression column)) (\<lambda>expr.
                    Inr (columns @ [\<lparr>cc_name = name, cc_expr = expr, cc_kind = kind, cc_disclosure = disc,
                                     cc_inputs = input_columns expr, cc_reads_stable_key = reads_stable_key expr\<rparr>])))))"

definition outputs_not_inputs :: "compiled_column list \<Rightarrow> bool" where
  "outputs_not_inputs columns =
     list_all (\<lambda>i. list_all (\<lambda>input. input \<notin> set (map cc_name (take i columns))) (cc_inputs (columns ! i))) [0..<length columns]"

definition declaration_compile ::
  "(string \<Rightarrow> string + value_expr) \<Rightarrow> derived_column list \<Rightarrow> string + compiled_column list" where
  "declaration_compile compile_value spec =
     bind_result (fold_result (compile_column compile_value) spec []) (\<lambda>columns.
     if outputs_not_inputs columns then Inr columns
     else Inl ''derived column {:?} reads derived column {input:?}; outputs are not inputs, write the earlier expression inline'')"

definition declared_column :: "compiled_column list \<Rightarrow> string \<Rightarrow> compiled_column option" where
  "declared_column columns name = find (\<lambda>c. cc_name c = name) columns"

section \<open>What a compiled declaration records\<close>

lemma input_columns_reads: "c \<in> set (input_columns e) \<longleftrightarrow> reads e c"
  using reads_leaves leaves_reads by (auto simp: input_columns_def)

definition column_ok :: "compiled_column \<Rightarrow> bool" where
  "column_ok c = ((\<forall>x. x \<in> set (cc_inputs c) \<longleftrightarrow> reads (cc_expr c) x) \<and> (cc_reads_stable_key c \<longleftrightarrow> reads_stable_key (cc_expr c)))"

lemma compile_columns_ok:
  assumes "declaration_compile cv spec = Inr columns"
  shows "distinct (map cc_name columns) \<and> (\<forall>c \<in> set columns. column_ok c)"
proof -
  have "fold_result (compile_column cv) spec [] = Inr columns"
    using assms by (auto simp: declaration_compile_def bind_result_eq_Inr split: if_splits)
  then show ?thesis
    by (rule fold_result_rule)
       (auto simp: compile_column_def Let_def bind_result_eq_Inr column_ok_def input_columns_reads split: if_splits option.splits)
qed

text \<open>A one-byte name that is not white space is its own trimmed form.\<close>

lemma trim_single:
  assumes "[c] \<notin> set white_space"
  shows "trim [c] = [c]"
proof -
  have "find (\<lambda>w. w \<noteq> [] \<and> prefix w [c]) white_space = None" "find (\<lambda>w. w \<noteq> [] \<and> suffix w [c]) white_space = None"
    using assms by (auto simp: find_None_iff prefix_def suffix_def Cons_eq_append_conv append_eq_Cons_conv)
  then show ?thesis by (simp add: trim_def trim_start.simps trim_end.simps)
qed

end
