(* ===== verification/Field_Scope.thy ===== *)
theory Field_Scope
  imports Filter_Resolve Derived
begin

text \<open>
  Field permissions of a search decision (\<open>src/field_permissions.rs\<close> and its \<open>query\<close>
  module): the scope compiled from a grant list, the admission checks of each request kind,
  and the redaction of what a response would otherwise disclose. The expression compilers of
  \<open>src/cel.rs\<close> and \<open>src/coordinator.rs\<close> are parameters of the query checks.
\<close>

section \<open>Scopes\<close>

record field_grant =
  fg_field :: string
  fg_actions :: "int list"

record field_permissions =
  fpm_grants :: "field_grant list"
  disclose_document_identity :: bool

record field_scope =
  fs_grants :: "string \<Rightarrow> u8 option"
  disclose_identity :: bool
  fs_derived :: "compiled_column list option"

definition with_derived :: "compiled_column list option \<Rightarrow> field_scope \<Rightarrow> field_scope" where
  "with_derived d scope = scope\<lparr>fs_derived := d\<rparr>"

definition action_bit :: "int \<Rightarrow> u8 option" where
  "action_bit a = (if a = 1 then Some 1 else if a = 2 then Some 2 else None)"

definition add_action :: "int \<Rightarrow> u8 \<Rightarrow> string + u8" where
  "add_action a bits =
     (case action_bit a of
        None \<Rightarrow> Inl ''unknown field action''
      | Some b \<Rightarrow> if bits AND b \<noteq> 0 then Inl ''field grant repeats an action'' else Inr (bits OR b))"

definition add_grant :: "field_grant \<Rightarrow> (string \<Rightarrow> u8 option) \<Rightarrow> string + (string \<Rightarrow> u8 option)" where
  "add_grant g grants =
     (if fg_field g = [] \<or> fg_actions g = [] then Inl ''field grants require a name and at least one action''
      else
        bind_result (fold_result add_action (fg_actions g) 0) (\<lambda>bits.
        if grants (fg_field g) \<noteq> None then Inl ''field permissions repeat a field grant''
        else Inr (grants(fg_field g \<mapsto> bits))))"

definition field_scope_new :: "field_permissions \<Rightarrow> string + field_scope" where
  "field_scope_new input =
     bind_result (fold_result add_grant (fpm_grants input) Map.empty) (\<lambda>grants.
     Inr \<lparr>fs_grants = grants, disclose_identity = disclose_document_identity input, fs_derived = None\<rparr>)"

definition derived_inputs :: "field_scope \<Rightarrow> string \<Rightarrow> (string list \<times> bool) option" where
  "derived_inputs scope field =
     Option.bind (fs_derived scope) (\<lambda>columns.
     Option.bind (declared_column columns field) (\<lambda>column.
     (case cc_disclosure column of
        InputsRule \<Rightarrow> Some (cc_inputs column, cc_reads_stable_key column)
      | OwnRule \<Rightarrow> None)))"

definition has_bit :: "field_scope \<Rightarrow> string \<Rightarrow> u8 \<Rightarrow> bool" where
  "has_bit scope field b = (case fs_grants scope field of None \<Rightarrow> False | Some bits \<Rightarrow> bits AND b \<noteq> 0)"

definition granted :: "field_scope \<Rightarrow> string \<Rightarrow> u8 \<Rightarrow> bool" where
  "granted scope field b =
     (if \<not> has_bit scope field b then False
      else
        (case derived_inputs scope field of
           None \<Rightarrow> True
         | Some (inputs, reads_key) \<Rightarrow>
             list_all (\<lambda>input. has_bit scope input b) inputs \<and> (\<not> reads_key \<or> disclose_identity scope)))"

definition can_use :: "field_scope \<Rightarrow> string \<Rightarrow> bool" where
  "can_use scope field = granted scope field 1"

definition can_disclose :: "field_scope \<Rightarrow> string \<Rightarrow> bool" where
  "can_disclose scope field = granted scope field 2"

definition denied :: status where
  "denied = (PermissionDenied, ''field access is not granted'')"

definition require_use :: "field_scope \<Rightarrow> string \<Rightarrow> unit result" where
  "require_use scope field = ensure (can_use scope field) denied"

definition require_disclose :: "field_scope \<Rightarrow> string \<Rightarrow> unit result" where
  "require_disclose scope field = ensure (can_disclose scope field) denied"

definition dictionary :: "field_scope \<Rightarrow> string \<Rightarrow> unit result" where
  "dictionary scope field = bind_result (require_use scope field) (\<lambda>_. require_disclose scope field)"

section \<open>Filters and stored values\<close>

fun predicate_column :: "filter_expr \<Rightarrow> string" where
  "predicate_column (EFacet p) = fp_column p"
| "predicate_column (ENumber p) = np_column p"
| "predicate_column (EMapFacet p) = mf_column p"
| "predicate_column (EMapNumber p) = mn_column p"
| "predicate_column (ETypedMapNumber p) = mn_column p"
| "predicate_column (EMapHasKey p) = mk_column p"
| "predicate_column (ETypedMapHasKey p) = mk_column p"
| "predicate_column (EHas column) = column"
| "predicate_column (EGeo g) = gf_column g"
| "predicate_column (EStringRange p) = sr_column p"
| "predicate_column (EMapStringRange p) = sr_column p"
| "predicate_column (EStringPrefix p) = sp_column p"
| "predicate_column (EMapStringPrefix p) = sp_column p"
| "predicate_column _ = []"

definition check_filter :: "field_scope \<Rightarrow> geo_filter list \<Rightarrow> filter_expr option \<Rightarrow> unit result" where
  "check_filter scope geo user =
     bind_result (each (\<lambda>g. require_use scope (gf_column g)) geo) (\<lambda>_.
     (case user of
        None \<Rightarrow> Inr ()
      | Some f \<Rightarrow>
          ensure (fold (\<lambda>leaf allowed. allowed \<and> can_use scope (predicate_column leaf)) (walk_leaves f) True) denied))"

record compiled_projection =
  cp_name :: string
  cp_expr :: "value_expr option"

definition check_leaves :: "field_scope \<Rightarrow> value_expr option \<Rightarrow> unit result" where
  "check_leaves scope e =
     each (\<lambda>leaf. dictionary scope (leaf_column leaf)) (concat (opt_list (map_option column_leaves e)))"

text \<open>A score stage is its column here; its transform reads nothing else.\<close>

definition fetch_values :: "field_scope \<Rightarrow> compiled_projection list \<Rightarrow> string list \<Rightarrow> unit result" where
  "fetch_values scope projections stages =
     bind_result (each (require_use scope) stages) (\<lambda>_.
     each (\<lambda>p. check_leaves scope (cp_expr p)) projections)"

section \<open>Search requests\<close>

record query_field =
  qf_field :: string
  qf_prefixes :: "string list"

record bm25_request =
  br_fields :: "query_field list"
  br_facet_fields :: "string list"
  br_score_stages :: "string list"
  br_map_facet_fields :: "string list"
  br_range_facet_fields :: "string list"
  br_geo_filters :: "geo_filter list"
  br_stats_fields :: "string list"
  br_cardinality_fields :: "string list"
  br_prefixes :: "string list"
  br_highlight :: "string list option"
  br_explain :: bool

definition read_field :: "field_scope \<Rightarrow> bool \<Rightarrow> string \<Rightarrow> unit result" where
  "read_field scope explain field =
     bind_result (require_use scope field) (\<lambda>_. if explain then require_disclose scope field else Inr ())"

definition check_highlight :: "field_scope \<Rightarrow> string list option \<Rightarrow> unit result" where
  "check_highlight scope spec =
     (case spec of
        None \<Rightarrow> Inr ()
      | Some names \<Rightarrow>
          bind_result (if names = [] then dictionary scope ''body'' else Inr ()) (\<lambda>_. each (dictionary scope) names))"

definition check_bm25 ::
  "field_scope \<Rightarrow> bm25_request \<Rightarrow> filter_expr option \<Rightarrow> compiled_projection list \<Rightarrow> unit result" where
  "check_bm25 scope req user projections =
     (let names = (if br_fields req = [] then [''body''] else map qf_field (br_fields req)) in
      bind_result (each (read_field scope (br_explain req)) names) (\<lambda>_.
      bind_result (if br_prefixes req \<noteq> [] then dictionary scope ''body'' else Inr ()) (\<lambda>_.
      bind_result (each (\<lambda>f. if qf_prefixes f \<noteq> [] then dictionary scope (qf_field f) else Inr ()) (br_fields req)) (\<lambda>_.
      bind_result (each (dictionary scope) (br_facet_fields req @ br_stats_fields req @ br_cardinality_fields req)) (\<lambda>_.
      bind_result (each (dictionary scope) (br_map_facet_fields req)) (\<lambda>_.
      bind_result (each (dictionary scope) (br_range_facet_fields req)) (\<lambda>_.
      bind_result (each (read_field scope (br_explain req)) (br_score_stages req)) (\<lambda>_.
      bind_result (check_filter scope (br_geo_filters req) user) (\<lambda>_.
      bind_result (fetch_values scope projections []) (\<lambda>_.
      check_highlight scope (br_highlight req)))))))))))"

text \<open>A sort or collapse selector: a column, or a map entry.\<close>

record sort_key =
  sk_column :: string
  sk_map :: "(string \<times> string) option"

definition target_field :: "string \<Rightarrow> (string \<times> string) option \<Rightarrow> string result" where
  "target_field column mp =
     (case (column = [], mp) of
        (False, None) \<Rightarrow> Inr column
      | (True, Some (mcolumn, key)) \<Rightarrow>
          if mcolumn \<noteq> [] then Inr mcolumn
          else Inl (InvalidArgument, ''sort/collapse requires exactly one nonempty column or map column selector'')
      | _ \<Rightarrow> Inl (InvalidArgument, ''sort/collapse requires exactly one nonempty column or map column selector''))"

definition check_sort :: "field_scope \<Rightarrow> sort_key \<Rightarrow> unit result" where
  "check_sort scope k = bind_result (target_field (sk_column k) (sk_map k)) (dictionary scope)"

definition check_browse ::
  "field_scope \<Rightarrow> geo_filter list \<Rightarrow> filter_expr option \<Rightarrow> sort_key list \<Rightarrow> string list \<Rightarrow> unit result" where
  "check_browse scope geo tree sort_keys lexical_terms =
     bind_result (check_filter scope geo tree) (\<lambda>_.
     bind_result (if lexical_terms \<noteq> [] then require_use scope ''body'' else Inr ()) (\<lambda>_.
     each (check_sort scope) sort_keys))"

record compiled_aggregate =
  ca_aggregations :: "value_expr option list"
  ca_histograms :: "value_expr option list"
  ca_percentiles :: "value_expr option list"
  ca_group_by :: string

definition check_aggregate ::
  "field_scope \<Rightarrow> geo_filter list \<Rightarrow> filter_expr option \<Rightarrow> compiled_aggregate \<Rightarrow> unit result" where
  "check_aggregate scope geo tree agg =
     bind_result (check_filter scope geo tree) (\<lambda>_.
     bind_result (if ca_group_by agg \<noteq> [] then dictionary scope (ca_group_by agg) else Inr ()) (\<lambda>_.
     each (check_leaves scope) (ca_aggregations agg @ ca_histograms agg @ ca_percentiles agg)))"

datatype boolean_leaf =
    LexicalLeaf "string list"
  | DenseLeaf string
  | FilterLeaf "geo_filter list" "filter_expr option"

definition lexical_scores :: "field_scope \<Rightarrow> string list \<Rightarrow> unit result" where
  "lexical_scores scope stages =
     bind_result (require_use scope ''body'') (\<lambda>_. each (require_use scope) stages)"

definition check_boolean_leaf :: "field_scope \<Rightarrow> boolean_leaf option \<Rightarrow> unit result" where
  "check_boolean_leaf scope leaf =
     (case leaf of
        Some (LexicalLeaf stages) \<Rightarrow> bind_result (require_use scope ''body'') (\<lambda>_. each (require_use scope) stages)
      | Some (DenseLeaf field) \<Rightarrow> require_use scope field
      | Some (FilterLeaf geo tree) \<Rightarrow> check_filter scope geo tree
      | None \<Rightarrow> Inl (InvalidArgument, ''Boolean leaf has no kind''))"

section \<open>Query requests\<close>

datatype search_leaf = SLexical "string list" "string list" | SDense string

datatype filter_predicate = PCel string | PGeo geo_filter

datatype 'a selection =
    SelUnset
  | SelSearch "search_leaf option"
  | SelFilter "filter_predicate option"
  | SelComposite "'a selection list"
  | SelBoolean "'a selection list" "'a selection list" "'a selection list" "'a option"

text \<open>
  The compilers the checks call: a CEL filter, the projections, and an aggregate request's
  filters and expressions.
\<close>

record ('a, 'p) compilers =
  compile_filter :: "string \<Rightarrow> filter_expr option result"
  compile_projections :: "'p list \<Rightarrow> compiled_projection list result"
  compile_request_filters :: "'a \<Rightarrow> (geo_filter list \<times> filter_expr option) result"
  compile_aggregations :: "'a \<Rightarrow> compiled_aggregate result"

definition check_search_leaf :: "field_scope \<Rightarrow> search_leaf option \<Rightarrow> bool \<Rightarrow> unit result" where
  "check_search_leaf scope leaf explain =
     (case leaf of
        Some (SLexical stages pfx) \<Rightarrow>
          bind_result (require_use scope ''body'') (\<lambda>_.
          bind_result (if explain \<or> pfx \<noteq> [] then require_disclose scope ''body'' else Inr ()) (\<lambda>_.
          each (read_field scope explain) stages))
      | Some (SDense field) \<Rightarrow> read_field scope explain field
      | None \<Rightarrow> Inl (InvalidArgument, ''search leaf has no query''))"

definition query_aggregate :: "('a, 'p) compilers \<Rightarrow> field_scope \<Rightarrow> 'a \<Rightarrow> unit result" where
  "query_aggregate cs scope req =
     bind_result (compile_request_filters cs req) (\<lambda>(geo, tree).
     bind_result (compile_aggregations cs req) (check_aggregate scope geo tree))"

fun check_selection :: "('a, 'p) compilers \<Rightarrow> field_scope \<Rightarrow> 'a selection \<Rightarrow> bool \<Rightarrow> nat \<Rightarrow> unit result"
  and check_selections :: "('a, 'p) compilers \<Rightarrow> field_scope \<Rightarrow> 'a selection list \<Rightarrow> bool \<Rightarrow> nat \<Rightarrow> unit result" where
  "check_selection cs scope node explain depth =
     (if 64 < depth then Inl (InvalidArgument, ''selection exceeds 64 levels'')
      else
        (case node of
           SelSearch search \<Rightarrow> check_search_leaf scope search explain
         | SelFilter (Some (PCel cel)) \<Rightarrow> bind_result (compile_filter cs cel) (check_filter scope [])
         | SelFilter (Some (PGeo geo)) \<Rightarrow> check_filter scope [geo] None
         | SelFilter None \<Rightarrow> Inl (InvalidArgument, ''filter has no predicate'')
         | SelComposite clauses \<Rightarrow> check_selections cs scope clauses explain (depth + 1)
         | SelBoolean must should must_not aggregate \<Rightarrow>
             bind_result (check_selections cs scope must explain (depth + 1)) (\<lambda>_.
             bind_result (check_selections cs scope should explain (depth + 1)) (\<lambda>_.
             bind_result (check_selections cs scope must_not explain (depth + 1)) (\<lambda>_.
             (case aggregate of None \<Rightarrow> Inr () | Some a \<Rightarrow> query_aggregate cs scope a))))
         | SelUnset \<Rightarrow> Inl (InvalidArgument, ''selection has no node'')))"
| "check_selections cs scope [] explain depth = Inr ()"
| "check_selections cs scope (n # ns) explain depth =
     bind_result (check_selection cs scope n explain depth) (\<lambda>_. check_selections cs scope ns explain depth)"

text \<open>A score dimension: its id, and the column when its source is a bounded value.\<close>

record ('a, 'p) query_request =
  qr_selection :: "'a selection option"
  qr_boosts :: "search_leaf option option list"
  qr_scorer :: "(string \<times> string option) list option"
  qr_sort :: "sort_key list"
  qr_projections :: "'p list"
  qr_highlight :: "string list option"
  qr_collapse :: "sort_key option"
  qr_explain :: bool
  qr_aggregate :: "'a option"

record query_disclosure =
  qd_fields :: field_scope
  hidden_dimensions :: "string set"

definition check_dimension :: "field_scope \<Rightarrow> bool \<Rightarrow> string \<times> string option \<Rightarrow> string set \<Rightarrow> status + string set" where
  "check_dimension scope explain sd hidden =
     (case sd of
        (_, None) \<Rightarrow> Inr hidden
      | (ident, Some column) \<Rightarrow>
          bind_result (read_field scope explain column) (\<lambda>_.
          Inr (if can_disclose scope column then hidden else insert ident hidden)))"

definition check_query :: "('a, 'p) compilers \<Rightarrow> field_scope \<Rightarrow> ('a, 'p) query_request \<Rightarrow> query_disclosure result" where
  "check_query cs scope req =
     (case qr_selection req of
        None \<Rightarrow> Inl (InvalidArgument, ''a query needs a selection tree'')
      | Some sel \<Rightarrow>
          bind_result (check_selection cs scope sel (qr_explain req) 0) (\<lambda>_.
          bind_result (each (\<lambda>b. case b of None \<Rightarrow> Inl (InvalidArgument, ''boost has no query'')
                                       | Some q \<Rightarrow> check_search_leaf scope q (qr_explain req)) (qr_boosts req)) (\<lambda>_.
          bind_result (each (check_sort scope) (qr_sort req)) (\<lambda>_.
          bind_result (case qr_collapse req of None \<Rightarrow> Inr () | Some k \<Rightarrow> check_sort scope k) (\<lambda>_.
          bind_result (compile_projections cs (qr_projections req)) (\<lambda>projections.
          bind_result (fetch_values scope projections []) (\<lambda>_.
          bind_result (check_highlight scope (qr_highlight req)) (\<lambda>_.
          bind_result (case qr_aggregate req of None \<Rightarrow> Inr () | Some a \<Rightarrow> query_aggregate cs scope a) (\<lambda>_.
          bind_result (fold_result (check_dimension scope (qr_explain req)) (concat (opt_list (qr_scorer req))) {}) (\<lambda>hidden.
          Inr \<lparr>qd_fields = scope, hidden_dimensions = hidden\<rparr>))))))))))"

section \<open>Disclosure\<close>

text \<open>The parts of an answer that name fields; payloads are kept as they are.\<close>

record bm25_hit =
  bh_doc_id :: u64
  bh_score :: u32
  bh_terms :: "(string \<times> string) list"
  bh_snippets :: "(string \<times> string) list"
  bh_explain :: "(string list \<times> string list) option"
  bh_identity :: "bytes option"

record bm25_response =
  rs_hits :: "bm25_hit list"
  rs_phrase_routing :: "(string \<times> string) list"
  rs_synonym_expansions :: "(string \<times> string list) list"
  rs_redacted :: bool

definition term_field :: "string \<Rightarrow> string" where
  "term_field field = (if field = [] then ''body'' else field)"

definition retain :: "('a \<Rightarrow> bool) \<Rightarrow> 'a list \<Rightarrow> bool \<Rightarrow> 'a list \<times> bool" where
  "retain keep xs redacted = (filter keep xs, redacted \<or> list_ex (\<lambda>x. \<not> keep x) xs)"

definition disclose_hit :: "field_scope \<Rightarrow> bm25_hit \<Rightarrow> bool \<Rightarrow> status + bm25_hit \<times> bool" where
  "disclose_hit scope hit redacted =
     (case retain (\<lambda>t. can_disclose scope (term_field (fst t))) (bh_terms hit) redacted of (terms, redacted) \<Rightarrow>
        bind_result (each (\<lambda>s. require_disclose scope (fst s)) (bh_snippets hit)) (\<lambda>_.
        bind_result (case bh_explain hit of
                       None \<Rightarrow> Inr ()
                     | Some (names, columns) \<Rightarrow>
                         bind_result (each (require_disclose scope) names) (\<lambda>_. each (require_disclose scope) columns)) (\<lambda>_.
        if \<not> disclose_identity scope \<and> bh_identity hit \<noteq> None
        then Inr (hit\<lparr>bh_terms := terms, bh_identity := None\<rparr>, True)
        else Inr (hit\<lparr>bh_terms := terms\<rparr>, redacted))))"

definition disclose :: "field_scope \<Rightarrow> bm25_response \<Rightarrow> bm25_response result" where
  "disclose scope response =
     bind_result (fold_result (\<lambda>hit (hits, redacted).
         bind_result (disclose_hit scope hit redacted) (\<lambda>(hit, redacted). Inr (hits @ [hit], redacted)))
       (rs_hits response) ([], False)) (\<lambda>(hits, redacted).
     case retain (\<lambda>e. can_disclose scope (fst e)) (rs_synonym_expansions response) redacted of (expansions, redacted) \<Rightarrow>
     case retain (\<lambda>p. can_disclose scope (fst p) \<and> can_disclose scope (snd p)) (rs_phrase_routing response) redacted of
       (routing, redacted) \<Rightarrow>
     Inr (response\<lparr>rs_hits := hits, rs_synonym_expansions := expansions, rs_phrase_routing := routing, rs_redacted := redacted\<rparr>))"

record query_hit =
  qh_doc_id :: u64
  qh_dimensions :: "(string \<times> u32) list"
  qh_identity :: "bytes option"

record query_response =
  qp_hits :: "query_hit list"
  qp_groups :: "query_hit list list"
  qp_synonym_expansions :: "(string \<times> string list) list"
  qp_redacted :: bool

definition apply_hit :: "query_disclosure \<Rightarrow> query_hit \<Rightarrow> query_hit" where
  "apply_hit qd hit =
     hit\<lparr>qh_identity := (if disclose_identity (qd_fields qd) then qh_identity hit else None),
         qh_dimensions := filter (\<lambda>(ident, _). ident \<notin> hidden_dimensions qd) (qh_dimensions hit)\<rparr>"

definition apply_disclosure :: "query_disclosure \<Rightarrow> query_response \<Rightarrow> query_response" where
  "apply_disclosure qd response =
     (case retain (\<lambda>(field, _). can_disclose (qd_fields qd) field) (qp_synonym_expansions response)
             (\<not> disclose_identity (qd_fields qd) \<or> hidden_dimensions qd \<noteq> {}) of (expansions, redacted) \<Rightarrow>
        response\<lparr>qp_hits := map (apply_hit qd) (qp_hits response),
                 qp_groups := map (map (apply_hit qd)) (qp_groups response),
                 qp_synonym_expansions := expansions,
                 qp_redacted := (qp_redacted response \<or> redacted)\<rparr>)"

section \<open>A scope is the grant list\<close>

text \<open>The actions by their wire numbers; the two bits of a grant.\<close>

definition wire_granted :: "field_permissions \<Rightarrow> string \<Rightarrow> int \<Rightarrow> bool" where
  "wire_granted perms field a = (\<exists>g \<in> set (fpm_grants perms). fg_field g = field \<and> a \<in> set (fg_actions g))"

lemma and_bits: "(x :: u8) AND 1 \<noteq> 0 \<longleftrightarrow> bit x 0" "x AND 2 \<noteq> 0 \<longleftrightarrow> bit x 1"
  using bit_iff_and_push_bit_not_eq_0 [of x 0] bit_iff_and_push_bit_not_eq_0 [of x 1] by simp_all

lemma bit_two: "bit (2 :: u8) 0 = False" "bit (2 :: u8) 1 = True" "bit (1 :: u8) 0 = True" "bit (1 :: u8) 1 = False"
  by (simp_all add: bit_1_iff)

lemma add_actions_bits:
  assumes "fold_result add_action as 0 = Inr bits"
  shows "(bit bits 0 \<longleftrightarrow> 1 \<in> set as) \<and> (bit bits 1 \<longleftrightarrow> 2 \<in> set as)"
  using assms
  by (rule fold_result_rule) (auto simp: add_action_def action_bit_def bit_or_iff bit_two split: if_splits option.splits)

definition grants_ok :: "field_grant list \<Rightarrow> (string \<Rightarrow> u8 option) \<Rightarrow> bool" where
  "grants_ok gs grants =
     (\<forall>f. (case grants f of
             None \<Rightarrow> f \<notin> fg_field ` set gs
           | Some bits \<Rightarrow> (bit bits 0 \<longleftrightarrow> (\<exists>g \<in> set gs. fg_field g = f \<and> 1 \<in> set (fg_actions g))) \<and>
                          (bit bits 1 \<longleftrightarrow> (\<exists>g \<in> set gs. fg_field g = f \<and> 2 \<in> set (fg_actions g)))))"

lemma add_grant_ok:
  assumes "grants_ok gs grants" "add_grant g grants = Inr grants'"
  shows "grants_ok (gs @ [g]) grants'"
proof -
  obtain bits where g: "grants (fg_field g) = None" "grants' = grants(fg_field g \<mapsto> bits)"
    and bits: "fold_result add_action (fg_actions g) 0 = Inr bits"
    using assms(2) by (auto simp: add_grant_def bind_result_eq_Inr split: if_splits)
  have new: "h \<in> set gs \<Longrightarrow> fg_field h \<noteq> fg_field g" for h
    using spec [OF assms(1) [unfolded grants_ok_def], of "fg_field g"] g(1) by (auto simp: image_iff)
  show ?thesis
    unfolding grants_ok_def
  proof
    fix f
    show "case grants' f of
        None \<Rightarrow> f \<notin> fg_field ` set (gs @ [g])
      | Some bits \<Rightarrow> (bit bits 0 \<longleftrightarrow> (\<exists>g \<in> set (gs @ [g]). fg_field g = f \<and> 1 \<in> set (fg_actions g))) \<and>
                     (bit bits 1 \<longleftrightarrow> (\<exists>g \<in> set (gs @ [g]). fg_field g = f \<and> 2 \<in> set (fg_actions g)))"
    proof (cases "f = fg_field g")
      case True
      then show ?thesis using new add_actions_bits [OF bits] g(2) by auto
    next
      case False
      then have "grants' f = grants f" using g(2) by simp
      with False show ?thesis using assms(1) by (auto simp: grants_ok_def split: option.splits dest!: spec [of _ f])
    qed
  qed
qed

lemma add_grants_ok: "fold_result add_grant gs Map.empty = Inr grants \<Longrightarrow> grants_ok gs grants"
  by (erule fold_result_rule) (auto simp: grants_ok_def [of "[]"] intro: add_grant_ok)

lemma scope_bits:
  assumes "field_scope_new perms = Inr scope"
  shows "has_bit scope f 1 \<longleftrightarrow> wire_granted perms f 1" "has_bit scope f 2 \<longleftrightarrow> wire_granted perms f 2"
    "disclose_identity scope = disclose_document_identity perms"
proof -
  have ok: "grants_ok (fpm_grants perms) (fs_grants scope)" "disclose_identity scope = disclose_document_identity perms"
    using assms by (auto simp: field_scope_new_def bind_result_eq_Inr intro: add_grants_ok)
  then show "disclose_identity scope = disclose_document_identity perms" by simp
  show "has_bit scope f 1 \<longleftrightarrow> wire_granted perms f 1" "has_bit scope f 2 \<longleftrightarrow> wire_granted perms f 2"
    using spec [OF ok(1) [unfolded grants_ok_def], of f]
    by (cases "fs_grants scope f"; auto simp: has_bit_def wire_granted_def and_bits)+
qed

lemma granted_with_derived:
  "granted (with_derived (Some columns) scope) f b \<longleftrightarrow>
     has_bit scope f b \<and>
     (\<forall>c. declared_column columns f = Some c \<and> cc_disclosure c = InputsRule \<longrightarrow>
          (\<forall>x \<in> set (cc_inputs c). has_bit scope x b) \<and> (cc_reads_stable_key c \<longrightarrow> disclose_identity scope))"
proof -
  have h: "has_bit (with_derived d scope) g b = has_bit scope g b" "disclose_identity (with_derived d scope) = disclose_identity scope"
    "fs_derived (with_derived d scope) = d" for d g
    by (simp_all add: has_bit_def with_derived_def)
  show ?thesis
  proof (cases "declared_column columns f")
    case None
    then show ?thesis by (simp add: granted_def h derived_inputs_def)
  next
    case (Some c)
    then show ?thesis
      by (cases "cc_disclosure c") (auto simp: granted_def h derived_inputs_def list_all_iff)
  qed
qed

lemma declared_distinct:
  assumes "distinct (map cc_name columns)" "c \<in> set columns"
  shows "declared_column columns (cc_name c) = Some c"
  using assms by (induction columns) (auto simp: declared_column_def)

text \<open>
  C19: under a compiled declaration, a derived column declared \<open>inputs\<close> may be disclosed only
  when the grant list names \<open>DISCLOSE\<close> on the column itself and on every column its
  expression reads, and the document identity is disclosable whenever the expression reads
  the stable key. The same holds for use.
\<close>

theorem derived_grant_covers_inputs:
  assumes "declaration_compile cv spec = Inr columns" "field_scope_new perms = Inr scope"
    "c \<in> set columns" "cc_disclosure c = InputsRule"
  shows "(can_disclose (with_derived (Some columns) scope) (cc_name c) \<longleftrightarrow>
      wire_granted perms (cc_name c) 2 \<and> (\<forall>x. reads (cc_expr c) x \<longrightarrow> wire_granted perms x 2) \<and>
      (reads_stable_key (cc_expr c) \<longrightarrow> disclose_document_identity perms)) \<and>
    (can_use (with_derived (Some columns) scope) (cc_name c) \<longleftrightarrow>
      wire_granted perms (cc_name c) 1 \<and> (\<forall>x. reads (cc_expr c) x \<longrightarrow> wire_granted perms x 1) \<and>
      (reads_stable_key (cc_expr c) \<longrightarrow> disclose_document_identity perms))"
proof -
  have "declared_column columns (cc_name c) = Some c" "column_ok c"
    using compile_columns_ok [OF assms(1)] assms(3) declared_distinct by auto
  then show ?thesis
    using assms(4) by (auto simp: can_disclose_def can_use_def granted_with_derived scope_bits [OF assms(2)] column_ok_def)
qed

theorem derived_grant_covers_inputs_witness:
  "\<exists>columns scope. declaration_compile (\<lambda>_. Inr (VFunc 17 [VColumn ''court'', VStableKeyHash]))
       [\<lparr>dc_name = ''h'', dc_expression = ''x'', dc_kind = 3, dc_disclosure = 1\<rparr>] = Inr columns \<and>
     field_scope_new \<lparr>fpm_grants = [\<lparr>fg_field = ''h'', fg_actions = [1, 2]\<rparr>], disclose_document_identity = True\<rparr> = Inr scope \<and>
     \<not> can_disclose (with_derived (Some columns) scope) ''h''"
proof -
  let ?c = "\<lparr>cc_name = ''h'', cc_expr = VFunc 17 [VColumn ''court'', VStableKeyHash], cc_kind = KindU64, cc_disclosure = InputsRule,
             cc_inputs = [''court''], cc_reads_stable_key = True\<rparr>"
  let ?perms = "\<lparr>fpm_grants = [\<lparr>fg_field = ''h'', fg_actions = [1, 2]\<rparr>], disclose_document_identity = True\<rparr>"
  have "trim ''h'' = ''h''" "trim ''x'' = ''x''" by (simp_all add: trim_single white_space_def)
  then have compiled: "declaration_compile (\<lambda>_. Inr (VFunc 17 [VColumn ''court'', VStableKeyHash]))
      [\<lparr>dc_name = ''h'', dc_expression = ''x'', dc_kind = 3, dc_disclosure = 1\<rparr>] = Inr [?c]"
    by (simp add: declaration_compile_def compile_column_def kind_of_def disclosure_of_def input_columns_def outputs_not_inputs_def)
  obtain scope where scope: "field_scope_new ?perms = Inr scope"
    by (simp add: field_scope_new_def add_grant_def add_action_def action_bit_def)
  have "\<not> wire_granted ?perms ''court'' 2" by (simp add: wire_granted_def)
  moreover have "reads (cc_expr ?c) ''court''" by (auto intro: reads.intros)
  ultimately have "\<not> can_disclose (with_derived (Some [?c]) scope) ''h''"
    using derived_grant_covers_inputs [OF compiled scope, of ?c] by auto
  with compiled scope show ?thesis by blast
qed

section \<open>Admission\<close>

lemma dictionary_ok [simp]: "dictionary scope f = Inr u \<longleftrightarrow> can_use scope f \<and> can_disclose scope f"
  by (auto simp: dictionary_def require_use_def require_disclose_def bind_result_eq_Inr)

lemma read_field_ok [simp]: "read_field scope explain f = Inr u \<longleftrightarrow> can_use scope f \<and> (explain \<longrightarrow> can_disclose scope f)"
  by (auto simp: read_field_def require_use_def require_disclose_def bind_result_eq_Inr)

lemma require_ok [simp]: "require_use scope f = Inr u \<longleftrightarrow> can_use scope f" "require_disclose scope f = Inr u \<longleftrightarrow> can_disclose scope f"
  by (simp_all add: require_use_def require_disclose_def)

lemma fold_allowed: "fold (\<lambda>leaf allowed. allowed \<and> P leaf) xs a \<longleftrightarrow> a \<and> (\<forall>x \<in> set xs. P x)"
  by (induction xs arbitrary: a) auto

definition filter_columns :: "geo_filter list \<Rightarrow> filter_expr option \<Rightarrow> string set" where
  "filter_columns geo user = gf_column ` set geo \<union> predicate_column ` set (concat (opt_list (map_option walk_leaves user)))"

lemma check_filter_ok [simp]: "check_filter scope geo user = Inr u \<longleftrightarrow> (\<forall>f \<in> filter_columns geo user. can_use scope f)"
  by (cases user) (auto simp: check_filter_def bind_result_eq_Inr fold_allowed filter_columns_def)

definition projected_columns :: "compiled_projection list \<Rightarrow> string set" where
  "projected_columns ps = {c. \<exists>p \<in> set ps. \<exists>e. cp_expr p = Some e \<and> reads e c}"

lemma check_leaves_ok [simp]:
  "check_leaves scope e = Inr u \<longleftrightarrow> (\<forall>c. (\<exists>x. e = Some x \<and> reads x c) \<longrightarrow> can_use scope c \<and> can_disclose scope c)"
proof (cases e)
  case (Some x)
  have "reads x c \<longleftrightarrow> (\<exists>l \<in> set (column_leaves x). c = leaf_column l)" for c
    using reads_leaves [of x c] leaves_reads [of _ x] by auto
  with Some show ?thesis by (auto simp: check_leaves_def)
qed (simp add: check_leaves_def)

lemma fetch_values_ok [simp]:
  "fetch_values scope ps stages = Inr u \<longleftrightarrow>
     (\<forall>f \<in> set stages. can_use scope f) \<and> (\<forall>c \<in> projected_columns ps. can_use scope c \<and> can_disclose scope c)"
  by (auto simp: fetch_values_def bind_result_eq_Inr projected_columns_def)

text \<open>What a lexical search reads, and what its answer tells.\<close>

definition bm25_disclosed :: "bm25_request \<Rightarrow> compiled_projection list \<Rightarrow> string set" where
  "bm25_disclosed req ps =
     (if br_prefixes req \<noteq> [] \<or> br_highlight req = Some [] then {''body''} else {}) \<union>
     {f. \<exists>q \<in> set (br_fields req). f = qf_field q \<and> qf_prefixes q \<noteq> []} \<union>
     set (br_facet_fields req) \<union> set (br_stats_fields req) \<union> set (br_cardinality_fields req) \<union>
     set (br_map_facet_fields req) \<union> set (br_range_facet_fields req) \<union> projected_columns ps \<union>
     set (concat (opt_list (br_highlight req)))"

definition bm25_scored :: "bm25_request \<Rightarrow> string set" where
  "bm25_scored req =
     (if br_fields req = [] then {''body''} else qf_field ` set (br_fields req)) \<union> set (br_score_stages req)"

text \<open>
  C17: a lexical search request is admitted exactly when the scope may use every field it
  scores, filters, aggregates, projects or cuts snippets from, and may disclose every field
  whose dictionary or values the answer would carry; with \<open>explain\<close> the scored fields count as
  disclosed too.
\<close>

theorem bm25_admission:
  "check_bm25 scope req user ps = Inr () \<longleftrightarrow>
     (\<forall>f \<in> bm25_scored req \<union> filter_columns (br_geo_filters req) user \<union> bm25_disclosed req ps. can_use scope f) \<and>
     (\<forall>f \<in> bm25_disclosed req ps \<union> (if br_explain req then bm25_scored req else {}). can_disclose scope f)"
proof -
  have h: "check_highlight scope (br_highlight req) = Inr () \<longleftrightarrow>
      (\<forall>f \<in> (if br_highlight req = Some [] then {''body''} else {}) \<union> set (concat (opt_list (br_highlight req))). can_use scope f \<and> can_disclose scope f)"
    by (cases "br_highlight req") (auto simp: check_highlight_def bind_result_eq_Inr)
  have p: "(if br_prefixes req \<noteq> [] then dictionary scope ''body'' else Inr ()) = Inr () \<longleftrightarrow>
      (br_prefixes req \<noteq> [] \<longrightarrow> can_use scope ''body'' \<and> can_disclose scope ''body'')" by simp
  have q: "each (\<lambda>f. if qf_prefixes f \<noteq> [] then dictionary scope (qf_field f) else Inr ()) (br_fields req) = Inr () \<longleftrightarrow>
      (\<forall>f \<in> {f. \<exists>q \<in> set (br_fields req). f = qf_field q \<and> qf_prefixes q \<noteq> []}. can_use scope f \<and> can_disclose scope f)" by auto
  show ?thesis
    unfolding check_bm25_def Let_def bind_result_eq_Inr h p q
    by (auto simp: bm25_disclosed_def bm25_scored_def)
qed

definition sample_request :: bm25_request where
  "sample_request =
     \<lparr>br_fields = [\<lparr>qf_field = ''title'', qf_prefixes = []\<rparr>], br_facet_fields = [''lang''], br_score_stages = [],
      br_map_facet_fields = [], br_range_facet_fields = [], br_geo_filters = [], br_stats_fields = [],
      br_cardinality_fields = [], br_prefixes = [], br_highlight = None, br_explain = False\<rparr>"

definition sample_scope :: field_scope where
  "sample_scope = \<lparr>fs_grants = [''title'' \<mapsto> 1, ''lang'' \<mapsto> 3], disclose_identity = False, fs_derived = None\<rparr>"

theorem bm25_admission_witness:
  "check_bm25 sample_scope sample_request None [] = Inr () \<and>
   check_bm25 sample_scope (sample_request\<lparr>br_explain := True\<rparr>) None [] \<noteq> Inr ()"
  using bm25_admission [of sample_scope sample_request None "[]"]
    bm25_admission [of sample_scope "sample_request\<lparr>br_explain := True\<rparr>" None "[]"]
  by (simp add: sample_scope_def sample_request_def bm25_scored_def bm25_disclosed_def filter_columns_def projected_columns_def
      can_use_def can_disclose_def granted_def has_bit_def derived_inputs_def)

section \<open>A permitted filter reads permitted columns only\<close>

text \<open>Two rows that a scope cannot tell apart: every usable column holds the same in both.\<close>

definition row_has :: "shard_tables \<Rightarrow> numeric_read \<Rightarrow> u32 \<Rightarrow> string \<Rightarrow> tri" where
  "row_has tb cols d column = leaf_meaning (\<lambda>_ _ _ _ _. 0) tb cols d (EHas column)"

definition row_has_key :: "shard_tables \<Rightarrow> numeric_read \<Rightarrow> u32 \<Rightarrow> bool \<Rightarrow> string \<Rightarrow> string \<Rightarrow> tri" where
  "row_has_key tb cols d typed column key =
     leaf_eval (\<lambda>_ _ _ _ _. 0) cols d (RMapHasKey (resolve_map_key tb typed \<lparr>mk_column = column, mk_key = key\<rparr>))"

definition row_point :: "shard_tables \<Rightarrow> numeric_read \<Rightarrow> u32 \<Rightarrow> string \<Rightarrow> (f64 \<times> f64) option" where
  "row_point tb cols d column = Option.bind (geo_index tb column) (\<lambda>gi. geo_value cols gi d)"

definition same_row ::
  "(string \<Rightarrow> bool) \<Rightarrow> shard_tables \<times> numeric_read \<times> u32 \<Rightarrow> shard_tables \<times> numeric_read \<times> u32 \<Rightarrow> bool" where
  "same_row usable = (\<lambda>(tb, cols, d) (tb', cols', d').
     \<forall>c. usable c \<longrightarrow>
       facet_string tb cols d c = facet_string tb' cols' d' c \<and>
       (\<forall>k. map_facet_string tb cols d c k = map_facet_string tb' cols' d' c k) \<and>
       row_number tb cols d c = row_number tb' cols' d' c \<and>
       (\<forall>t k. row_map_number tb cols d t c k = row_map_number tb' cols' d' t c k) \<and>
       row_has tb cols d c = row_has tb' cols' d' c \<and>
       (\<forall>t k. row_has_key tb cols d t c k = row_has_key tb' cols' d' t c k) \<and>
       row_point tb cols d c = row_point tb' cols' d' c)"

lemma leaf_meaning_same_row:
  assumes "same_row usable (tb, cols, d) (tb', cols', d')" "is_leaf l" "usable (predicate_column l)"
  shows "leaf_meaning gd tb cols d l = leaf_meaning gd tb' cols' d' l"
proof -
  have key: "leaf_eval gd cols d (RMapHasKey (resolve_map_key tb t p)) = row_has_key tb cols d t (mk_column p) (mk_key p)"
    for gd cols d tb t and p :: map_key_predicate by (cases p) (simp add: row_has_key_def)
  have has: "leaf_meaning gd tb cols d (EHas c) = row_has tb cols d c" for gd tb cols d c by (simp add: row_has_def)
  have geo: "leaf_meaning gd tb cols d (EGeo g) = tri_opt (row_point tb cols d (gf_column g)) (\<lambda>(lat, lon).
      (case validate_geo_filter g of Inl _ \<Rightarrow> False | Inr region \<Rightarrow> region_contains gd region lat lon))" for gd tb cols d g
    by (simp add: row_point_def)
  show ?thesis
    using assms
    by (cases l) (simp_all only: leaf_meaning.simps(1-11) key has geo predicate_column.simps is_leaf.simps row_string_def same_row_def
        prod.case split: option.split)
qed

lemma meaning_same_row:
  assumes "same_row usable (tb, cols, d) (tb', cols', d')" "\<forall>l \<in> set (walk_leaves e). usable (predicate_column l)"
  shows "meaning gd tb cols d e = meaning gd tb' cols' d' e"
  using assms(2)
proof (induction e)
  case (EAnd es)
  then have "map (meaning gd tb cols d) es = map (meaning gd tb' cols' d') es" by auto
  then show ?case by (simp only: meaning.simps)
next
  case (EOr es)
  then have "map (meaning gd tb cols d) es = map (meaning gd tb' cols' d') es" by auto
  then show ?case by (simp only: meaning.simps)
qed (use leaf_meaning_same_row [OF assms(1)] in \<open>simp_all del: leaf_meaning.simps\<close>, simp)

text \<open>
  C16: a filter the scope admits cannot distinguish two rows that agree on the columns the
  scope may use: on any two shards where it resolves, its verdicts on the two rows are the
  same, whatever the other columns hold.
\<close>

theorem filter_noninterference:
  assumes "validate_filter e = Inr ()" "wire_i64 e" "check_filter scope [] (Some e) = Inr ()"
    "tables_ok tb cols" "tables_ok tb' cols'"
    "resolve_filter tb e = Some (Inr f)" "resolve_filter tb' e = Some (Inr f')"
    "same_row (can_use scope) (tb, cols, d) (tb', cols', d')"
  shows "filter_eval gd cols d f = filter_eval gd cols' d' f'"
proof -
  have wf: "wf_tree MAX_DEPTH e"
    using assms(1) by (auto simp: validate_filter_def bind_result_eq_Inr validate_node_iff MAX_DEPTH_def simp del: validate_node.simps)
  have "filter_eval gd cols d f = meaning gd tb cols d e" "filter_eval gd cols' d' f' = meaning gd tb' cols' d' e"
    using resolves_tree(1) [OF assms(4) wf assms(2)] resolves_tree(1) [OF assms(5) wf assms(2)] assms(6,7) by simp_all
  moreover have "meaning gd tb cols d e = meaning gd tb' cols' d' e"
    using assms(3) by (intro meaning_same_row [OF assms(8)]) (simp add: filter_columns_def)
  ultimately show ?thesis by simp
qed

definition size_scope :: field_scope where
  "size_scope = \<lparr>fs_grants = [''size'' \<mapsto> 1], disclose_identity = False, fs_derived = None\<rparr>"

theorem filter_noninterference_witness:
  "filter_eval (\<lambda>_ _ _ _ _. 0) sample_columns 0 (RLeaf (RHas None None None None None)) =
   filter_eval (\<lambda>_ _ _ _ _. 0) sample_columns 1 (RLeaf (RHas None None None None None))"
proof -
  have usable: "can_use size_scope c \<longleftrightarrow> c = ''size''" for c
    by (simp add: can_use_def granted_def has_bit_def derived_inputs_def size_scope_def)
  have "same_row (can_use size_scope) (sample_tables, sample_columns, 0) (sample_tables, sample_columns, 1)"
    by (simp add: same_row_def usable facet_string_def map_facet_string_def map_facet_target_def row_number_def row_map_number_def
        row_has_def row_has_key_def row_point_def resolve_map_key_def sample_tables_def present_def)
  moreover have "validate_filter (EHas ''size'') = Inr ()" "wire_i64 (EHas ''size'')"
    by (simp_all add: validate_filter_def MAX_DEPTH_def MAX_LEAVES_def named_column_def wire_i64_def)
  moreover have "check_filter size_scope [] (Some (EHas ''size'')) = Inr ()" by (simp add: usable filter_columns_def)
  moreover have "resolve_filter sample_tables (EHas ''size'') = Some (Inr (RLeaf (RHas None None None None None)))"
    by (simp add: sample_tables_def)
  ultimately show ?thesis
    using filter_noninterference [of "EHas ''size''" size_scope sample_tables sample_columns sample_tables sample_columns] sample_tables_ok
    by blast
qed

section \<open>What an answer discloses\<close>

definition hit_permitted :: "field_scope \<Rightarrow> bm25_hit \<Rightarrow> bool" where
  "hit_permitted scope hit =
     ((\<forall>t \<in> set (bh_terms hit). can_disclose scope (term_field (fst t))) \<and>
      (\<forall>s \<in> set (bh_snippets hit). can_disclose scope (fst s)) \<and>
      (\<forall>names columns. bh_explain hit = Some (names, columns) \<longrightarrow> (\<forall>f \<in> set names \<union> set columns. can_disclose scope f)) \<and>
      (bh_identity hit \<noteq> None \<longrightarrow> disclose_identity scope))"

text \<open>The ranking and the payloads a hit keeps.\<close>

definition clean_hit :: "field_scope \<Rightarrow> bm25_hit \<Rightarrow> bm25_hit" where
  "clean_hit scope hit =
     hit\<lparr>bh_terms := filter (\<lambda>t. can_disclose scope (term_field (fst t))) (bh_terms hit),
         bh_identity := (if disclose_identity scope then bh_identity hit else None)\<rparr>"

lemma filter_neq: "filter P xs \<noteq> xs \<longleftrightarrow> list_ex (\<lambda>x. \<not> P x) xs"
  by (auto simp: list_ex_iff filter_id_conv)

lemma clean_hit_neq:
  "clean_hit scope hit \<noteq> hit \<longleftrightarrow>
     list_ex (\<lambda>t. \<not> can_disclose scope (term_field (fst t))) (bh_terms hit) \<or> \<not> disclose_identity scope \<and> bh_identity hit \<noteq> None"
  unfolding filter_neq [symmetric] by (cases hit; cases "bh_identity hit") (auto simp: clean_hit_def)

lemma disclose_hit_clean:
  assumes "disclose_hit scope hit redacted = Inr (hit', redacted')"
  shows "hit' = clean_hit scope hit" "redacted' \<longleftrightarrow> redacted \<or> clean_hit scope hit \<noteq> hit" "hit_permitted scope hit'"
proof -
  show "hit' = clean_hit scope hit" "redacted' \<longleftrightarrow> redacted \<or> clean_hit scope hit \<noteq> hit"
    using assms unfolding clean_hit_neq
    by (auto simp: disclose_hit_def retain_def bind_result_eq_Inr clean_hit_def split: if_splits)
  then show "hit_permitted scope hit'"
    using assms by (auto simp: disclose_hit_def retain_def bind_result_eq_Inr clean_hit_def hit_permitted_def
        split: if_splits option.splits)
qed

lemma disclose_hits:
  assumes "fold_result (\<lambda>hit (hits, redacted).
      bind_result (disclose_hit scope hit redacted) (\<lambda>(hit, redacted). Inr (hits @ [hit], redacted))) hits ([], False) = Inr r"
  shows "r = (map (clean_hit scope) hits, \<exists>h \<in> set hits. clean_hit scope h \<noteq> h) \<and> list_all (hit_permitted scope) (fst r)"
  using assms
  by (rule fold_result_rule) (auto simp: bind_result_eq_Inr dest: disclose_hit_clean)

lemma map_neq: "map f xs \<noteq> xs \<longleftrightarrow> (\<exists>x \<in> set xs. f x \<noteq> x)"
  by (induction xs) auto

lemma disclose_facts:
  assumes "disclose scope response = Inr response'"
  shows "(\<forall>h \<in> set (rs_hits response'). hit_permitted scope h) \<and>
    (\<forall>e \<in> set (rs_synonym_expansions response'). can_disclose scope (fst e)) \<and>
    (\<forall>p \<in> set (rs_phrase_routing response'). can_disclose scope (fst p) \<and> can_disclose scope (snd p))"
    "map (\<lambda>h. (bh_doc_id h, bh_score h)) (rs_hits response') = map (\<lambda>h. (bh_doc_id h, bh_score h)) (rs_hits response)"
    "rs_redacted response' \<longleftrightarrow> response'\<lparr>rs_redacted := False\<rparr> \<noteq> response\<lparr>rs_redacted := False\<rparr>"
proof -
  let ?hits = "map (clean_hit scope) (rs_hits response)"
  let ?syn = "filter (\<lambda>e. can_disclose scope (fst e)) (rs_synonym_expansions response)"
  let ?route = "filter (\<lambda>p. can_disclose scope (fst p) \<and> can_disclose scope (snd p)) (rs_phrase_routing response)"
  obtain r where r: "r = (?hits, \<exists>h \<in> set (rs_hits response). clean_hit scope h \<noteq> h)" "list_all (hit_permitted scope) (fst r)"
    and eq: "response' = response\<lparr>rs_hits := fst r, rs_synonym_expansions := ?syn, rs_phrase_routing := ?route,
      rs_redacted := (snd r \<or> ?syn \<noteq> rs_synonym_expansions response \<or> ?route \<noteq> rs_phrase_routing response)\<rparr>"
    using assms disclose_hits [of scope "rs_hits response"]
    unfolding filter_neq by (auto simp: disclose_def bind_result_eq_Inr retain_def split_beta)
  show "(\<forall>h \<in> set (rs_hits response'). hit_permitted scope h) \<and>
    (\<forall>e \<in> set (rs_synonym_expansions response'). can_disclose scope (fst e)) \<and>
    (\<forall>p \<in> set (rs_phrase_routing response'). can_disclose scope (fst p) \<and> can_disclose scope (snd p))"
    using r(2) unfolding eq by (auto simp: list_all_iff)
  show "map (\<lambda>h. (bh_doc_id h, bh_score h)) (rs_hits response') = map (\<lambda>h. (bh_doc_id h, bh_score h)) (rs_hits response)"
    unfolding eq r(1) by (simp add: clean_hit_def)
  show "rs_redacted response' \<longleftrightarrow> response'\<lparr>rs_redacted := False\<rparr> \<noteq> response\<lparr>rs_redacted := False\<rparr>"
    unfolding eq r(1) using map_neq [of "clean_hit scope" "rs_hits response"] by (cases response) auto
qed


definition sample_response :: bm25_response where
  "sample_response =
     \<lparr>rs_hits = [\<lparr>bh_doc_id = 7, bh_score = 0, bh_terms = [(''title'', ''a''), (''lang'', ''b'')], bh_snippets = [], bh_explain = None,
                  bh_identity = Some [1]\<rparr>],
      rs_phrase_routing = [], rs_synonym_expansions = [(''title'', [])], rs_redacted = False\<rparr>"


end
