(* ===== verification/Authorization.thy ===== *)
theory Authorization
  imports Visibility Field_Scope
begin

text \<open>
  Collection capabilities at the public boundary (\<open>src/authorization.rs\<close>): validation of a
  policy snapshot, its decisions, the epochs of the in-process authority with their admission
  counters, permits held across asynchronous work, and streams that stop at a revocation.
\<close>

section \<open>Policies\<close>

datatype access_action = ActUnspecified | ActSearch | ActIngest | ActAdmin

definition action_number :: "access_action \<Rightarrow> int" where
  "action_number a = (case a of ActUnspecified \<Rightarrow> 0 | ActSearch \<Rightarrow> 1 | ActIngest \<Rightarrow> 2 | ActAdmin \<Rightarrow> 3)"

definition action_try_from :: "int \<Rightarrow> access_action option" where
  "action_try_from n =
     (if n = 0 then Some ActUnspecified else if n = 1 then Some ActSearch else if n = 2 then Some ActIngest
      else if n = 3 then Some ActAdmin else None)"

record collection_resource =
  cr_workspace :: string
  cr_collection :: string

record collection_grant =
  cg_principal :: string
  cg_workspace :: string
  cg_collection :: string
  cg_actions :: "int list"
  cg_visibility :: "document_visibility option"
  cg_fields :: "field_permissions option"

record access_policy =
  ap_revision :: u64
  ap_resources :: "collection_resource list"
  ap_grants :: "collection_grant list"
  ap_format_version :: u32

record access_decision =
  ad_policy_revision :: u64
  ad_principal :: string
  ad_workspace :: string
  ad_collection :: string
  ad_action :: int
  ad_visibility :: "document_visibility option"
  ad_fields :: "field_permissions option"

type_synonym grant_key = "string \<times> string"

record policy =
  pol_revision :: u64
  pol_resources :: "string \<Rightarrow> string option"
  pol_grants :: "grant_key \<Rightarrow> int set option"
  pol_views :: "grant_key \<Rightarrow> document_visibility option"
  pol_fields :: "grant_key \<Rightarrow> field_permissions option"

definition name_char_ok :: "char \<Rightarrow> bool" where
  "name_char_ok c =
     (let n = (of_char c :: nat) in
      33 \<le> n \<and> n \<le> 126 \<and> c \<notin> {CHR ''/'', CHR 0x5C, CHR '':'', CHR 0x22, CHR 0x27})"

definition validate_name :: "string \<Rightarrow> string + unit" where
  "validate_name name =
     (if name = [] then Inl ''collection name is empty''
      else if 128 < length name then Inl ''collection name {name:?} is longer than 128 bytes''
      else if \<not> list_all name_char_ok name
      then Inl ''collection name {name:?} contains {bad:?}; names are printable ASCII without whitespace, quotes, colons, or slashes''
      else Inr ())"

definition add_resource :: "collection_resource \<Rightarrow> (string \<Rightarrow> string option) \<Rightarrow> string + (string \<Rightarrow> string option)" where
  "add_resource r resources =
     (if cr_workspace r = [] then Inl ''access policy workspace must be nonempty''
      else
        bind_result (validate_name (cr_workspace r)) (\<lambda>_.
        bind_result (if cr_collection r \<noteq> [] then validate_name (cr_collection r) else Inr ()) (\<lambda>_.
        if resources (cr_collection r) \<noteq> None then Inl ''access policy repeats a collection binding''
        else Inr (resources(cr_collection r \<mapsto> cr_workspace r)))))"

definition add_access_action :: "int \<Rightarrow> int set \<Rightarrow> string + int set" where
  "add_access_action a actions =
     (case action_try_from a of
        Some ActSearch \<Rightarrow> if a \<in> actions then Inl ''access grant repeats an action'' else Inr (insert a actions)
      | Some ActIngest \<Rightarrow> if a \<in> actions then Inl ''access grant repeats an action'' else Inr (insert a actions)
      | Some ActAdmin \<Rightarrow> if a \<in> actions then Inl ''access grant repeats an action'' else Inr (insert a actions)
      | _ \<Rightarrow> Inl ''unknown access action {action}'')"

type_synonym canonical = "document_visibility \<Rightarrow> bytes result"

definition add_view :: "canonical \<Rightarrow> u32 \<Rightarrow> int set \<Rightarrow> collection_grant \<Rightarrow> policy \<Rightarrow> string + policy" where
  "add_view canon version actions g p =
     (case cg_visibility g of
        None \<Rightarrow> Inr p
      | Some view \<Rightarrow>
          if version < 2 then Inl ''document visibility requires access policy format 2''
          else if 1 \<notin> actions then Inl ''document visibility requires an explicit search action''
          else
            (case visibility_new canon (Some view) of
               Inl _ \<Rightarrow> Inl ''invalid document grant: {}''
             | Inr _ \<Rightarrow> Inr (p\<lparr>pol_views := (pol_views p)((cg_principal g, cg_collection g) \<mapsto> view)\<rparr>)))"

definition add_fields :: "u32 \<Rightarrow> int set \<Rightarrow> collection_grant \<Rightarrow> policy \<Rightarrow> string + policy" where
  "add_fields version actions g p =
     (case cg_fields g of
        None \<Rightarrow> Inr p
      | Some permissions \<Rightarrow>
          if version \<noteq> 3 then Inl ''field permissions require access policy format 3''
          else if 1 \<notin> actions then Inl ''field permissions require an explicit search action''
          else
            bind_result (field_scope_new permissions) (\<lambda>_.
            Inr (p\<lparr>pol_fields := (pol_fields p)((cg_principal g, cg_collection g) \<mapsto> permissions)\<rparr>)))"

definition add_collection_grant :: "canonical \<Rightarrow> u32 \<Rightarrow> collection_grant \<Rightarrow> policy \<Rightarrow> string + policy" where
  "add_collection_grant canon version g p =
     (if cg_principal g = [] then Inl ''access grant principal must be nonempty''
      else if pol_resources p (cg_collection g) \<noteq> Some (cg_workspace g)
      then Inl ''access grant does not match a workspace/collection binding''
      else if cg_actions g = [] then Inl ''access grant must name at least one action''
      else
        bind_result (fold_result add_access_action (cg_actions g) {}) (\<lambda>actions.
        bind_result (add_view canon version actions g p) (\<lambda>p.
        bind_result (add_fields version actions g p) (\<lambda>p.
        if pol_grants p (cg_principal g, cg_collection g) \<noteq> None
        then Inl ''access policy repeats a principal/collection grant''
        else Inr (p\<lparr>pol_grants := (pol_grants p)((cg_principal g, cg_collection g) \<mapsto> actions)\<rparr>)))))"

definition policy_validate :: "canonical \<Rightarrow> access_policy \<Rightarrow> string + policy" where
  "policy_validate canon input =
     (if ap_format_version input \<notin> {1, 2, 3} then Inl ''unsupported access policy format_version {}; expected 1, 2 or 3''
      else if ap_revision input = 0 then Inl ''access policy revision must be nonzero''
      else
        bind_result (fold_result add_resource (ap_resources input) Map.empty) (\<lambda>resources.
        fold_result (add_collection_grant canon (ap_format_version input)) (ap_grants input)
          \<lparr>pol_revision = ap_revision input, pol_resources = resources, pol_grants = Map.empty,
           pol_views = Map.empty, pol_fields = Map.empty\<rparr>))"

text \<open>\<open>resources[collection]\<close> panics on a missing binding.\<close>

definition policy_authorize :: "policy \<Rightarrow> string \<Rightarrow> string \<Rightarrow> access_action \<Rightarrow> access_decision result option" where
  "policy_authorize p who collection action =
     (if \<not> (case pol_grants p (who, collection) of None \<Rightarrow> False | Some actions \<Rightarrow> action_number action \<in> actions)
      then Some (Inl (PermissionDenied, ''operation is not authorized for this collection''))
      else
        Option.bind (pol_resources p collection) (\<lambda>workspace.
        Some (Inr
          \<lparr>ad_policy_revision = pol_revision p, ad_principal = who, ad_workspace = workspace,
           ad_collection = collection, ad_action = action_number action,
           ad_visibility = (if action = ActSearch then pol_views p (who, collection) else None),
           ad_fields = (if action = ActSearch then pol_fields p (who, collection) else None)\<rparr>)))"

definition authorize_policy_snapshot ::
  "canonical \<Rightarrow> access_policy \<Rightarrow> string \<Rightarrow> string \<Rightarrow> access_action \<Rightarrow> access_decision result option" where
  "authorize_policy_snapshot canon input who collection action =
     (case policy_validate canon input of
        Inl _ \<Rightarrow> Some (Inl (DataLoss, ''committed control policy: {error}''))
      | Inr p \<Rightarrow> policy_authorize p who collection action)"

section \<open>The in-process authority\<close>

text \<open>
  Epochs by number, the newest published one being \<open>current\<close>; each with its policy and its
  admission counter. \<open>draining\<close> is the epoch a replacement waits for while it holds the
  replacement lock. The guards alive are listed with the epoch that admitted them.
\<close>

record authority =
  au_policy :: "nat \<Rightarrow> policy"
  au_active :: "nat \<Rightarrow> nat"
  au_current :: nat
  au_draining :: "nat option"
  au_revision :: u64
  au_guards :: "(nat \<times> access_decision) list"

definition USIZE_MAX :: nat where "USIZE_MAX = 2 ^ 64 - 1"

definition authority_new :: "canonical \<Rightarrow> access_policy \<Rightarrow> string + authority" where
  "authority_new canon input =
     bind_result (policy_validate canon input) (\<lambda>p.
     Inr \<lparr>au_policy = (\<lambda>_. p), au_active = (\<lambda>_. 0), au_current = 0, au_draining = None,
          au_revision = pol_revision p, au_guards = []\<rparr>)"

text \<open>\<open>replace\<close> up to the wait: validation, the lock, the revision check, publication.\<close>

definition replace_publish :: "canonical \<Rightarrow> access_policy \<Rightarrow> authority \<Rightarrow> string + authority" where
  "replace_publish canon input au =
     bind_result (policy_validate canon input) (\<lambda>p.
     if pol_revision p \<le> pol_revision (au_policy au (au_current au)) then Inl ''access policy revision must increase''
     else
       let n = au_current au + 1 in
       Inr (au\<lparr>au_policy := (au_policy au)(n := p), au_active := (au_active au)(n := 0), au_current := n,
               au_draining := Some (au_current au), au_revision := pol_revision p\<rparr>))"

text \<open>\<open>wait_drained\<close> returns when the old epoch's counter is zero.\<close>

definition drained :: "authority \<Rightarrow> bool" where
  "drained au = (case au_draining au of None \<Rightarrow> True | Some e \<Rightarrow> au_active au e = 0)"

definition authorize :: "authority \<Rightarrow> string \<Rightarrow> string \<Rightarrow> access_action \<Rightarrow> access_decision result option" where
  "authorize au = policy_authorize (au_policy au (au_current au))"

definition policy_changed :: status where
  "policy_changed = (PermissionDenied, ''access policy changed; start a new operation'')"

definition pin :: "access_decision \<Rightarrow> authority \<Rightarrow> (status + authority) option" where
  "pin expected au =
     (case action_try_from (ad_action expected) of
        None \<Rightarrow> Some (Inl (PermissionDenied, ''invalid authorization action''))
      | Some action \<Rightarrow>
          (case authorize au (ad_principal expected) (ad_collection expected) action of
             None \<Rightarrow> None
           | Some (Inl e) \<Rightarrow> Some (Inl e)
           | Some (Inr decision) \<Rightarrow>
               if decision \<noteq> expected then Some (Inl policy_changed)
               else if au_active au (au_current au) = USIZE_MAX
               then Some (Inl (ResourceExhausted, ''authorization admission count exhausted''))
               else Some (Inr (au\<lparr>au_active := (au_active au)(au_current au := au_active au (au_current au) + 1),
                                  au_guards := (au_current au, decision) # au_guards au\<rparr>))))"

text \<open>Dropping a guard; \<open>checked_sub\<close> with \<open>expect\<close> is a panic.\<close>

definition drop_guard :: "nat \<times> access_decision \<Rightarrow> authority \<Rightarrow> authority option" where
  "drop_guard g au =
     (if au_active au (fst g) = 0 then None
      else Some (au\<lparr>au_active := (au_active au)(fst g := au_active au (fst g) - 1), au_guards := remove1 g (au_guards au)\<rparr>))"

text \<open>
  The interleavings: publication and completion of a replacement (one at a time, the lock is
  held in between), admissions, and drops of live guards.
\<close>

inductive auth_step :: "canonical \<Rightarrow> authority \<Rightarrow> authority \<Rightarrow> bool" for canon where
  publish: "au_draining au = None \<Longrightarrow> replace_publish canon input au = Inr au' \<Longrightarrow> auth_step canon au au'"
| finish: "au_draining au \<noteq> None \<Longrightarrow> drained au \<Longrightarrow> auth_step canon au (au\<lparr>au_draining := None\<rparr>)"
| admit: "pin expected au = Some (Inr au') \<Longrightarrow> auth_step canon au au'"
| release: "g \<in> set (au_guards au) \<Longrightarrow> drop_guard g au = Some au' \<Longrightarrow> auth_step canon au au'"

inductive auth_reach :: "canonical \<Rightarrow> authority \<Rightarrow> bool" for canon where
  start: "authority_new canon input = Inr au \<Longrightarrow> auth_reach canon au"
| step: "auth_reach canon au \<Longrightarrow> auth_step canon au au' \<Longrightarrow> auth_reach canon au'"

inductive_cases auth_stepE: "auth_step canon au au'"

section \<open>Permits and streams\<close>

text \<open>A permit is its decision; the watched revision and the authority are the state.\<close>

definition permit_check :: "access_decision \<Rightarrow> authority \<Rightarrow> unit result option" where
  "permit_check decision au =
     (if au_revision au \<noteq> ad_policy_revision decision then Some (Inl policy_changed)
      else
        (case action_try_from (ad_action decision) of
           None \<Rightarrow> Some (Inl (PermissionDenied, ''invalid authorization action''))
         | Some action \<Rightarrow>
             (case authorize au (ad_principal decision) (ad_collection decision) action of
                None \<Rightarrow> None
              | Some (Inl e) \<Rightarrow> Some (Inl e)
              | Some (Inr now) \<Rightarrow>
                  if now \<noteq> decision \<or> au_revision au \<noteq> ad_policy_revision decision then Some (Inl policy_changed)
                  else Some (Inr ()))))"

definition permit_acquire :: "canonical \<Rightarrow> string \<Rightarrow> string \<Rightarrow> access_action \<Rightarrow> authority \<Rightarrow> access_decision result option" where
  "permit_acquire canon who collection action au =
     (case authorize au who collection action of
        None \<Rightarrow> None
      | Some (Inl e) \<Rightarrow> Some (Inl e)
      | Some (Inr d) \<Rightarrow>
          if ad_principal d \<noteq> who \<or> ad_collection d \<noteq> collection \<or> ad_action d \<noteq> action_number action \<or>
             ad_workspace d = [] \<or> ad_policy_revision d = 0
          then Some (Inl (PermissionDenied, ''invalid authorization decision''))
          else if ad_visibility d \<noteq> None \<and> action \<noteq> ActSearch
          then Some (Inl (PermissionDenied, ''document visibility requires a search decision''))
          else if ad_visibility d \<noteq> None \<and> isl (visibility_new canon (ad_visibility d))
          then Some (Inl (PermissionDenied, ''invalid document visibility decision''))
          else if ad_fields d \<noteq> None \<and> action \<noteq> ActSearch
          then Some (Inl (PermissionDenied, ''field permissions require a search decision''))
          else if (case ad_fields d of None \<Rightarrow> False | Some f \<Rightarrow> isl (field_scope_new f))
          then Some (Inl (PermissionDenied, ''invalid field permission decision''))
          else map_option (\<lambda>r. bind_result r (\<lambda>_. Inr d)) (permit_check d au))"

text \<open>\<open>AccessPermit::pin\<close>: the watched revision is read before and after the provider's pin.\<close>

definition permit_pin :: "access_decision \<Rightarrow> authority \<Rightarrow> (status + authority) option" where
  "permit_pin decision au =
     (if au_revision au \<noteq> ad_policy_revision decision then Some (Inl policy_changed)
      else pin decision au)"

text \<open>
  One poll of a guarded stream. The producer may run while the policy is replaced, so the
  checks before and after it see two states of the authority. A refused poll drops the
  producer.
\<close>

datatype 'a polled = Pending | Item 'a | Refused status | Ended

fun all_checks :: "access_decision list \<Rightarrow> authority \<Rightarrow> unit result option" where
  "all_checks [] au = Some (Inr ())"
| "all_checks (d # ds) au =
     (case permit_check d au of
        None \<Rightarrow> None
      | Some (Inl e) \<Rightarrow> Some (Inl e)
      | Some (Inr _) \<Rightarrow> all_checks ds au)"

definition poll_next ::
  "access_decision list \<Rightarrow> bool \<Rightarrow> authority \<Rightarrow> 'a polled \<Rightarrow> authority \<Rightarrow> (bool \<times> 'a polled) option" where
  "poll_next permits alive before produced after =
     (if \<not> alive then Some (False, Ended)
      else
        (case all_checks permits before of
           None \<Rightarrow> None
         | Some (Inl e) \<Rightarrow> Some (False, Refused e)
         | Some (Inr _) \<Rightarrow>
             (case produced of
                Pending \<Rightarrow> Some (True, Pending)
              | Ended \<Rightarrow> Some (False, Ended)
              | item \<Rightarrow>
                  (case all_checks permits after of
                     None \<Rightarrow> None
                   | Some (Inl e) \<Rightarrow> Some (False, Refused e)
                   | Some (Inr _) \<Rightarrow> Some (True, item)))))"

section \<open>Decisions follow the grants\<close>

definition grant_key_of :: "collection_grant \<Rightarrow> grant_key" where
  "grant_key_of g = (cg_principal g, cg_collection g)"

definition policy_ok :: "collection_grant list \<Rightarrow> policy \<Rightarrow> bool" where
  "policy_ok gs p =
     (\<forall>k. case pol_grants p k of
            None \<Rightarrow> k \<notin> grant_key_of ` set gs \<and> pol_views p k = None \<and> pol_fields p k = None
          | Some actions \<Rightarrow>
              (\<exists>g \<in> set gs. grant_key_of g = k \<and> (\<forall>h \<in> set gs. grant_key_of h = k \<longrightarrow> h = g) \<and>
                 actions = set (cg_actions g) \<and> pol_resources p (snd k) = Some (cg_workspace g) \<and>
                 pol_views p k = cg_visibility g \<and> pol_fields p k = cg_fields g))"

lemma add_access_actions: "fold_result add_access_action as {} = Inr actions \<Longrightarrow> actions = set as"
  by (erule fold_result_rule) (auto simp: add_access_action_def split: option.splits access_action.splits if_splits)

lemma add_collection_grant_cases:
  assumes "add_collection_grant canon version g p = Inr p'"
  shows "pol_grants p (grant_key_of g) = None" "pol_resources p (cg_collection g) = Some (cg_workspace g)"
    "p' = p\<lparr>pol_grants := (pol_grants p)(grant_key_of g \<mapsto> set (cg_actions g)),
          pol_views := (case cg_visibility g of None \<Rightarrow> pol_views p | Some v \<Rightarrow> (pol_views p)(grant_key_of g \<mapsto> v)),
          pol_fields := (case cg_fields g of None \<Rightarrow> pol_fields p | Some f \<Rightarrow> (pol_fields p)(grant_key_of g \<mapsto> f))\<rparr>"
proof -
  obtain actions p1 p2 where p:
    "pol_resources p (cg_collection g) = Some (cg_workspace g)" "fold_result add_access_action (cg_actions g) {} = Inr actions"
    "add_view canon version actions g p = Inr p1" "add_fields version actions g p1 = Inr p2"
    "pol_grants p2 (grant_key_of g) = None" "p' = p2\<lparr>pol_grants := (pol_grants p2)(grant_key_of g \<mapsto> actions)\<rparr>"
    using assms by (auto simp: add_collection_grant_def bind_result_eq_Inr grant_key_of_def split: if_splits)
  have p1: "p1 = p\<lparr>pol_views := (case cg_visibility g of None \<Rightarrow> pol_views p | Some v \<Rightarrow> (pol_views p)(grant_key_of g \<mapsto> v))\<rparr>"
    using p(3) by (auto simp: add_view_def grant_key_of_def split: option.splits if_splits sum.splits)
  have p2: "p2 = p1\<lparr>pol_fields := (case cg_fields g of None \<Rightarrow> pol_fields p1 | Some f \<Rightarrow> (pol_fields p1)(grant_key_of g \<mapsto> f))\<rparr>"
    using p(4) by (auto simp: add_fields_def grant_key_of_def bind_result_eq_Inr split: option.splits if_splits)
  show "pol_grants p (grant_key_of g) = None" "pol_resources p (cg_collection g) = Some (cg_workspace g)"
    "p' = p\<lparr>pol_grants := (pol_grants p)(grant_key_of g \<mapsto> set (cg_actions g)),
          pol_views := (case cg_visibility g of None \<Rightarrow> pol_views p | Some v \<Rightarrow> (pol_views p)(grant_key_of g \<mapsto> v)),
          pol_fields := (case cg_fields g of None \<Rightarrow> pol_fields p | Some f \<Rightarrow> (pol_fields p)(grant_key_of g \<mapsto> f))\<rparr>"
    using p(1,5,6) add_access_actions [OF p(2)] unfolding p2 p1 by (simp_all split: option.splits)
qed

lemma add_collection_grant_ok:
  assumes "policy_ok gs p" "add_collection_grant canon version g p = Inr p'"
  shows "policy_ok (gs @ [g]) p'"
proof -
  let ?k = "grant_key_of g"
  note g = add_collection_grant_cases [OF assms(2)]
  have new: "?k \<notin> grant_key_of ` set gs" and none: "pol_views p ?k = None" "pol_fields p ?k = None"
    using spec [OF assms(1) [unfolded policy_ok_def], of ?k] g(1) by simp_all
  have key: "snd ?k = cg_collection g" by (simp add: grant_key_of_def)
  show ?thesis
    unfolding policy_ok_def
  proof
    fix k
    show "case pol_grants p' k of
        None \<Rightarrow> k \<notin> grant_key_of ` set (gs @ [g]) \<and> pol_views p' k = None \<and> pol_fields p' k = None
      | Some actions \<Rightarrow>
          (\<exists>h \<in> set (gs @ [g]). grant_key_of h = k \<and> (\<forall>i \<in> set (gs @ [g]). grant_key_of i = k \<longrightarrow> i = h) \<and>
             actions = set (cg_actions h) \<and> pol_resources p' (snd k) = Some (cg_workspace h) \<and>
             pol_views p' k = cg_visibility h \<and> pol_fields p' k = cg_fields h)"
    proof (cases "k = ?k")
      case True
      have "pol_views p' ?k = cg_visibility g" "pol_fields p' ?k = cg_fields g" "pol_resources p' (snd ?k) = Some (cg_workspace g)"
        "pol_grants p' ?k = Some (set (cg_actions g))"
        using none g(2) key unfolding g(3) by (simp_all split: option.splits)
      with True new show ?thesis by (auto simp: image_iff)
    next
      case False
      then have "pol_views p' k = pol_views p k" "pol_fields p' k = pol_fields p k" "pol_resources p' = pol_resources p"
        "pol_grants p' k = pol_grants p k"
        unfolding g(3) by (simp_all split: option.splits)
      with False spec [OF assms(1) [unfolded policy_ok_def], of k] show ?thesis
        by (cases "pol_grants p k") auto
    qed
  qed
qed

lemma policy_validate_ok:
  assumes "policy_validate canon input = Inr p"
  shows "policy_ok (ap_grants input) p" "pol_revision p = ap_revision input"
proof -
  obtain resources where
    "fold_result (add_collection_grant canon (ap_format_version input)) (ap_grants input)
       \<lparr>pol_revision = ap_revision input, pol_resources = resources, pol_grants = Map.empty, pol_views = Map.empty, pol_fields = Map.empty\<rparr> = Inr p"
    using assms by (auto simp: policy_validate_def bind_result_eq_Inr split: if_splits)
  then have "policy_ok (ap_grants input) p \<and> pol_revision p = ap_revision input"
    by (rule fold_result_rule) (auto simp: policy_ok_def [of "[]"] intro: add_collection_grant_ok dest: add_collection_grant_cases(3))
  then show "policy_ok (ap_grants input) p" "pol_revision p = ap_revision input" by simp_all
qed

text \<open>
  C15: under a validated policy every request is decided, and it is allowed exactly when some
  grant of the snapshot names that principal, that collection and that action; the decision
  carries that grant's workspace and, for a search only, its document view and field
  permissions.
\<close>

theorem policy_decision_exact:
  assumes "policy_validate canon input = Inr p"
  shows "case policy_authorize p who collection action of
      None \<Rightarrow> False
    | Some (Inl e) \<Rightarrow>
        e = (PermissionDenied, ''operation is not authorized for this collection'') \<and>
        \<not> (\<exists>g \<in> set (ap_grants input). cg_principal g = who \<and> cg_collection g = collection \<and> action_number action \<in> set (cg_actions g))
    | Some (Inr d) \<Rightarrow>
        (\<exists>g \<in> set (ap_grants input). cg_principal g = who \<and> cg_collection g = collection \<and> action_number action \<in> set (cg_actions g) \<and>
           d = \<lparr>ad_policy_revision = ap_revision input, ad_principal = who, ad_workspace = cg_workspace g, ad_collection = collection,
                ad_action = action_number action, ad_visibility = (if action = ActSearch then cg_visibility g else None),
                ad_fields = (if action = ActSearch then cg_fields g else None)\<rparr>)"
proof -
  note p = policy_validate_ok [OF assms]
  note k = spec [OF p(1) [unfolded policy_ok_def], of "(who, collection)"]
  show ?thesis
  proof (cases "pol_grants p (who, collection)")
    case None
    then have refused: "policy_authorize p who collection action = Some (Inl (PermissionDenied, ''operation is not authorized for this collection''))"
      by (simp add: policy_authorize_def)
    have "(who, collection) \<notin> grant_key_of ` set (ap_grants input)" using k None by simp
    then have "\<not> (\<exists>h \<in> set (ap_grants input). cg_principal h = who \<and> cg_collection h = collection \<and>
        action_number action \<in> set (cg_actions h))"
      by (auto simp: grant_key_of_def)
    then show ?thesis unfolding refused option.case sum.case by (intro conjI refl)
  next
    case (Some actions)
    note grant = k [unfolded Some option.case]
    obtain g where g: "g \<in> set (ap_grants input)" "grant_key_of g = (who, collection)"
      "\<And>h. h \<in> set (ap_grants input) \<Longrightarrow> grant_key_of h = (who, collection) \<Longrightarrow> h = g"
      "actions = set (cg_actions g)" "pol_resources p collection = Some (cg_workspace g)"
      "pol_views p (who, collection) = cg_visibility g" "pol_fields p (who, collection) = cg_fields g"
      using grant [unfolded snd_conv] by blast
    have key: "cg_principal g = who" "cg_collection g = collection" using g(2) by (simp_all add: grant_key_of_def)
    show ?thesis
    proof (cases "action_number action \<in> set (cg_actions g)")
      case True
      have allowed: "policy_authorize p who collection action = Some (Inr \<lparr>ad_policy_revision = ap_revision input, ad_principal = who,
          ad_workspace = cg_workspace g, ad_collection = collection, ad_action = action_number action,
          ad_visibility = (if action = ActSearch then cg_visibility g else None),
          ad_fields = (if action = ActSearch then cg_fields g else None)\<rparr>)"
        unfolding policy_authorize_def Some p(2) using True g(4-7) by simp
      show ?thesis unfolding allowed option.case sum.case by (intro bexI [OF _ g(1)] conjI key True refl)
    next
      case False
      then have refused: "policy_authorize p who collection action = Some (Inl (PermissionDenied, ''operation is not authorized for this collection''))"
        unfolding policy_authorize_def Some using g(4) by simp
      have "\<not> (\<exists>h \<in> set (ap_grants input). cg_principal h = who \<and> cg_collection h = collection \<and>
          action_number action \<in> set (cg_actions h))"
        using False g(3) by (auto simp: grant_key_of_def)
      then show ?thesis unfolding refused option.case sum.case by (intro conjI refl)
    qed
  qed
qed

definition sample_policy :: access_policy where
  "sample_policy =
     \<lparr>ap_revision = 1, ap_resources = [\<lparr>cr_workspace = ''w'', cr_collection = ''books''\<rparr>],
      ap_grants = [\<lparr>cg_principal = ''reader'', cg_workspace = ''w'', cg_collection = ''books'', cg_actions = [1],
                    cg_visibility = None, cg_fields = None\<rparr>], ap_format_version = 1\<rparr>"

lemma sample_policy_valid:
  "policy_validate canon sample_policy =
     Inr \<lparr>pol_revision = 1, pol_resources = [''books'' \<mapsto> ''w''], pol_grants = [(''reader'', ''books'') \<mapsto> {1}],
          pol_views = Map.empty, pol_fields = Map.empty\<rparr>"
  by (simp add: policy_validate_def sample_policy_def add_resource_def validate_name_def name_char_ok_def add_collection_grant_def
      add_access_action_def action_try_from_def add_view_def add_fields_def)

theorem policy_decision_exact_witness:
  "\<exists>p. policy_validate (\<lambda>_. Inr []) sample_policy = Inr p \<and>
     (\<exists>d. policy_authorize p ''reader'' ''books'' ActSearch = Some (Inr d)) \<and>
     (\<forall>d. policy_authorize p ''reader'' ''books'' ActIngest \<noteq> Some (Inr d))"
proof -
  let ?p = "\<lparr>pol_revision = 1, pol_resources = [''books'' \<mapsto> ''w''], pol_grants = [(''reader'', ''books'') \<mapsto> {1}],
          pol_views = Map.empty, pol_fields = Map.empty\<rparr>"
  have "\<exists>d. policy_authorize ?p ''reader'' ''books'' ActSearch = Some (Inr d)"
    by (simp add: policy_authorize_def action_number_def)
  moreover have "policy_authorize ?p ''reader'' ''books'' ActIngest \<noteq> Some (Inr d)" for d
    using policy_decision_exact [OF sample_policy_valid [of "\<lambda>_. Inr []"], of "''reader''" "''books''" ActIngest]
    by (auto simp: sample_policy_def action_number_def)
  ultimately show ?thesis using sample_policy_valid by blast
qed

section \<open>Replacement drains\<close>

definition auth_inv :: "authority \<Rightarrow> bool" where
  "auth_inv au =
     ((\<forall>e \<le> au_current au. au_active au e = length (filter (\<lambda>g. fst g = e) (au_guards au))) \<and>
      (\<forall>g \<in> set (au_guards au). fst g = au_current au \<or> au_draining au = Some (fst g)) \<and>
      (\<forall>e. au_draining au = Some e \<longrightarrow> e < au_current au) \<and>
      (\<forall>g \<in> set (au_guards au). \<exists>a. action_try_from (ad_action (snd g)) = Some a \<and>
         policy_authorize (au_policy au (fst g)) (ad_principal (snd g)) (ad_collection (snd g)) a = Some (Inr (snd g))) \<and>
      au_revision au = pol_revision (au_policy au (au_current au)))"

lemma guard_epoch_bound: "auth_inv au \<Longrightarrow> g \<in> set (au_guards au) \<Longrightarrow> fst g \<le> au_current au"
  unfolding auth_inv_def by (metis less_imp_le order_refl)

lemma auth_inv_new: "authority_new canon input = Inr au \<Longrightarrow> auth_inv au"
  by (auto simp: authority_new_def bind_result_eq_Inr auth_inv_def)

lemma auth_inv_publish:
  assumes "auth_inv au" "au_draining au = None" "replace_publish canon input au = Inr au'"
  shows "auth_inv au'"
proof -
  let ?n = "au_current au + 1"
  obtain p where au': "au' = au\<lparr>au_policy := (au_policy au)(?n := p), au_active := (au_active au)(?n := 0), au_current := ?n,
      au_draining := Some (au_current au), au_revision := pol_revision p\<rparr>"
    using assms(3) by (auto simp: replace_publish_def bind_result_eq_Inr Let_def split: if_splits)
  have cur: "fst g = au_current au" if "g \<in> set (au_guards au)" for g
    using assms(1,2) that by (auto simp: auth_inv_def)
  then have "filter (\<lambda>g. fst g = ?n) (au_guards au) = []" by (auto simp: filter_empty_conv)
  then show ?thesis
    using assms(1) cur unfolding au' auth_inv_def by (auto simp: le_Suc_eq)
qed

lemma auth_inv_finish:
  assumes "auth_inv au" "drained au"
  shows "auth_inv (au\<lparr>au_draining := None\<rparr>)"
proof -
  have "fst g = au_current au" if g: "g \<in> set (au_guards au)" for g
  proof (rule ccontr)
    assume "fst g \<noteq> au_current au"
    then have "au_draining au = Some (fst g)" using assms(1) g by (auto simp: auth_inv_def)
    then have "filter (\<lambda>h. fst h = fst g) (au_guards au) = []"
      using assms guard_epoch_bound [OF assms(1) g] by (auto simp: auth_inv_def drained_def)
    then show False using g by (auto simp: filter_empty_conv)
  qed
  then show ?thesis using assms(1) by (auto simp: auth_inv_def)
qed

lemma pin_cases:
  assumes "pin expected au = Some (Inr au')"
  shows "\<exists>a. action_try_from (ad_action expected) = Some a \<and>
      policy_authorize (au_policy au (au_current au)) (ad_principal expected) (ad_collection expected) a = Some (Inr expected)"
    "au' = au\<lparr>au_active := (au_active au)(au_current au := au_active au (au_current au) + 1),
             au_guards := (au_current au, expected) # au_guards au\<rparr>"
  using assms by (auto simp: pin_def authorize_def split: option.splits sum.splits if_splits)

lemma auth_inv_admit:
  assumes "auth_inv au" "pin expected au = Some (Inr au')"
  shows "auth_inv au'"
  using assms(1) pin_cases(1) [OF assms(2)] unfolding pin_cases(2) [OF assms(2)] auth_inv_def by auto

lemma filter_remove1_length:
  assumes "g \<in> set gs"
  shows "length (filter P (remove1 g gs)) = length (filter P gs) - (if P g then 1 else 0)"
proof -
  have "length (filter P gs) = length (filter P (remove1 g gs)) + (if P g then 1 else 0)"
    using assms by (induction gs) auto
  then show ?thesis by simp
qed

lemma auth_inv_release:
  assumes "auth_inv au" "g \<in> set (au_guards au)" "drop_guard g au = Some au'"
  shows "auth_inv au'"
proof -
  have au': "au' = au\<lparr>au_active := (au_active au)(fst g := au_active au (fst g) - 1), au_guards := remove1 g (au_guards au)\<rparr>"
    using assms(3) by (auto simp: drop_guard_def split: if_splits)
  have sub: "set (remove1 g (au_guards au)) \<subseteq> set (au_guards au)" by (rule set_remove1_subset)
  show ?thesis
    using assms(1) sub guard_epoch_bound [OF assms(1,2)] unfolding au' auth_inv_def
    by (auto simp: filter_remove1_length [OF assms(2)])
qed

lemma auth_inv_step: "auth_step canon au au' \<Longrightarrow> auth_inv au \<Longrightarrow> auth_inv au'"
  by (induction rule: auth_step.induct) (blast intro: auth_inv_publish auth_inv_finish auth_inv_admit auth_inv_release)+

lemma auth_inv_reach: "auth_reach canon au \<Longrightarrow> auth_inv au"
  by (induction rule: auth_reach.induct) (auto intro: auth_inv_new auth_inv_step)

lemma live_guard_counted:
  assumes "auth_inv au" "g \<in> set (au_guards au)"
  shows "0 < au_active au (fst g)"
proof -
  have "g \<in> set (filter (\<lambda>h. fst h = fst g) (au_guards au))" using assms(2) by simp
  then show ?thesis using assms(1) guard_epoch_bound [OF assms] unfolding auth_inv_def by (metis length_pos_if_in_set)
qed


definition sample_authority :: authority where
  "sample_authority = \<lparr>au_policy = (\<lambda>_. \<lparr>pol_revision = 1, pol_resources = [''books'' \<mapsto> ''w''],
       pol_grants = [(''reader'', ''books'') \<mapsto> {1}], pol_views = Map.empty, pol_fields = Map.empty\<rparr>),
     au_active = (\<lambda>_. 0), au_current = 0, au_draining = None, au_revision = 1, au_guards = []\<rparr>"

definition sample_decision :: access_decision where
  "sample_decision = \<lparr>ad_policy_revision = 1, ad_principal = ''reader'', ad_workspace = ''w'', ad_collection = ''books'',
     ad_action = 1, ad_visibility = None, ad_fields = None\<rparr>"

definition sample_admitted :: authority where
  "sample_admitted = sample_authority\<lparr>au_active := (\<lambda>_. 0)(0 := 1), au_guards := [(0, sample_decision)]\<rparr>"

lemma sample_reach: "auth_reach (\<lambda>_. Inr []) sample_authority"
  by (rule auth_reach.start [of _ sample_policy]) (simp add: authority_new_def sample_policy_valid sample_authority_def)

lemma sample_admit: "pin sample_decision sample_authority = Some (Inr sample_admitted)"
  by (simp add: pin_def authorize_def policy_authorize_def sample_decision_def sample_authority_def sample_admitted_def
      action_try_from_def action_number_def USIZE_MAX_def)


section \<open>A replacement revokes permits\<close>

inductive auth_run :: "canonical \<Rightarrow> authority \<Rightarrow> authority \<Rightarrow> bool" for canon where
  stop: "auth_run canon au au"
| more: "auth_run canon au au' \<Longrightarrow> auth_step canon au' au'' \<Longrightarrow> auth_run canon au au''"

lemma run_trans: "auth_run canon au' au'' \<Longrightarrow> auth_run canon au au' \<Longrightarrow> auth_run canon au au''"
  by (induction rule: auth_run.induct) (auto intro: auth_run.more)

lemma step_revision:
  assumes "auth_step canon au au'" "auth_inv au"
  shows "(au_current au' = au_current au \<and> au_revision au' = au_revision au) \<or>
    (au_current au' = au_current au + 1 \<and> au_revision au < au_revision au')"
  using assms(1)
proof cases
  case (publish input)
  then show ?thesis using assms(2)
    by (auto simp: replace_publish_def bind_result_eq_Inr Let_def auth_inv_def split: if_splits)
next
  case (admit expected)
  then show ?thesis using pin_cases(2) [OF admit] by simp
qed (auto simp: drop_guard_def split: if_splits)

lemma run_revision:
  assumes "auth_run canon au au'" "auth_inv au"
  shows "auth_inv au' \<and> au_current au \<le> au_current au' \<and> au_revision au \<le> au_revision au' \<and>
    (au_current au < au_current au' \<longrightarrow> au_revision au < au_revision au')"
  using assms
proof (induction rule: auth_run.induct)
  case (more au au' au'')
  then show ?case using step_revision [OF more.hyps(2)] auth_inv_step [OF more.hyps(2)] by fastforce
qed simp

lemma acquired_revision:
  assumes "permit_acquire canon who collection action au = Some (Inr d)"
  shows "ad_policy_revision d = au_revision au"
  using assms by (auto simp: permit_acquire_def permit_check_def bind_result_eq_Inr split: option.splits sum.splits if_splits)

lemma all_checks_refused:
  "d \<in> set ds \<Longrightarrow> permit_check d au = Some (Inl e) \<Longrightarrow> all_checks ds au \<noteq> Some (Inr u)"
  by (induction ds) (auto split: option.splits sum.splits)

text \<open>
  C13: a permit does not outlive the policy that granted it. Once any replacement has been
  published, its check fails with the policy-changed status, it can no longer be pinned, and a
  stream guarded by it discloses nothing more: whatever its producer yields, and even when the
  replacement happened while the producer ran, no item is handed on.
\<close>

theorem stream_stops_on_revocation:
  assumes "auth_reach canon au" "permit_acquire canon who collection action au = Some (Inr d)"
    and "auth_run canon au au'" "au_current au < au_current au'" "d \<in> set permits"
  shows "permit_check d au' = Some (Inl policy_changed) \<and> permit_pin d au' = Some (Inl policy_changed) \<and>
    poll_next permits alive before produced au' \<noteq> Some (alive', Item x)"
proof -
  have "ad_policy_revision d < au_revision au'"
    using run_revision [OF assms(3) auth_inv_reach [OF assms(1)]] assms(4) acquired_revision [OF assms(2)] by simp
  then have c: "permit_check d au' = Some (Inl policy_changed)" "permit_pin d au' = Some (Inl policy_changed)"
    by (auto simp: permit_check_def permit_pin_def)
  moreover have "poll_next permits alive before produced au' \<noteq> Some (alive', Item x)"
    using all_checks_refused [OF assms(5) c(1)]
    by (cases "all_checks permits au'"; cases produced)
       (auto simp: poll_next_def split: option.splits sum.splits)
  ultimately show ?thesis by simp
qed

definition sample_replaced :: authority where
  "sample_replaced =
     sample_authority\<lparr>au_policy := (\<lambda>_. au_policy sample_authority 0)(1 := au_policy sample_authority 0\<lparr>pol_revision := 2\<rparr>),
       au_active := (\<lambda>_. 0)(1 := 0), au_current := 1, au_draining := Some 0, au_revision := 2\<rparr>"

lemma sample_replace: "auth_step (\<lambda>_. Inr []) sample_authority sample_replaced"
proof (rule auth_step.publish [of _ _ "sample_policy\<lparr>ap_revision := 2\<rparr>"])
  have "policy_validate (\<lambda>_. Inr []) (sample_policy\<lparr>ap_revision := 2\<rparr>) = Inr (au_policy sample_authority 0\<lparr>pol_revision := 2\<rparr>)"
    by (simp add: policy_validate_def sample_policy_def add_resource_def validate_name_def name_char_ok_def add_collection_grant_def
      add_access_action_def action_try_from_def add_view_def add_fields_def sample_authority_def)
  then show "replace_publish (\<lambda>_. Inr []) (sample_policy\<lparr>ap_revision := 2\<rparr>) sample_authority = Inr sample_replaced"
    by (simp add: replace_publish_def sample_replaced_def sample_authority_def word_le_nat_alt)
qed (simp add: sample_authority_def)

theorem stream_stops_on_revocation_witness:
  "permit_check sample_decision sample_authority = Some (Inr ()) \<and>
   permit_check sample_decision sample_replaced = Some (Inl policy_changed) \<and>
   poll_next [sample_decision] True sample_authority (Item ''row'') sample_replaced \<noteq> Some (True, Item ''row'')"
proof -
  have check: "permit_check sample_decision sample_authority = Some (Inr ())"
    by (simp add: permit_check_def authorize_def policy_authorize_def sample_decision_def sample_authority_def
        action_try_from_def action_number_def)
  moreover have "permit_acquire (\<lambda>_. Inr []) ''reader'' ''books'' ActSearch sample_authority = Some (Inr sample_decision)"
    using check
    by (simp add: permit_acquire_def authorize_def policy_authorize_def sample_decision_def sample_authority_def action_number_def)
  moreover have "au_current sample_authority < au_current sample_replaced"
    by (simp add: sample_authority_def sample_replaced_def)
  ultimately show ?thesis
    using stream_stops_on_revocation [OF sample_reach _ auth_run.more [OF auth_run.stop sample_replace],
        of "''reader''" "''books''" ActSearch sample_decision "[sample_decision]" True sample_authority "Item ''row''"] by auto
qed

section \<open>A waiting replacement can finish\<close>

lemma release_all:
  assumes "auth_inv au"
  shows "\<exists>au'. auth_run canon au au' \<and> au_guards au' = [] \<and> au_draining au' = au_draining au \<and> au_current au' = au_current au \<and> auth_inv au'"
  using assms
proof (induction "length (au_guards au)" arbitrary: au)
  case 0
  then show ?case using auth_run.stop by auto
next
  case (Suc n)
  then obtain g gs where gs: "au_guards au = g # gs" by (cases "au_guards au") auto
  define au1 where "au1 = au\<lparr>au_active := (au_active au)(fst g := au_active au (fst g) - 1), au_guards := remove1 g (au_guards au)\<rparr>"
  have d: "drop_guard g au = Some au1"
    using live_guard_counted [OF Suc.prems, of g] gs by (simp add: drop_guard_def au1_def)
  then have step: "auth_step canon au au1" using gs by (intro auth_step.release [of g]) auto
  have "n = length (au_guards au1)" using Suc.hyps(2) gs by (simp add: au1_def)
  from Suc.hyps(1) [OF this auth_inv_step [OF step Suc.prems]]
  obtain au' where "auth_run canon au1 au'" "au_guards au' = []" "au_draining au' = au_draining au1"
    "au_current au' = au_current au1" "auth_inv au'" by blast
  moreover have "auth_run canon au au1" by (rule auth_run.more [OF auth_run.stop step])
  ultimately show ?case using run_trans by (intro exI [of _ au']) (auto simp: au1_def)
qed



end
