(* ===== verification/Float_Arith.thy ===== *)
theory Float_Arith
  imports Float64 "HOL-Library.Log_Nat"
begin

text \<open>
  IEEE arithmetic on doubles at their bit pattern, as the value expressions of
  \<open>src/values.rs\<close> use it: the exact rational result, rounded to nearest, ties to even. A NaN
  result is the quiet NaN \<open>f64::NAN\<close>. The functions a platform's mathematics library provides
  are collected in a record, a parameter of everything that calls them.
\<close>

unbundle bit_operations_syntax

section \<open>Rounding\<close>

definition f64_nan :: f64 where "f64_nan = 0x7FF8000000000000"

definition f64_signed :: "bool \<Rightarrow> nat \<Rightarrow> f64" where
  "f64_signed s p = (if s then 0x8000000000000000 else 0) OR of_nat p"

definition round_half_even :: "rat \<Rightarrow> int" where
  "round_half_even r =
     (let f = \<lfloor>r\<rfloor>; d = r - of_int f
      in if d < 1 / 2 then f else if 1 / 2 < d then f + 1 else if even f then f else f + 1)"

text \<open>
  The pattern of the magnitude \<open>r\<close>: in units of \<open>2^-1074\<close> the significand has at most 53 bits
  and the exponent counts the bits dropped; a carry out of the significand moves into the
  exponent by itself.
\<close>

definition f64_round :: "bool \<Rightarrow> rat \<Rightarrow> f64" where
  "f64_round s r =
     (let m = r * 2 ^ 1074;
          e = floorlog 2 (nat \<lfloor>m\<rfloor>) - 53;
          q = nat (round_half_even (m / 2 ^ e))
      in f64_signed s (min 0x7FF0000000000000 (e * 2 ^ 52 + q)))"

section \<open>Operations\<close>

definition f64_neg :: "f64 \<Rightarrow> f64" where
  "f64_neg w = w XOR 0x8000000000000000"

definition f64_abs :: "f64 \<Rightarrow> f64" where
  "f64_abs w = w AND 0x7FFFFFFFFFFFFFFF"

definition f64_inf :: "bool \<Rightarrow> f64" where
  "f64_inf s = f64_signed s 0x7FF0000000000000"

definition f64_is_zero :: "f64 \<Rightarrow> bool" where
  "f64_is_zero w = (f64_magnitude w = 0)"

definition f64_add :: "f64 \<Rightarrow> f64 \<Rightarrow> f64" where
  "f64_add a b =
     (if f64_is_nan a \<or> f64_is_nan b then f64_nan
      else if f64_is_infinite a then if f64_is_infinite b \<and> f64_sign a \<noteq> f64_sign b then f64_nan else a
      else if f64_is_infinite b then b
      else let s = f64_value a + f64_value b
           in if s = 0 then f64_signed (f64_sign a \<and> f64_sign b) 0 else f64_round (s < 0) \<bar>s\<bar>)"

definition f64_sub :: "f64 \<Rightarrow> f64 \<Rightarrow> f64" where
  "f64_sub a b = f64_add a (f64_neg b)"

definition f64_mul :: "f64 \<Rightarrow> f64 \<Rightarrow> f64" where
  "f64_mul a b =
     (let s = (f64_sign a \<noteq> f64_sign b)
      in if f64_is_nan a \<or> f64_is_nan b then f64_nan
         else if f64_is_infinite a \<or> f64_is_infinite b
         then if f64_is_zero a \<or> f64_is_zero b then f64_nan else f64_inf s
         else f64_round s \<bar>f64_value a * f64_value b\<bar>)"

definition f64_div :: "f64 \<Rightarrow> f64 \<Rightarrow> f64" where
  "f64_div a b =
     (let s = (f64_sign a \<noteq> f64_sign b)
      in if f64_is_nan a \<or> f64_is_nan b then f64_nan
         else if f64_is_infinite a then if f64_is_infinite b then f64_nan else f64_inf s
         else if f64_is_infinite b then f64_signed s 0
         else if f64_is_zero b then if f64_is_zero a then f64_nan else f64_inf s
         else f64_round s \<bar>f64_value a / f64_value b\<bar>)"

text \<open>\<open>as f64\<close> on integers.\<close>

definition f64_of_int :: "int \<Rightarrow> f64" where
  "f64_of_int z = f64_round (z < 0) (of_int \<bar>z\<bar>)"

text \<open>\<open>floor\<close>, \<open>ceil\<close>, \<open>trunc\<close> and \<open>round\<close> keep the sign, also of a zero result.\<close>

definition f64_integral :: "(f64 \<Rightarrow> int) \<Rightarrow> f64 \<Rightarrow> f64" where
  "f64_integral part w = (if f64_is_finite w then f64_round (f64_sign w) (of_int \<bar>part w\<bar>) else w)"

definition f64_trunc_int :: "f64 \<Rightarrow> int" where
  "f64_trunc_int w = (if f64_sign w then f64_ceil w else f64_floor w)"

definition f64_round_int :: "f64 \<Rightarrow> int" where
  "f64_round_int w = \<lfloor>\<bar>f64_value w\<bar> + 1 / 2\<rfloor>"

text \<open>\<open>sqrt\<close>, \<open>ln\<close>, \<open>exp\<close>, \<open>log10\<close> and \<open>powf\<close> of the platform.\<close>

record libm =
  lm_sqrt :: "f64 \<Rightarrow> f64"
  lm_ln :: "f64 \<Rightarrow> f64"
  lm_exp :: "f64 \<Rightarrow> f64"
  lm_log10 :: "f64 \<Rightarrow> f64"
  lm_powf :: "f64 \<Rightarrow> f64 \<Rightarrow> f64"

section \<open>A representable value rounds to itself\<close>

lemma round_half_even_int [simp]: "round_half_even (of_int z) = z"
  by (simp add: round_half_even_def)

lemma f64_signed_pattern: "f64_signed (f64_sign w) (f64_magnitude w) = w"
proof -
  have "of_nat (f64_magnitude w) = take_bit 63 w" by (simp add: f64_magnitude_def)
  moreover have "(if bit w 63 then 0x8000000000000000 else 0) OR take_bit 63 w = w"
  proof (rule bit_word_eqI)
    fix n :: nat
    assume n: "n < LENGTH(64)"
    have "(0x8000000000000000 :: u64) = bit_mask 63" by (simp add: bit_mask_def push_bit_eq_mult)
    then have "bit (0x8000000000000000 :: u64) n \<longleftrightarrow> n = 63" by (simp only: bit_bit_mask) auto
    then show "bit ((if bit w 63 then 0x8000000000000000 else 0) OR take_bit 63 w) n = bit w n"
      using n by (cases "n = 63") (auto simp: bit_or_iff bit_take_bit_iff)
  qed
  ultimately show ?thesis by (simp add: f64_signed_def f64_sign_def)
qed

lemma f64_abs_value: "\<bar>f64_value w\<bar> * 2 ^ 1074 = of_nat (magnitude_units (f64_magnitude w))"
  by (simp add: f64_value_def f64_units_def abs_mult)

lemma floorlog_units:
  assumes "2 ^ 53 \<le> p"
  shows "floorlog 2 (magnitude_units p) = p div 2 ^ 52 + 52" "2 \<le> p div 2 ^ 52"
proof -
  show e: "2 \<le> p div 2 ^ 52" using div_le_mono [OF assms, of "2 ^ 52"] by simp
  define E f where "E = p div 2 ^ 52" and "f = p mod 2 ^ 52"
  have u: "magnitude_units p = (2 ^ 52 + f) * 2 ^ (E - 1)" using e by (simp add: magnitude_units_def E_def f_def)
  have f: "f < 2 ^ 52" by (simp add: f_def)
  have "floorlog 2 (magnitude_units p) = floorlog 2 (2 ^ 52 + f) + (E - 1)"
    unfolding u by (rule floorlog_power) simp_all
  moreover have "floorlog 2 (2 ^ 52 + f) = 53"
    using f floorlog_leI [of "2 ^ 52 + f" 2 53] floorlog_geI [of 2 53 "2 ^ 52 + f"] by simp
  ultimately show "floorlog 2 (magnitude_units p) = p div 2 ^ 52 + 52" using e by (simp add: E_def)
qed

lemma f64_round_exact:
  assumes "f64_is_finite w"
  shows "f64_round (f64_sign w) \<bar>f64_value w\<bar> = w"
proof -
  define p where "p = f64_magnitude w"
  have p: "p < 0x7FF0000000000000" using assms by (simp add: f64_is_finite_def p_def)
  let ?m = "of_nat (magnitude_units p) :: rat"
  have m: "\<bar>f64_value w\<bar> * 2 ^ 1074 = ?m" by (simp only: f64_abs_value p_def)
  define e where "e = floorlog 2 (magnitude_units p) - 53"
  have "e * 2 ^ 52 + nat (round_half_even (?m / 2 ^ e)) = p"
  proof (cases "p < 2 ^ 53")
    case True
    then have "magnitude_units p = p"
      by (cases "p < 2 ^ 52") (auto simp: magnitude_units_def div_eq_0_iff not_less le_div_geq le_mod_geq)
    moreover from this have "e = 0" using floorlog_leI [of p 2 53] True by (simp add: e_def)
    ultimately show ?thesis using round_half_even_int [of "int p"] by simp
  next
    case False
    then have f: "floorlog 2 (magnitude_units p) = p div 2 ^ 52 + 52" "2 \<le> p div 2 ^ 52" using floorlog_units by simp_all
    have e: "e = p div 2 ^ 52 - 1" by (simp add: e_def f(1))
    have "?m / 2 ^ e = of_int (int (2 ^ 52 + p mod 2 ^ 52))"
      using f(2) by (simp add: magnitude_units_def e)
    then have "nat (round_half_even (?m / 2 ^ e)) = 2 ^ 52 + p mod 2 ^ 52" by (simp only: round_half_even_int nat_int)
    moreover have "(p div 2 ^ 52 - 1) * 2 ^ 52 + (2 ^ 52 + p mod 2 ^ 52) = p"
      using f(2) div_mult_mod_eq [of p "2 ^ 52"] by (simp add: diff_mult_distrib)
    ultimately show ?thesis unfolding e by simp
  qed
  moreover have "nat \<lfloor>?m\<rfloor> = magnitude_units p" by simp
  ultimately have "f64_round (f64_sign w) \<bar>f64_value w\<bar> = f64_signed (f64_sign w) (min 0x7FF0000000000000 p)"
    unfolding f64_round_def m Let_def by (simp only: e_def [symmetric])
  then show ?thesis using p f64_signed_pattern [of w] by (simp add: p_def)
qed

text \<open>So a sum or product that is exact in the rationals and representable is returned as such.\<close>

lemma f64_add_exact:
  assumes "f64_is_finite a" "f64_is_finite b" "f64_is_finite c" "f64_value a + f64_value b = f64_value c" "f64_value c \<noteq> 0"
  shows "f64_add a b = c"
proof -
  have "\<not> f64_is_nan a" "\<not> f64_is_nan b" "\<not> f64_is_infinite a" "\<not> f64_is_infinite b"
    using assms(1,2) by (auto simp: f64_is_finite_def f64_is_nan_def f64_is_infinite_def)
  moreover have "f64_value c < 0 \<longleftrightarrow> f64_sign c"
    using assms(5) by (auto simp: f64_value_def f64_units_def divide_less_0_iff)
  ultimately show ?thesis using assms(4,5) f64_round_exact [OF assms(3)] by (simp add: f64_add_def)
qed

end
