(* ===== verification/Calendar.thy ===== *)
theory Calendar
  imports Prelude "HOL-Library.Signed_Division"
begin

text \<open>
  Calendar bucketing of date histograms (\<open>src/calendar.rs\<close>): civil dates from day counts and
  back, and the start instant of the bucket that holds a timestamp. The day count is shown to
  follow the Gregorian month lengths, and buckets to be intervals named by their first instant.
  Arithmetic that leaves \<open>i64\<close> unchecked is a panic, \<open>None\<close>.
\<close>

section \<open>Civil dates\<close>

definition floor_div :: "int \<Rightarrow> int \<Rightarrow> int" where
  "floor_div a b = (let q = a sdiv b in if a smod b \<noteq> 0 \<and> (a < 0) \<noteq> (b < 0) then q - 1 else q)"

definition floor_mod :: "int \<Rightarrow> int \<Rightarrow> int" where
  "floor_mod a b = a - floor_div a b * b"

definition days_from_civil :: "int \<Rightarrow> nat \<Rightarrow> nat \<Rightarrow> int option" where
  "days_from_civil year m d =
     Option.bind (if m \<le> 2 then checked_i64 (year - 1) else Some year) (\<lambda>y.
     let era = floor_div y 400 in
     Option.bind (checked_i64 (era * 400)) (\<lambda>era_years.
     let yoe = y - era_years;
         mp = int ((m + 9) mod 12);
         doy = (153 * mp + 2) div 5 + int d - 1;
         doe = yoe * 365 + yoe div 4 - yoe div 100 + doy
     in Option.bind (checked_i64 (era * 146097)) (\<lambda>era_days.
        Option.bind (checked_i64 (era_days + doe)) (\<lambda>days.
        checked_i64 (days - 719468)))))"

definition civil_from_days :: "int \<Rightarrow> (int \<times> nat \<times> nat) option" where
  "civil_from_days days =
     Option.bind (checked_i64 (days + 719468)) (\<lambda>z.
     let era = floor_div z 146097;
         doe = z - era * 146097;
         yoe = (doe - doe div 1460 + doe div 36524 - doe div 146096) div 365;
         y = yoe + era * 400;
         doy = doe - (365 * yoe + yoe div 4 - yoe div 100);
         mp = (5 * doy + 2) div 153;
         d = nat (doy - (153 * mp + 2) div 5 + 1);
         m = nat (if mp < 10 then mp + 3 else mp - 9)
     in Some (if m \<le> 2 then y + 1 else y, m, d))"

section \<open>Buckets\<close>

definition MICROS_PER_SECOND :: int where "MICROS_PER_SECOND = 1000000"

definition SECONDS_PER_DAY :: int where "SECONDS_PER_DAY = 86400"

datatype calendar_interval =
  IntervalUnspecified | IntervalMinute | IntervalHour | IntervalDay | IntervalWeek | IntervalMonth | IntervalQuarter | IntervalYear

definition interval_of :: "int \<Rightarrow> calendar_interval option" where
  "interval_of raw =
     (if raw = 1 then Some IntervalMinute else if raw = 2 then Some IntervalHour else if raw = 3 then Some IntervalDay
      else if raw = 4 then Some IntervalWeek else if raw = 5 then Some IntervalMonth else if raw = 6 then Some IntervalQuarter
      else if raw = 7 then Some IntervalYear else None)"

text \<open>The operator \<open>?\<close> on an \<open>Option\<close> in a function whose panics are the outer \<open>None\<close>.\<close>

definition or_return :: "'a option \<Rightarrow> ('a \<Rightarrow> 'b option option) \<Rightarrow> 'b option option" where
  "or_return x f = (case x of None \<Rightarrow> Some None | Some y \<Rightarrow> f y)"

lemma or_return_simps [simp]: "or_return None f = Some None" "or_return (Some x) f = f x"
  by (simp_all add: or_return_def)

definition start_of :: "int \<Rightarrow> int \<Rightarrow> calendar_interval \<Rightarrow> int option option" where
  "start_of secs days unit =
     (case unit of
        IntervalUnspecified \<Rightarrow> Some None
      | IntervalMinute \<Rightarrow> Some (Some (secs - floor_mod secs 60))
      | IntervalHour \<Rightarrow> Some (Some (secs - floor_mod secs 3600))
      | IntervalDay \<Rightarrow> Some (checked_i64 (days * SECONDS_PER_DAY))
      | IntervalWeek \<Rightarrow>
          let weekday = floor_mod (days + 3) 7
          in Some (checked_i64 ((days - weekday) * SECONDS_PER_DAY))
      | IntervalMonth \<Rightarrow>
          Option.bind (civil_from_days days) (\<lambda>(y, m, _).
          Option.bind (days_from_civil y m 1) (\<lambda>first.
          Some (checked_i64 (first * SECONDS_PER_DAY))))
      | IntervalQuarter \<Rightarrow>
          Option.bind (civil_from_days days) (\<lambda>(y, m, _).
          Option.bind (days_from_civil y ((m - 1) div 3 * 3 + 1) 1) (\<lambda>first.
          Some (checked_i64 (first * SECONDS_PER_DAY))))
      | IntervalYear \<Rightarrow>
          Option.bind (civil_from_days days) (\<lambda>(y, _, _).
          Option.bind (days_from_civil y 1 1) (\<lambda>first.
          Some (checked_i64 (first * SECONDS_PER_DAY)))))"

definition bucket_start :: "int \<Rightarrow> calendar_interval \<Rightarrow> int \<Rightarrow> int option option" where
  "bucket_start micros unit utc_offset_minutes =
     or_return (checked_i64 (utc_offset_minutes * 60)) (\<lambda>minutes.
     or_return (checked_i64 (minutes * MICROS_PER_SECOND)) (\<lambda>offset.
     or_return (checked_i64 (micros + offset)) (\<lambda>local.
     let secs = floor_div local MICROS_PER_SECOND;
         days = floor_div secs SECONDS_PER_DAY
     in Option.bind (start_of secs days unit) (\<lambda>start_secs.
        or_return start_secs (\<lambda>start.
        or_return (checked_i64 (start * MICROS_PER_SECOND)) (\<lambda>start_micros.
        Some (checked_i64 (start_micros - offset))))))))"

section \<open>The Gregorian calendar\<close>

definition leap :: "int \<Rightarrow> bool" where
  "leap y \<longleftrightarrow> 4 dvd y \<and> (\<not> 100 dvd y \<or> 400 dvd y)"

definition month_length :: "int \<Rightarrow> int \<Rightarrow> int" where
  "month_length y m = (if m = 2 then if leap y then 29 else 28 else if m \<in> {4, 6, 9, 11} then 30 else 31)"

text \<open>Months are numbered through the years: month \<open>n\<close> is month \<open>n mod 12 + 1\<close> of year \<open>n div 12\<close>.\<close>

definition month_days :: "int \<Rightarrow> int" where
  "month_days n = month_length (n div 12) (n mod 12 + 1)"

text \<open>Days before the year that starts on March the first, and before month \<open>n\<close>.\<close>

definition year_days :: "int \<Rightarrow> int" where
  "year_days y = 365 * y + y div 4 - y div 100 + y div 400"

definition first_day :: "int \<Rightarrow> int" where
  "first_day n = year_days ((n - 2) div 12) + (153 * ((n - 2) mod 12) + 2) div 5 - 719468"

definition valid_date :: "int \<times> nat \<times> nat \<Rightarrow> bool" where
  "valid_date = (\<lambda>(y, m, d). 1 \<le> m \<and> m \<le> 12 \<and> 1 \<le> d \<and> int d \<le> month_length y (int m))"

definition next_day :: "int \<times> nat \<times> nat \<Rightarrow> int \<times> nat \<times> nat" where
  "next_day = (\<lambda>(y, m, d).
     if int d < month_length y (int m) then (y, m, d + 1) else if m < 12 then (y, m + 1, 1) else (y + 1, 1, 1))"

lemma floor_div_div:
  assumes "0 < b"
  shows "floor_div a b = a div b"
proof -
  have "a mod b \<noteq> b" using pos_mod_bound [OF assms, of a] by simp
  then show ?thesis
    using assms unfolding floor_div_def Let_def signed_divide_int_def signed_modulo_int_def
    by (cases "a < 0") (auto simp: sgn_if zdiv_zminus1_eq_if zmod_zminus1_eq_if)
qed

lemma floor_mod_mod: "0 < b \<Longrightarrow> floor_mod a b = a mod b"
  by (simp add: floor_mod_def floor_div_div minus_div_mult_eq_mod)

lemma div_step:
  assumes "0 < (k :: int)"
  shows "(y + 1) div k = y div k + (if k dvd y + 1 then 1 else 0)"
proof -
  have y: "y + 1 = k * (y div k) + (y mod k + 1)" by simp
  have b: "0 \<le> y mod k" "y mod k < k" using assms by simp_all
  show ?thesis
  proof (cases "y mod k + 1 = k")
    case True
    then have e: "y + 1 = k * (y div k + 1)" using y by (simp add: algebra_simps)
    then have "(y + 1) div k = y div k + 1" using assms by simp
    moreover have "k dvd y + 1" unfolding e by simp
    ultimately show ?thesis by simp
  next
    case False
    then have "(y + 1) mod k = y mod k + 1" "(y + 1) div k = y div k"
      using int_mod_pos_eq [OF y] int_div_pos_eq [OF y] b by simp_all
    moreover from this have "\<not> k dvd y + 1" using b by (auto simp: dvd_eq_mod_eq_0)
    ultimately show ?thesis by simp
  qed
qed

lemma leap_terms:
  assumes "b \<longrightarrow> a" "c \<longrightarrow> b" "p' = p + (if a then 1 else 0)" "q' = q + (if b then 1 else 0)" "r' = r + (if c then 1 else 0)"
  shows "365 * (y + 1) + p' - q' + r' = 365 * y + p - q + r + (if a \<and> (\<not> b \<or> c) then 366 else (365 :: int))"
  using assms by (cases a; cases b; cases c) simp_all

lemma year_days_step: "year_days (y + 1) = year_days y + (if leap (y + 1) then 366 else 365)"
  unfolding year_days_def leap_def
proof (rule leap_terms)
  show "100 dvd y + 1 \<longrightarrow> 4 dvd y + 1" using dvd_trans [of 4 100 "y + 1"] by simp
  show "400 dvd y + 1 \<longrightarrow> 100 dvd y + 1" using dvd_trans [of 100 400 "y + 1"] by simp
qed (rule div_step, simp)+

text \<open>The eras of 400 years all have 146097 days.\<close>

lemma year_days_era: "year_days (400 * e + y) = 146097 * e + year_days y"
proof -
  have "(400 * e + y) div 4 = 100 * e + y div 4" "(400 * e + y) div 100 = 4 * e + y div 100"
    "(400 * e + y) div 400 = e + y div 400"
    using div_mult_self1 [of 4 y "100 * e"] div_mult_self1 [of 100 y "4 * e"] div_mult_self1 [of 400 y e]
    by (simp_all add: ac_simps)
  then show ?thesis by (simp add: year_days_def)
qed

lemma first_day_shift:
  assumes "0 \<le> mp" "mp < 12"
  shows "first_day (12 * y + mp + 2) = year_days y + (153 * mp + 2) div 5 - 719468"
proof -
  have e: "12 * y + mp + 2 - 2 = mp + y * 12" by simp
  have "(12 * y + mp + 2 - 2) div 12 = y" "(12 * y + mp + 2 - 2) mod 12 = mp"
    unfolding e using assms by (simp_all add: div_pos_pos_trivial)
  then show ?thesis by (simp add: first_day_def)
qed

lemma twelve_cases:
  assumes "0 \<le> (r :: int)" "r < 12"
  shows "r = 0 \<or> r = 1 \<or> r = 2 \<or> r = 3 \<or> r = 4 \<or> r = 5 \<or> r = 6 \<or> r = 7 \<or> r = 8 \<or> r = 9 \<or> r = 10 \<or> r = 11"
  using assms by presburger

lemma first_day_next:
  assumes "0 \<le> mp" "mp < 12"
  shows "first_day (12 * y + mp + 3) = (if mp < 11 then year_days y + (153 * (mp + 1) + 2) div 5 else year_days (y + 1)) - 719468"
proof (cases "mp < 11")
  case True
  then show ?thesis using first_day_shift [of "mp + 1" y] assms by (simp add: algebra_simps)
next
  case False
  then have "mp = 11" using assms by simp
  then show ?thesis using first_day_shift [of 0 "y + 1"] by (simp add: algebra_simps)
qed

text \<open>Month starts advance by the Gregorian month length.\<close>

lemma first_day_step: "first_day (n + 1) = first_day n + month_days n"
proof -
  define y mp where "y = (n - 2) div 12" and "mp = (n - 2) mod 12"
  have mp: "0 \<le> mp" "mp < 12" and n: "n = mp + 2 + y * 12" by (simp_all add: y_def mp_def)
  have f: "first_day n = year_days y + (153 * mp + 2) div 5 - 719468"
    "first_day (n + 1) = (if mp < 11 then year_days y + (153 * (mp + 1) + 2) div 5 else year_days (y + 1)) - 719468"
    using first_day_shift [OF mp, of y] first_day_next [OF mp, of y] n by (simp_all add: algebra_simps)
  have "month_days n = month_length ((mp + 2) div 12 + y) ((mp + 2) mod 12 + 1)"
    unfolding month_days_def n by (simp add: add.commute)
  then show ?thesis
    unfolding f year_days_step using twelve_cases [OF mp]
    by (elim disjE) (simp_all add: month_length_def ac_simps)
qed

lemma int_step_le:
  fixes f :: "int \<Rightarrow> int"
  assumes "\<And>n. f n \<le> f (n + 1)" "m \<le> n"
  shows "f m \<le> f n"
  using assms(2) by (induction rule: int_ge_induct) (auto intro: order_trans assms(1))

lemma month_days_bounds: "28 \<le> month_days n" "month_days n \<le> 31"
  by (simp_all add: month_days_def month_length_def)

lemma first_day_le: "m \<le> n \<Longrightarrow> first_day m \<le> first_day n"
proof (rule int_step_le [of first_day])
  show "first_day n \<le> first_day (n + 1)" for n
    using month_days_bounds(1) [of n] by (simp add: first_day_step)
qed

lemma first_day_less: "m < n \<Longrightarrow> first_day m < first_day n"
  using first_day_le [of "m + 1" n] first_day_step [of m] month_days_bounds(1) [of m] by simp

section \<open>The day count inverts\<close>

definition year_of :: "int \<Rightarrow> int" where
  "year_of doe = (doe - doe div 1460 + doe div 36524 - doe div 146096) div 365"

lemma year_of_step: "year_of d \<le> year_of (d + 1)"
proof -
  have "146096 dvd d + 1 \<longrightarrow> 36524 dvd d + 1" using dvd_trans [of 36524 146096 "d + 1"] by simp
  then have "d - d div 1460 + d div 36524 - d div 146096 \<le> d + 1 - (d + 1) div 1460 + (d + 1) div 36524 - (d + 1) div 146096"
    by (simp only: div_step zero_less_numeral split: if_splits) auto
  then show ?thesis unfolding year_of_def by (intro zdiv_mono1) simp_all
qed

lemma year_of_mono: "c \<le> d \<Longrightarrow> year_of c \<le> year_of d"
  by (rule int_step_le [of year_of]) (rule year_of_step)

lemma year_table: "list_all (\<lambda>y. year_of (year_days y) = y \<and> year_of (year_days (y + 1) - 1) = y) (map int [0..<400])"
  by code_simp

lemma year_ends:
  assumes "0 \<le> y" "y < 400"
  shows "year_of (year_days y) = y" "year_of (year_days (y + 1) - 1) = y"
proof -
  have "y \<in> set (map int [0..<400])" using assms by (auto simp: image_iff intro: bexI [of _ "nat y"])
  then show "year_of (year_days y) = y" "year_of (year_days (y + 1) - 1) = y" using year_table by (auto simp: list_all_iff)
qed

lemma year_of_range:
  assumes "0 \<le> doe" "doe < 146097"
  shows "0 \<le> year_of doe" "year_of doe < 400" "year_days (year_of doe) \<le> doe" "doe < year_days (year_of doe + 1)"
proof -
  have "year_of 0 \<le> year_of doe" "year_of doe \<le> year_of 146096" using assms by (intro year_of_mono; simp)+
  moreover have "year_of 0 = 0" "year_of 146096 = 399" by (simp_all add: year_of_def)
  ultimately show r: "0 \<le> year_of doe" "year_of doe < 400" by simp_all
  have ends: "year_days 0 = 0" "year_days 400 = 146097" by (simp_all add: year_days_def)
  show "year_days (year_of doe) \<le> doe"
  proof (rule ccontr)
    assume n: "\<not> year_days (year_of doe) \<le> doe"
    then have "year_of doe \<noteq> 0" using assms ends(1) by force
    then have "year_of (year_days (year_of doe) - 1) = year_of doe - 1" using year_ends(2) [of "year_of doe - 1"] r by simp
    then show False using year_of_mono [of doe "year_days (year_of doe) - 1"] n by simp
  qed
  show "doe < year_days (year_of doe + 1)"
  proof (rule ccontr)
    assume n: "\<not> doe < year_days (year_of doe + 1)"
    then have "year_of doe \<noteq> 399" using assms ends(2) by force
    then have "year_of (year_days (year_of doe + 1)) = year_of doe + 1" using year_ends(1) [of "year_of doe + 1"] r by simp
    then show False using year_of_mono [of "year_days (year_of doe + 1)" doe] n by simp
  qed
qed

lemma year_days_400: "0 \<le> y \<Longrightarrow> y < 400 \<Longrightarrow> year_days y = 365 * y + y div 4 - y div 100"
  by (simp add: year_days_def div_pos_pos_trivial)

text \<open>The date without the range check.\<close>

definition civil_date :: "int \<Rightarrow> int \<times> nat \<times> nat" where
  "civil_date days =
     (let z = days + 719468;
          era = floor_div z 146097;
          doe = z - era * 146097;
          yoe = (doe - doe div 1460 + doe div 36524 - doe div 146096) div 365;
          y = yoe + era * 400;
          doy = doe - (365 * yoe + yoe div 4 - yoe div 100);
          mp = (5 * doy + 2) div 153;
          d = nat (doy - (153 * mp + 2) div 5 + 1);
          m = nat (if mp < 10 then mp + 3 else mp - 9)
      in (if m \<le> 2 then y + 1 else y, m, d))"

lemma civil_from_days_eq:
  assumes "in_i64 (z + 719468)"
  shows "civil_from_days z = Some (civil_date z)"
proof -
  have "checked_i64 (z + 719468) = Some (z + 719468)" using assms by simp
  then show ?thesis unfolding civil_from_days_def civil_date_def by (simp only: Let_def Option.bind.simps)
qed

lemma civil_date_month:
  "\<exists>y m d. civil_date z = (y, m, d) \<and> 1 \<le> m \<and> m \<le> 12 \<and> 1 \<le> d \<and>
    first_day (12 * y + int m - 1) + int d = z + 1 \<and> z < first_day (12 * y + int m)"
proof -
  define era doe where "era = (z + 719468) div 146097" and "doe = (z + 719468) mod 146097"
  have z: "z + 719468 = 146097 * era + doe" "0 \<le> doe" "doe < 146097" by (simp_all add: era_def doe_def)
  note yr = year_of_range [OF z(2,3)]
  define yoe doy where "yoe = year_of doe" and "doy = doe - year_days (year_of doe)"
  define mp where "mp = (5 * doy + 2) div 153"
  have doy: "0 \<le> doy" "doy < year_days (yoe + 1) - year_days yoe" using yr by (simp_all add: doy_def yoe_def)
  then have "doy \<le> 365" using year_days_step [of yoe] by (simp split: if_splits)
  then have mp: "0 \<le> mp" "mp < 12" using doy(1) by (simp_all add: mp_def)
  have in_month: "(153 * mp + 2) div 5 \<le> doy" "doy < (153 * (mp + 1) + 2) div 5"
  proof -
    have "5 * doy + 2 = 153 * mp + (5 * doy + 2) mod 153" by (simp add: mp_def)
    then have b: "153 * mp \<le> 5 * doy + 2" "5 * doy + 2 < 153 * mp + 153" using pos_mod_bound [of 153 "5 * doy + 2"] by auto
    show "(153 * mp + 2) div 5 \<le> doy" using zdiv_mono1 [of "153 * mp + 2" "4 + doy * 5" 5] b(1) by simp
    show "doy < (153 * (mp + 1) + 2) div 5" using zdiv_mono1 [of "(doy + 1) * 5" "153 * (mp + 1) + 2" 5] b(2) by simp
  qed
  define y where "y = yoe + era * 400"
  have yd: "year_days y = 146097 * era + year_days yoe" "year_days (y + 1) = 146097 * era + year_days (yoe + 1)"
    using year_days_era [of era yoe] year_days_era [of era "yoe + 1"] by (simp_all add: y_def algebra_simps)
  have zd: "z = year_days y + doy - 719468" using z yd(1) by (simp add: doy_def yoe_def)
  then have "z + 1 = first_day (12 * y + mp + 2) + (doy - (153 * mp + 2) div 5 + 1)"
    using first_day_shift [OF mp, of y] by simp
  moreover have "z < first_day (12 * y + mp + 3)"
    unfolding zd first_day_next [OF mp] using in_month(2) doy(2) yd by (cases "mp < 11") simp_all
  moreover have "civil_date z =
      (if nat (if mp < 10 then mp + 3 else mp - 9) \<le> 2 then y + 1 else y,
            nat (if mp < 10 then mp + 3 else mp - 9), nat (doy - (153 * mp + 2) div 5 + 1))"
  proof -
    have "floor_div (z + 719468) 146097 = era" by (simp add: floor_div_div era_def)
    moreover have "z + 719468 - era * 146097 = doe" using z(1) by simp
    moreover have "(doe - doe div 1460 + doe div 36524 - doe div 146096) div 365 = yoe" by (simp add: yoe_def year_of_def)
    moreover have "doe - (365 * yoe + yoe div 4 - yoe div 100) = doy"
      using year_days_400 [of yoe] yr(1,2) by (simp add: doy_def yoe_def)
    ultimately show ?thesis
      unfolding civil_date_def by (simp only: Let_def mp_def [symmetric] y_def [symmetric])
  qed
  ultimately show ?thesis
    using mp in_month(1) by (cases "mp < 10") (simp_all add: algebra_simps nat_le_iff Suc_le_eq)
qed

text \<open>\<open>days_from_civil\<close> counts from the first of the month and does not overflow where the day count is in range.\<close>

lemma days_from_civil_value:
  assumes m: "1 \<le> m" "m \<le> 12" and d: "1 \<le> d" "d \<le> 31"
    and t: "t = first_day (12 * y + int m - 1) + int d - 1" "in_i64 t" "in_i64 (t + 719468)"
  shows "days_from_civil y m d = Some t"
proof -
  define Y mp where "Y = (if m \<le> 2 then y - 1 else y)" and "mp = int ((m + 9) mod 12)"
  have mp: "0 \<le> mp" "mp < 12" "12 * y + int m - 1 = 12 * Y + mp + 2"
    using m by (auto simp: Y_def mp_def mod_if)
  define era yoe where "era = Y div 400" and "yoe = Y mod 400"
  have Y: "Y = 400 * era + yoe" "0 \<le> yoe" "yoe < 400" by (simp_all add: era_def yoe_def)
  define doe where "doe = yoe * 365 + yoe div 4 - yoe div 100 + ((153 * mp + 2) div 5 + int d - 1)"
  have te: "t + 719468 = era * 146097 + doe"
    using t(1) first_day_shift [OF mp(1,2), of Y] year_days_era [of era yoe] year_days_400 [OF Y(2,3)] mp(3) Y(1)
    by (simp add: doe_def)
  have doe: "0 \<le> doe" "doe \<le> 146500"
    using Y(2,3) mp d twelve_cases [OF mp(1,2)] by (auto simp: doe_def)
  have b: "in_i64 (era * 146097)" "in_i64 (era * 400)" "in_i64 Y" using te doe t(2,3) Y by (auto simp: in_i64_simps)
  have "floor_div Y 400 = era" "Y - era * 400 = yoe" using Y(1) by (simp_all add: floor_div_div era_def)
  moreover have "(if m \<le> 2 then checked_i64 (y - 1) else Some y) = Some Y" using b(3) by (simp add: Y_def split: if_splits)
  moreover have "checked_i64 (era * 400) = Some (era * 400)" "checked_i64 (era * 146097) = Some (era * 146097)"
    "checked_i64 (era * 146097 + doe) = Some (t + 719468)"
    using b t(3) te by simp_all
  moreover have "checked_i64 (t + 719468 - 719468) = Some t" using t(2) by simp
  ultimately show ?thesis
    unfolding days_from_civil_def by (simp only: Let_def Option.bind.simps mp_def [symmetric] doe_def [symmetric])
qed

lemma days_from_civil_Some:
  assumes m: "1 \<le> m" "m \<le> 12" and r: "days_from_civil y m d = Some t"
  shows "t = first_day (12 * y + int m - 1) + int d - 1"
proof -
  define Y mp where "Y = (if m \<le> 2 then y - 1 else y)" and "mp = int ((m + 9) mod 12)"
  have mp: "0 \<le> mp" "mp < 12" "12 * y + int m - 1 = 12 * Y + mp + 2"
    using m by (auto simp: Y_def mp_def mod_if)
  define era yoe where "era = Y div 400" and "yoe = Y mod 400"
  have Y: "Y = 400 * era + yoe" "0 \<le> yoe" "yoe < 400" by (simp_all add: era_def yoe_def)
  have "floor_div Y 400 = era" "Y - era * 400 = yoe" using Y(1) by (simp_all add: floor_div_div era_def)
  moreover have "(if m \<le> 2 then checked_i64 (y - 1) else Some y) \<noteq> None \<Longrightarrow> (if m \<le> 2 then checked_i64 (y - 1) else Some y) = Some Y"
    by (auto simp: Y_def checked_i64_def)
  ultimately have "t = era * 146097 + (yoe * 365 + yoe div 4 - yoe div 100 + ((153 * mp + 2) div 5 + int d - 1)) - 719468"
    using r unfolding days_from_civil_def Let_def mp_def [symmetric]
    by (cases "if m \<le> 2 then checked_i64 (y - 1) else Some y") (auto simp: bind_eq_Some_conv)
  moreover have "year_days Y = 146097 * era + year_days yoe" using year_days_era [of era yoe] Y(1) by simp
  ultimately show ?thesis
    unfolding mp(3) using first_day_shift [OF mp(1,2), of Y] year_days_400 [OF Y(2,3)] by simp
qed

lemma month_index:
  assumes "1 \<le> m" "m \<le> 12"
  shows "(12 * y + int m - 1) div 12 = y" "(12 * y + int m - 1) mod 12 = int m - 1"
proof -
  have e: "12 * y + int m - 1 = int m - 1 + y * 12" by simp
  show "(12 * y + int m - 1) div 12 = y" "(12 * y + int m - 1) mod 12 = int m - 1"
    unfolding e mod_mult_self1 using assms by (simp_all add: div_pos_pos_trivial)
qed

text \<open>The months partition the days.\<close>

lemma month_unique:
  assumes "first_day a \<le> z" "z < first_day (a + 1)" "first_day b \<le> z" "z < first_day (b + 1)"
  shows "a = b"
  using assms first_day_le [of "a + 1" b] first_day_le [of "b + 1" a] by linarith

lemma valid_date_month:
  "valid_date (y, m, d) \<longleftrightarrow> 1 \<le> m \<and> m \<le> 12 \<and> 1 \<le> d \<and> int d \<le> month_days (12 * y + int m - 1)"
  by (auto simp: valid_date_def month_days_def month_index)

text \<open>The date of a day, by its month.\<close>

lemma civil_from_days_unique:
  assumes "in_i64 (z + 719468)" "valid_date (y, m, d)" "first_day (12 * y + int m - 1) + int d = z + 1"
  shows "civil_from_days z = Some (y, m, d)"
proof -
  obtain y' m' d' where c: "civil_from_days z = Some (y', m', d')" "1 \<le> m'" "m' \<le> 12" "1 \<le> d'"
    "first_day (12 * y' + int m' - 1) + int d' = z + 1" "z < first_day (12 * y' + int m')"
    using civil_date_month [of z] civil_from_days_eq [OF assms(1)] by auto
  have v: "1 \<le> m" "m \<le> 12" "1 \<le> d" "int d \<le> month_days (12 * y + int m - 1)"
    using assms(2) by (simp_all add: valid_date_month)
  have "12 * y + int m - 1 = 12 * y' + int m' - 1"
    using assms(3) v c first_day_step [of "12 * y + int m - 1"] by (intro month_unique [of _ z]) auto
  then have "y = y'" "int m - 1 = int m' - 1" using month_index [OF v(1,2), of y] month_index [OF c(2,3), of y'] by simp_all
  then show ?thesis using c(1,5) assms(3) by simp
qed

lemma civil_from_days_valid:
  assumes "in_i64 (z + 719468)"
  obtains y m d where "civil_from_days z = Some (y, m, d)" "valid_date (y, m, d)" "first_day (12 * y + int m - 1) + int d = z + 1"
proof -
  obtain y m d where c: "civil_from_days z = Some (y, m, d)" "1 \<le> m" "m \<le> 12" "1 \<le> d"
    "first_day (12 * y + int m - 1) + int d = z + 1" "z < first_day (12 * y + int m)"
    using civil_date_month [of z] civil_from_days_eq [OF assms] by auto
  then show ?thesis using first_day_step [of "12 * y + int m - 1"] by (intro that [of y m d]) (auto simp: valid_date_month)
qed

lemma next_day_month:
  assumes "valid_date (y, m, d)"
  obtains y' m' d' where "next_day (y, m, d) = (y', m', d')" "valid_date (y', m', d')"
    "first_day (12 * y' + int m' - 1) + int d' = first_day (12 * y + int m - 1) + int d + 1"
proof -
  have v: "1 \<le> m" "m \<le> 12" "1 \<le> d" "int d \<le> month_days (12 * y + int m - 1)" using assms by (simp_all add: valid_date_month)
  have l: "month_length y (int m) = month_days (12 * y + int m - 1)" using v by (simp add: month_days_def month_index)
  have step: "first_day (12 * y + int m) = first_day (12 * y + int m - 1) + month_days (12 * y + int m - 1)"
    using first_day_step [of "12 * y + int m - 1"] by simp
  consider "int d < month_length y (int m)" | "int d = month_length y (int m)" "m < 12" | "int d = month_length y (int m)" "m = 12"
    using v l by fastforce
  then show ?thesis
  proof cases
    case 1
    then show ?thesis using v l by (intro that [of y m "d + 1"]) (auto simp: next_day_def valid_date_month)
  next
    case 2
    then show ?thesis using v l step month_days_bounds(1) [of "12 * y + int m"]
      by (intro that [of y "m + 1" 1]) (auto simp: next_day_def valid_date_month)
  next
    case 3
    then show ?thesis using v l step month_days_bounds(1) [of "12 * y + 12"]
      by (intro that [of "y + 1" 1 1]) (auto simp: next_day_def valid_date_month algebra_simps)
  qed
qed

text \<open>
  C9: the conversion between day counts and civil dates is the proleptic Gregorian calendar.
  Day 0 is 1970-01-01, the day after a date is the calendar's next day (month lengths and
  leap years included), every date produced is valid, the two conversions are inverse to each
  other, and nothing overflows on any day count below the top 719469 of \<open>i64\<close>.
\<close>

theorem civil_calendar:
  assumes "in_i64 z" "in_i64 (z + 719469)"
  shows "civil_from_days 0 = Some (1970, 1, 1) \<and>
    (\<exists>y m d. civil_from_days z = Some (y, m, d) \<and> valid_date (y, m, d) \<and> days_from_civil y m d = Some z \<and>
       civil_from_days (z + 1) = Some (next_day (y, m, d)) \<and>
       (\<forall>y' m' d'. valid_date (y', m', d') \<longrightarrow> days_from_civil y' m' d' = Some z \<longrightarrow> (y', m', d') = (y, m, d)))"
proof -
  have i: "in_i64 (z + 719468)" "in_i64 (z + 1 + 719468)" using assms by (auto simp: in_i64_simps)
  obtain y m d where c: "civil_from_days z = Some (y, m, d)" "valid_date (y, m, d)" "first_day (12 * y + int m - 1) + int d = z + 1"
    using civil_from_days_valid [OF i(1)] .
  have d: "d \<le> 31" using c(2) month_days_bounds(2) [of "12 * y + int m - 1"] by (simp add: valid_date_month)
  have day: "days_from_civil y m d = Some z"
    using c d assms(1) i(1) by (intro days_from_civil_value) (auto simp: valid_date_def)
  obtain y' m' d' where n: "next_day (y, m, d) = (y', m', d')" "valid_date (y', m', d')"
    "first_day (12 * y' + int m' - 1) + int d' = first_day (12 * y + int m - 1) + int d + 1"
    using next_day_month [OF c(2)] .
  have "civil_from_days (z + 1) = Some (next_day (y, m, d))"
    unfolding n(1) by (rule civil_from_days_unique [OF i(2) n(2)]) (simp add: n(3) c(3))
  moreover have "civil_from_days 0 = Some (1970, 1, 1)" by code_simp
  moreover have "(y', m', d') = (y, m, d)" if "valid_date (y', m', d')" "days_from_civil y' m' d' = Some z" for y' m' d'
  proof -
    have "first_day (12 * y' + int m' - 1) + int d' = z + 1"
      using days_from_civil_Some [OF _ _ that(2)] that(1) by (simp add: valid_date_def)
    then have "civil_from_days z = Some (y', m', d')" by (rule civil_from_days_unique [OF i(1) that(1)])
    then show ?thesis using c(1) by simp
  qed
  ultimately show ?thesis using c(1,2) day by blast
qed

theorem civil_calendar_witness:
  "\<exists>y m d. civil_from_days 11016 = Some (y, m, d) \<and> days_from_civil y m d = Some 11016 \<and> civil_from_days 11017 = Some (next_day (y, m, d)) \<and>
     (y, m, d) = (2000, 2, 29)"
proof -
  have "in_i64 11016" "in_i64 (11016 + 719469)" by (simp_all add: in_i64_simps)
  from civil_calendar [OF this] obtain y m d where c: "civil_from_days 11016 = Some (y, m, d)" "days_from_civil y m d = Some 11016"
    "civil_from_days 11017 = Some (next_day (y, m, d))"
    "\<forall>y' m' d'. valid_date (y', m', d') \<longrightarrow> days_from_civil y' m' d' = Some 11016 \<longrightarrow> (y', m', d') = (y, m, d)"
    by auto
  have "valid_date (2000, 2, 29)" "days_from_civil 2000 2 29 = Some 11016" by code_simp+
  then have "(2000, 2, 29) = (y, m, d)" using c(4) by blast
  then show ?thesis using c by auto
qed

section \<open>Buckets are intervals\<close>

text \<open>
  A bucketing maps an instant to the first instant of its bucket. The law gives every lemma a
  histogram needs, and it survives a coarser unit and a time zone.
\<close>

locale bucketing =
  fixes start :: "int \<Rightarrow> int"
  assumes start_le: "start x \<le> x"
    and start_same: "start x \<le> t \<Longrightarrow> t \<le> x \<Longrightarrow> start t = start x"
begin

lemma start_idem: "start (start x) = start x"
  by (rule start_same [OF order_refl start_le])

lemma start_mono: "x \<le> y \<Longrightarrow> start x \<le> start y"
  using start_le [of x] start_same [of y x] by (cases "start y \<le> x") auto

lemma scaled: "0 < k \<Longrightarrow> bucketing (\<lambda>x. k * start (x div k))"
proof
  fix x t :: int
  assume k: "0 < k"
  have "k * start (x div k) \<le> k * (x div k)" using k start_le by simp
  also have "\<dots> \<le> x" using mult_div_mod_eq [of k x] pos_mod_sign [OF k, of x] by linarith
  finally show "k * start (x div k) \<le> x" .
  assume t: "k * start (x div k) \<le> t" "t \<le> x"
  have "start (x div k) \<le> t div k" using zdiv_mono1 [OF t(1) k] k by simp
  moreover have "t div k \<le> x div k" by (rule zdiv_mono1 [OF t(2) k])
  ultimately show "k * start (t div k) = k * start (x div k)" using start_same by simp
qed

lemma shifted: "bucketing (\<lambda>x. start (x + c) - c)"
proof
  fix x t
  show "start (x + c) - c \<le> x" using start_le [of "x + c"] by simp
  assume "start (x + c) - c \<le> t" "t \<le> x"
  then show "start (t + c) - c = start (x + c) - c" using start_same [of "x + c" "t + c"] by simp
qed

end

interpretation instants: bucketing "\<lambda>x. x"
  by unfold_locales auto

definition month_of :: "int \<Rightarrow> int" where
  "month_of z = (case civil_date z of (y, m, _) \<Rightarrow> 12 * y + int m - 1)"

lemma month_of_range: "first_day (month_of z) \<le> z" "z < first_day (month_of z + 1)"
  using civil_date_month [of z] by (auto simp: month_of_def)

lemma month_of_ge: "first_day n \<le> z \<Longrightarrow> n \<le> month_of z"
  using month_of_range(2) [of z] first_day_le [of "month_of z + 1" n] by linarith

lemma month_of_mono: "x \<le> z \<Longrightarrow> month_of x \<le> month_of z"
  using month_of_range(1) [of x] by (intro month_of_ge) simp

lemma month_bucketing:
  assumes "bucketing S"
  shows "bucketing (\<lambda>z. first_day (S (month_of z)))"
proof
  fix z t
  show "first_day (S (month_of z)) \<le> z"
    using first_day_le [OF bucketing.start_le [OF assms, of "month_of z"]] month_of_range(1) [of z] by simp
  assume "first_day (S (month_of z)) \<le> t" "t \<le> z"
  then have "S (month_of t) = S (month_of z)"
    by (intro bucketing.start_same [OF assms] month_of_ge month_of_mono)
  then show "first_day (S (month_of t)) = first_day (S (month_of z))" by simp
qed

text \<open>The start of each unit's bucket, in seconds of local time.\<close>

definition unit_start :: "calendar_interval \<Rightarrow> int \<Rightarrow> int" where
  "unit_start unit secs =
     (case unit of
        IntervalMinute \<Rightarrow> 60 * (secs div 60)
      | IntervalHour \<Rightarrow> 3600 * (secs div 3600)
      | IntervalWeek \<Rightarrow> 86400 * (7 * ((secs div 86400 + 3) div 7) - 3)
      | IntervalMonth \<Rightarrow> 86400 * first_day (month_of (secs div 86400))
      | IntervalQuarter \<Rightarrow> 86400 * first_day (3 * (month_of (secs div 86400) div 3))
      | IntervalYear \<Rightarrow> 86400 * first_day (12 * (month_of (secs div 86400) div 12))
      | _ \<Rightarrow> 86400 * (secs div 86400))"

lemma unit_bucketing: "bucketing (unit_start unit)"
proof -
  have day: "bucketing (\<lambda>secs. 86400 * S (secs div 86400))" if "bucketing S" for S :: "int \<Rightarrow> int"
    by (rule bucketing.scaled [OF that]) simp
  have months: "bucketing (\<lambda>secs. 86400 * first_day (S (month_of (secs div 86400))))" if "bucketing S" for S
    by (rule day [OF month_bucketing [OF that]])
  have steps: "bucketing (\<lambda>x. k * (x div k))" if "0 < k" for k by (rule instants.scaled [OF that])
  have week: "bucketing (\<lambda>x. 7 * ((x + 3) div 7) - 3)" by (rule bucketing.shifted [OF steps]) simp
  have "unit_start unit = (case unit of
        IntervalMinute \<Rightarrow> (\<lambda>secs. 60 * (secs div 60))
      | IntervalHour \<Rightarrow> (\<lambda>secs. 3600 * (secs div 3600))
      | IntervalWeek \<Rightarrow> (\<lambda>secs. 86400 * (7 * ((secs div 86400 + 3) div 7) - 3))
      | IntervalMonth \<Rightarrow> (\<lambda>secs. 86400 * first_day (month_of (secs div 86400)))
      | IntervalQuarter \<Rightarrow> (\<lambda>secs. 86400 * first_day (3 * (month_of (secs div 86400) div 3)))
      | IntervalYear \<Rightarrow> (\<lambda>secs. 86400 * first_day (12 * (month_of (secs div 86400) div 12)))
      | _ \<Rightarrow> (\<lambda>secs. 86400 * (secs div 86400)))"
    by (rule ext) (cases unit; simp add: unit_start_def)
  then show ?thesis
    using steps [of 60] steps [of 3600] steps [of 86400] day [OF week] months [OF instants.bucketing_axioms] months [OF steps [of 3]]
      months [OF steps [of 12]]
    by (cases unit) (simp_all only: calendar_interval.case zero_less_numeral simp_thms)
qed

lemma first_day_near:
  assumes "0 \<le> k"
  shows "first_day (n + k) \<le> first_day n + 31 * k"
  using assms
proof (induction k rule: int_ge_induct)
  case (step k)
  have "first_day (n + (k + 1)) = first_day (n + k) + month_days (n + k)" using first_day_step [of "n + k"] by (simp add: add.assoc)
  then show ?case using step.IH month_days_bounds(2) [of "n + k"] by simp
qed simp

text \<open>The first day of a block of \<open>k\<close> months lies at most \<open>31 k\<close> days back.\<close>

lemma block_start_near:
  assumes "0 < k"
  shows "z < first_day (k * (month_of z div k)) + 31 * k" "first_day (k * (month_of z div k)) \<le> z"
proof -
  let ?b = "k * (month_of z div k)"
  have m: "?b \<le> month_of z" "month_of z + 1 \<le> ?b + k"
    using mult_div_mod_eq [of k "month_of z"] pos_mod_sign [OF assms, of "month_of z"] pos_mod_bound [OF assms, of "month_of z"] by linarith+
  show "z < first_day ?b + 31 * k"
    using month_of_range(2) [of z] first_day_le [OF m(2)] first_day_near [of k ?b] assms by simp
  show "first_day ?b \<le> z" using month_of_range(1) [of z] first_day_le [OF m(1)] by simp
qed

lemma date_of_month:
  assumes "civil_from_days z = Some (y, m, d)"
  shows "month_of z = 12 * y + int m - 1" "1 \<le> m" "m \<le> 12"
proof -
  have "civil_date z = (y, m, d)"
  proof (cases "in_i64 (z + 719468)")
    case True
    then show ?thesis using assms civil_from_days_eq [of z] by simp
  next
    case False
    then have "checked_i64 (z + 719468) = None" by simp
    then have "civil_from_days z = None" unfolding civil_from_days_def by (simp only: Option.bind.simps)
    then show ?thesis using assms by simp
  qed
  then show "month_of z = 12 * y + int m - 1" "1 \<le> m" "m \<le> 12" using civil_date_month [of z] by (auto simp: month_of_def)
qed

text \<open>The day counts of timestamps: nothing overflows on them.\<close>

lemma first_of_block:
  assumes "\<bar>z\<bar> \<le> 2 ^ 40" "0 < k" "k \<le> 12" "1 \<le> m'" "m' \<le> 12" "k * (month_of z div k) = 12 * y + int m' - 1"
  shows "days_from_civil y m' 1 = Some (first_day (k * (month_of z div k)))"
proof (rule days_from_civil_value [OF assms(4,5)])
  have "first_day (k * (month_of z div k)) \<le> z" "z < first_day (k * (month_of z div k)) + 372"
    using block_start_near [OF assms(2), of z] assms(3) by simp_all
  then show "in_i64 (first_day (k * (month_of z div k)))" "in_i64 (first_day (k * (month_of z div k)) + 719468)"
    using assms(1) by (auto simp: in_i64_simps)
qed (simp_all add: assms(6))

lemma month_start_of:
  assumes "\<bar>z\<bar> \<le> 2 ^ 40" "civil_from_days z = Some (y, m, d)"
  shows "days_from_civil y m 1 = Some (first_day (month_of z))"
    "days_from_civil y ((m - 1) div 3 * 3 + 1) 1 = Some (first_day (3 * (month_of z div 3)))"
    "days_from_civil y 1 1 = Some (first_day (12 * (month_of z div 12)))"
proof -
  note n = date_of_month [OF assms(2)]
  show "days_from_civil y m 1 = Some (first_day (month_of z))"
    using first_of_block [OF assms(1), of 1 m y] n by simp
  have "(12 * y + int m - 1) div 3 = 4 * y + int ((m - 1) div 3)"
  proof -
    have e: "12 * y + int m - 1 = int (m - 1) + (4 * y) * 3" using n by simp
    have "int (m - 1) div 3 = int ((m - 1) div 3)" by (simp add: zdiv_int)
    then show ?thesis unfolding e by simp
  qed
  then show "days_from_civil y ((m - 1) div 3 * 3 + 1) 1 = Some (first_day (3 * (month_of z div 3)))"
    using n by (intro first_of_block [OF assms(1)]) auto
  show "days_from_civil y 1 1 = Some (first_day (12 * (month_of z div 12)))"
    using n month_index(1) [OF n(2,3), of y] by (intro first_of_block [OF assms(1)]) auto
qed

lemma div_near: "0 < (k :: int) \<Longrightarrow> x < k * (x div k) + k \<and> k * (x div k) \<le> x"
  using mult_div_mod_eq [of k x] pos_mod_sign [of k x] pos_mod_bound [of k x] by linarith

lemma unit_start_near: "secs - 33000000 \<le> unit_start unit secs" "unit_start unit secs \<le> secs"
proof -
  define q where "q = secs div 86400"
  have s: "secs < 86400 * q + 86400" using div_near [of 86400 secs] by (simp add: q_def)
  have b: "q < first_day (month_of q) + 31" "q < first_day (3 * (month_of q div 3)) + 93" "q < first_day (12 * (month_of q div 12)) + 372"
    using block_start_near(1) [of 1 q] block_start_near(1) [of 3 q] block_start_near(1) [of 12 q] by simp_all
  define v where "v = (q + 3) div 7"
  have w: "q \<le> 7 * v - 3 + 6" using div_near [of 7 "q + 3"] by (simp add: v_def)
  have m: "secs < 60 * (secs div 60) + 60" "secs < 3600 * (secs div 3600) + 3600" using div_near [of 60 secs] div_near [of 3600 secs] by simp_all
  show "secs - 33000000 \<le> unit_start unit secs"
    unfolding unit_start_def q_def [symmetric] v_def [symmetric] using s b w m
    by (cases unit) simp_all
  show "unit_start unit secs \<le> secs" by (rule bucketing.start_le [OF unit_bucketing])
qed

lemma start_of_unit:
  assumes "\<bar>secs\<bar> \<le> 2 ^ 44" "unit \<noteq> IntervalUnspecified"
  shows "start_of secs (secs div 86400) unit = Some (Some (unit_start unit secs))"
proof -
  define q where "q = secs div 86400"
  have q: "86400 * q \<le> secs" "secs < 86400 * q + 86400" using div_near [of 86400 secs] by (simp_all add: q_def)
  then have qb: "\<bar>q\<bar> \<le> 2 ^ 40" "in_i64 (q + 719468)" using assms(1) by (auto simp: in_i64_simps)
  obtain y m d where c: "civil_from_days q = Some (y, m, d)" using civil_from_days_eq [OF qb(2)] by (cases "civil_date q") auto
  have i: "checked_i64 (unit_start unit secs) = Some (unit_start unit secs)"
    using unit_start_near [where secs = secs and unit = unit] assms(1) by (auto simp: in_i64_simps)
  have w: "7 * ((q + 3) div 7) - 3 = q - (q + 3) mod 7" using mult_div_mod_eq [of 7 "q + 3"] by linarith
  have k: "60 * (secs div 60) = secs - secs mod 60" "3600 * (secs div 3600) = secs - secs mod 3600"
    using mult_div_mod_eq [of 60 secs] mult_div_mod_eq [of 3600 secs] by linarith+
  show ?thesis
    using assms(2) i unfolding start_of_def unit_start_def q_def [symmetric] SECONDS_PER_DAY_def
    by (cases unit)
       (simp_all only: calendar_interval.case c month_start_of [OF qb(1) c] floor_mod_mod zero_less_numeral Option.bind.simps
          Let_def prod.case w k mult.commute [of _ 86400], simp_all)
qed

text \<open>The bucketing of instants in a zone, and what the checked arithmetic returns of it.\<close>

definition zone_start :: "calendar_interval \<Rightarrow> int \<Rightarrow> int \<Rightarrow> int" where
  "zone_start unit offset micros = 1000000 * unit_start unit ((micros + offset) div 1000000) - offset"

lemma zone_bucketing: "bucketing (zone_start unit offset)"
  unfolding zone_start_def [abs_def]
  by (rule bucketing.shifted [OF bucketing.scaled [OF unit_bucketing]]) simp

interpretation zone_buckets: bucketing "zone_start unit offset" for unit offset
  by (rule zone_bucketing)

lemma bucket_start_zone:
  assumes "in_i64 micros" "unit \<noteq> IntervalUnspecified" "\<bar>minutes\<bar> < 2 ^ 31"
  defines "offset \<equiv> minutes * 60000000"
  shows "bucket_start micros unit minutes =
    Some (if in_i64 (micros + offset) \<and> in_i64 (zone_start unit offset micros + offset) \<and> in_i64 (zone_start unit offset micros)
          then Some (zone_start unit offset micros) else None)"
proof -
  have o: "checked_i64 (minutes * 60) = Some (minutes * 60)" "checked_i64 (minutes * 60 * 1000000) = Some offset"
    using assms(3) by (auto simp: in_i64_simps offset_def)
  show ?thesis
  proof (cases "in_i64 (micros + offset)")
    case True
    define secs where "secs = (micros + offset) div 1000000"
    have z: "zone_start unit offset micros = 1000000 * unit_start unit secs - offset" by (simp add: zone_start_def secs_def)
    have "1000000 * secs \<le> micros + offset" "micros + offset < 1000000 * secs + 1000000"
      using div_near [of 1000000 "micros + offset"] by (simp_all add: secs_def)
    then have "\<bar>secs\<bar> \<le> 2 ^ 44" using True by (auto simp: in_i64_simps)
    then have "start_of secs (secs div 86400) unit = Some (Some (unit_start unit secs))" by (rule start_of_unit [OF _ assms(2)])
    moreover have "floor_div (micros + offset) 1000000 = secs" "floor_div secs 86400 = secs div 86400"
      by (simp_all add: floor_div_div secs_def)
    moreover have "checked_i64 (micros + offset) = Some (micros + offset)" using True by simp
    ultimately have "bucket_start micros unit minutes =
        or_return (checked_i64 (unit_start unit secs * 1000000)) (\<lambda>s. Some (checked_i64 (s - offset)))"
      unfolding bucket_start_def MICROS_PER_SECOND_def SECONDS_PER_DAY_def by (simp only: o or_return_simps Let_def Option.bind.simps)
    then show ?thesis using True by (simp add: z checked_i64_def mult.commute [of _ 1000000])
  next
    case False
    then have "checked_i64 (micros + offset) = None" by simp
    then show ?thesis using False
      unfolding bucket_start_def MICROS_PER_SECOND_def by (simp only: o or_return_simps simp_thms if_False)
  qed
qed



end
