(* ===== verification/Values.thy ===== *)
theory Values
  imports Value_Expr Float_Arith Calendar Filter_Resolve
begin

text \<open>
  Value expressions on the serving path (\<open>src/values.rs\<close>): resolution against a shard's
  tables, which finishes the type check, and evaluation per document. Evaluation relies on the
  type check in every \<open>unreachable!\<close> arm; a panic is the outer \<open>None\<close>, absence the inner one.
\<close>

section \<open>Lookups, types and values\<close>

text \<open>The trait \<open>ColumnLookup\<close>.\<close>

record column_lookup =
  cl_numeric_index :: "string \<Rightarrow> nat option"
  cl_integer_index :: "string \<Rightarrow> nat option"
  cl_unsigned_integer_index :: "string \<Rightarrow> nat option"
  cl_facet_index :: "string \<Rightarrow> nat option"
  cl_map_numeric_index :: "string \<Rightarrow> nat option"
  cl_map_numeric_key_ord :: "nat \<Rightarrow> string \<Rightarrow> u32 option"
  cl_map_integer_index :: "string \<Rightarrow> nat option"
  cl_map_integer_key_ord :: "nat \<Rightarrow> string \<Rightarrow> u32 option"
  cl_map_unsigned_integer_index :: "string \<Rightarrow> nat option"
  cl_map_unsigned_integer_key_ord :: "nat \<Rightarrow> string \<Rightarrow> u32 option"
  cl_map_facet_index :: "string \<Rightarrow> nat option"
  cl_map_facet_key_ord :: "nat \<Rightarrow> string \<Rightarrow> u32 option"
  cl_facet_value_ord_of :: "nat \<Rightarrow> string \<Rightarrow> u32 option"
  cl_map_facet_value_ord_of :: "nat \<Rightarrow> string \<Rightarrow> u32 option"
  cl_at_ingest :: bool

text \<open>A shard that serves (resident or mapped) answers from its tables.\<close>

definition shard_lookup :: "shard_tables \<Rightarrow> column_lookup" where
  "shard_lookup tb =
     \<lparr>cl_numeric_index = numeric_index tb, cl_integer_index = integer_index tb,
      cl_unsigned_integer_index = unsigned_integer_index tb, cl_facet_index = facet_index tb,
      cl_map_numeric_index = map_numeric_index tb, cl_map_numeric_key_ord = map_numeric_key_ord tb,
      cl_map_integer_index = map_integer_index tb, cl_map_integer_key_ord = map_integer_key_ord tb,
      cl_map_unsigned_integer_index = map_unsigned_integer_index tb,
      cl_map_unsigned_integer_key_ord = map_unsigned_integer_key_ord tb,
      cl_map_facet_index = map_facet_index tb, cl_map_facet_key_ord = map_facet_key_ord tb,
      cl_facet_value_ord_of = facet_value_ord_of tb, cl_map_facet_value_ord_of = map_facet_value_ord_of tb,
      cl_at_ingest = False\<rparr>"

datatype value_type = TInt | TUint | TDouble | TStr | TBool | TUnknown

datatype cmp_op = CmpEq | CmpNe | CmpLt | CmpLe | CmpGt | CmpGe

datatype arith_op = OpAdd | OpSub | OpMul | OpDiv | OpMod

datatype value_fn =
    FnAbs | FnSign | FnCeil | FnFloor | FnRound | FnTrunc | FnSqrt | FnIsNan | FnIsInf | FnIsFinite
  | FnGreatest | FnLeast | FnLn | FnExp | FnLog10 | FnPow | FnFnv64 | FnCalendarYear | FnCalendarMonth | FnCalendarDay

datatype resolved_value =
    NumCol nat
  | IntCol nat
  | UintCol nat
  | FacetCol nat
  | MapNum nat u32
  | MapInt nat "u32 option"
  | MapUint nat "u32 option"
  | MapFacet nat u32
  | Absent
  | StableKeyHash
  | ConstInt int
  | ConstUint u64
  | ConstDouble f64
  | Arith arith_op resolved_value resolved_value
  | ToDouble resolved_value
  | Negate resolved_value
  | ConstBool bool
  | Compare cmp_op resolved_value resolved_value
  | CompareStr bool resolved_value "u32 option"
  | Logic bool "resolved_value list"
  | NotValue resolved_value
  | Func value_fn "resolved_value list"
  | Ternary resolved_value resolved_value resolved_value

datatype val = ValInt int | ValUint u64 | ValDouble f64 | ValFacetOrd nat u32 | ValMapFacetOrd nat u32 | ValBool bool

definition refuse :: "string \<Rightarrow> status" where
  "refuse msg = (InvalidArgument, ''projection: '' @ msg)"

section \<open>Decoding\<close>

definition cmp_op_of :: "int \<Rightarrow> cmp_op result" where
  "cmp_op_of op =
     (if op = 1 then Inr CmpEq else if op = 2 then Inr CmpNe else if op = 3 then Inr CmpLt else if op = 4 then Inr CmpLe
      else if op = 5 then Inr CmpGt else if op = 6 then Inr CmpGe else Inl (refuse ''comparison node with an unknown operation''))"

definition arith_op_of :: "int \<Rightarrow> arith_op result" where
  "arith_op_of op =
     (if op = 1 then Inr OpAdd else if op = 2 then Inr OpSub else if op = 3 then Inr OpMul else if op = 4 then Inr OpDiv
      else if op = 5 then Inr OpMod else Inl (refuse ''arithmetic node with an unknown operation''))"

definition logic_op_of :: "int \<Rightarrow> bool result" where
  "logic_op_of op =
     (if op = 1 then Inr True else if op = 2 then Inr False else Inl (refuse ''logic node with an unknown operation''))"

definition value_fns :: "value_fn list" where
  "value_fns =
     [FnAbs, FnSign, FnCeil, FnFloor, FnRound, FnTrunc, FnSqrt, FnIsNan, FnIsInf, FnIsFinite, FnGreatest, FnLeast,
      FnLn, FnExp, FnLog10, FnPow, FnFnv64, FnCalendarYear, FnCalendarMonth, FnCalendarDay]"

definition value_fn_of :: "int \<Rightarrow> value_fn result" where
  "value_fn_of n =
     (if 1 \<le> n \<and> n \<le> 20 then Inr (value_fns ! nat (n - 1)) else Inl (refuse ''function node with an unknown function''))"

definition check_fn_arity :: "value_fn \<Rightarrow> nat \<Rightarrow> unit result" where
  "check_fn_arity f n =
     ensure (case f of FnGreatest \<Rightarrow> 1 \<le> n | FnLeast \<Rightarrow> 1 \<le> n | FnPow \<Rightarrow> n = 2 | _ \<Rightarrow> n = 1) (refuse ''{} takes {want}'')"

datatype fn_signature = SigNumeric bool | SigStringToUint | SigIntToInt

definition fn_signature_of :: "value_fn \<Rightarrow> fn_signature" where
  "fn_signature_of f =
     (case f of
        FnFnv64 \<Rightarrow> SigStringToUint
      | FnCalendarYear \<Rightarrow> SigIntToInt | FnCalendarMonth \<Rightarrow> SigIntToInt | FnCalendarDay \<Rightarrow> SigIntToInt
      | FnAbs \<Rightarrow> SigNumeric True | FnSign \<Rightarrow> SigNumeric True | FnGreatest \<Rightarrow> SigNumeric True | FnLeast \<Rightarrow> SigNumeric True
      | _ \<Rightarrow> SigNumeric False)"

definition is_ordering :: "cmp_op \<Rightarrow> bool" where
  "is_ordering op = (op \<noteq> CmpEq \<and> op \<noteq> CmpNe)"

definition string_ordering :: status where
  "string_ordering = refuse ''`{}` orders strings, which is not in the vocabulary; only `==` and `!=` compare strings''"

section \<open>Resolution\<close>

text \<open>Loops over operands: every item in order, the first refusal returned.\<close>

fun map_result :: "('a \<Rightarrow> 'e + 'b) \<Rightarrow> 'a list \<Rightarrow> 'e + 'b list" where
  "map_result f [] = Inr []"
| "map_result f (x # xs) = bind_result (f x) (\<lambda>y. bind_result (map_result f xs) (\<lambda>ys. Inr (y # ys)))"

lemma map_result_cong [fundef_cong]:
  "xs = ys \<Longrightarrow> (\<And>x. x \<in> set ys \<Longrightarrow> f x = g x) \<Longrightarrow> map_result f xs = map_result g ys"
  by (induction ys arbitrary: xs) auto

lemma fold_result_cong [fundef_cong]:
  "xs = ys \<Longrightarrow> s = t \<Longrightarrow> (\<And>x s. x \<in> set ys \<Longrightarrow> f x s = g x s) \<Longrightarrow> fold_result f xs s = fold_result g ys t"
  by (induction ys arbitrary: xs s t) (auto simp: bind_result_def split: sum.splits)

type_synonym typed = "resolved_value \<times> value_type"

definition resolve_column :: "column_lookup \<Rightarrow> string \<Rightarrow> typed result" where
  "resolve_column cols name =
     (let num = cl_numeric_index cols name; int = cl_integer_index cols name;
          uint = cl_unsigned_integer_index cols name; facet = cl_facet_index cols name
      in if 1 < length (filter (\<lambda>f. f \<noteq> None) [num, int, uint, facet])
         then Inl (refuse ''column {name:?} exists in more than one family on this shard; a value read cannot pick one'')
         else
           (case num of Some ni \<Rightarrow> Inr (NumCol ni, TDouble)
            | None \<Rightarrow> (case int of Some ii \<Rightarrow> Inr (IntCol ii, TInt)
            | None \<Rightarrow> (case uint of Some ui \<Rightarrow> Inr (UintCol ui, TUint)
            | None \<Rightarrow> (case facet of Some fi \<Rightarrow> Inr (FacetCol fi, TStr)
            | None \<Rightarrow> Inr (Absent, TUnknown))))))"

definition resolve_map_read :: "column_lookup \<Rightarrow> bool \<Rightarrow> string \<Rightarrow> string \<Rightarrow> typed result" where
  "resolve_map_read cols typed column key =
     (let num = cl_map_numeric_index cols column;
          facet = cl_map_facet_index cols column;
          int = (if typed then cl_map_integer_index cols column else None);
          uint = (if typed then cl_map_unsigned_integer_index cols column else None)
      in if 1 < length (filter (\<lambda>f. f \<noteq> None) [num, facet, int, uint])
         then Inl (refuse ''map column {:?} exists in multiple map families on this shard; a value read cannot pick one'')
         else
           (case int of Some ci \<Rightarrow> Inr (MapInt ci (cl_map_integer_key_ord cols ci key), TInt)
            | None \<Rightarrow> (case uint of Some ci \<Rightarrow> Inr (MapUint ci (cl_map_unsigned_integer_key_ord cols ci key), TUint)
            | None \<Rightarrow> (case num of Some ci \<Rightarrow>
                (case cl_map_numeric_key_ord cols ci key of
                   Some key_ord \<Rightarrow> Inr (MapNum ci key_ord, TDouble)
                 | None \<Rightarrow> Inr (Absent, if typed then TDouble else TUnknown))
            | None \<Rightarrow> (case facet of Some ci \<Rightarrow>
                (case cl_map_facet_key_ord cols ci key of
                   Some key_ord \<Rightarrow> Inr (MapFacet ci key_ord, TStr)
                 | None \<Rightarrow> Inr (Absent, if typed then TStr else TUnknown))
            | None \<Rightarrow> Inr (Absent, TUnknown))))))"

fun resolve_to_double :: "typed \<Rightarrow> typed result" where
  "resolve_to_double (rv, vt) =
     (if vt = TStr then Inl (refuse ''double() over a string column; strings do not convert'')
      else if vt = TBool then Inl (refuse ''double() over a bool; only numbers convert'')
      else Inr (ToDouble rv, TDouble))"

fun resolve_negate :: "typed \<Rightarrow> typed result" where
  "resolve_negate (rv, vt) =
     (if vt = TUint then Inl (refuse ''unary minus over a uint'')
      else if vt = TStr then Inl (refuse ''unary minus over a string column'')
      else if vt = TBool then Inl (refuse ''unary minus over a boolean; booleans negate with `!`'')
      else Inr (Negate rv, vt))"

fun resolve_arith :: "int \<Rightarrow> typed \<Rightarrow> typed \<Rightarrow> typed result" where
  "resolve_arith code (lrv, lt) (rrv, rt) =
     (if lt = TStr \<or> rt = TStr
      then Inl (refuse ''a string column joins no arithmetic; string projections are bare column reads'')
      else if lt = TBool \<or> rt = TBool
      then Inl (refuse ''a boolean joins no arithmetic; wrap it in a ternary that yields a number'')
      else
        bind_result (arith_op_of code) (\<lambda>op.
        bind_result
          (if lt = TUnknown \<or> rt = TUnknown then Inr TUnknown
           else if lt = rt then Inr lt
           else Inl (refuse ''arithmetic mixes numeric types; stock CEL does not coerce - convert explicitly with double()'')) (\<lambda>vt.
        if op = OpMod \<and> vt = TDouble then Inl (refuse ''`%` is integer-only in CEL; there is no double remainder'')
        else Inr (Arith op lrv rrv, vt))))"

fun lit_of :: "value_expr \<Rightarrow> string option" where
  "lit_of (VStringLiteral v) = Some v"
| "lit_of _ = None"

definition compare_literals :: "cmp_op \<Rightarrow> string \<Rightarrow> string \<Rightarrow> typed result" where
  "compare_literals op a b =
     (if is_ordering op then Inl string_ordering
      else Inr (ConstBool (if op = CmpNe then a \<noteq> b else a = b), TBool))"

fun compare_literal :: "column_lookup \<Rightarrow> cmp_op \<Rightarrow> string \<Rightarrow> typed \<Rightarrow> typed result" where
  "compare_literal cols op lit (rv, vt) =
     bind_result
       (case rv of
          FacetCol fi \<Rightarrow> Inr (cl_facet_value_ord_of cols fi lit)
        | MapFacet column _ \<Rightarrow> Inr (cl_map_facet_value_ord_of cols column lit)
        | Absent \<Rightarrow> Inr None
        | _ \<Rightarrow> Inl (refuse ''a string literal compares only against a direct facet or map-facet read, not a {} expression'')) (\<lambda>lit_ord.
     Inr (CompareStr (op = CmpNe) rv lit_ord, TBool))"

fun compare_values :: "cmp_op \<Rightarrow> typed \<Rightarrow> typed \<Rightarrow> typed result" where
  "compare_values op (lrv, lt) (rrv, rt) =
     (if lt = TUnknown \<or> rt = TUnknown then Inr (Absent, TUnknown)
      else if lt = TStr \<or> rt = TStr
      then if lt = rt then Inl (refuse ''comparing two string columns; compare each against a string literal'')
           else Inl (refuse ''a string column compares only against a string literal'')
      else if is_ordering op \<and> (lt = TBool \<or> rt = TBool)
      then Inl (refuse ''booleans do not order; only `==` and `!=` compare them'')
      else if lt \<noteq> rt
      then Inl (refuse ''a comparison mixes numeric types; stock CEL does not coerce - convert explicitly with double()'')
      else Inr (Compare op lrv rrv, TBool))"

text \<open>Function calls: the special signatures first, then the numeric argument loop.\<close>

fun resolve_string_fn :: "value_fn \<Rightarrow> typed \<Rightarrow> typed result" where
  "resolve_string_fn f (rv, vt) =
     (if vt = TStr then Inr (Func f [rv], TUint)
      else if vt = TUnknown then Inr (Absent, TUnknown)
      else Inl (refuse ''{display} takes a facet string, not a {}''))"

fun resolve_int_fn :: "value_fn \<Rightarrow> typed \<Rightarrow> typed result" where
  "resolve_int_fn f (rv, vt) =
     (if vt = TInt then Inr (Func f [rv], TInt)
      else if vt = TUnknown then Inr (Absent, TUnknown)
      else Inl (refuse ''{display} takes an int of epoch microseconds (a timestamp column), not a {}''))"

definition type_preserving :: "value_fn \<Rightarrow> bool" where
  "type_preserving f = (f \<in> {FnAbs, FnSign, FnGreatest, FnLeast})"

record numeric_args =
  na_args :: "resolved_value list"
  na_known :: "value_type option"
  na_absent :: bool

fun numeric_arg :: "typed \<Rightarrow> numeric_args \<Rightarrow> numeric_args result" where
  "numeric_arg (rv, vt) st =
     bind_result
       (if vt = TBool \<or> vt = TStr then Inl (refuse ''{display} over a {}; it takes numbers'')
        else if vt = TUnknown then Inr (st\<lparr>na_absent := True\<rparr>)
        else if na_known st \<noteq> None \<and> na_known st \<noteq> Some vt
        then Inl (refuse ''{display} mixes numeric types; stock CEL does not coerce - convert explicitly with double()'')
        else Inr (st\<lparr>na_known := Some vt\<rparr>)) (\<lambda>st.
     Inr (st\<lparr>na_args := na_args st @ [rv]\<rparr>))"

definition numeric_fn_type :: "value_fn \<Rightarrow> value_type option \<Rightarrow> value_type" where
  "numeric_fn_type f known =
     (if type_preserving f then (case known of None \<Rightarrow> TUnknown | Some t \<Rightarrow> t)
      else if f \<in> {FnIsNan, FnIsInf, FnIsFinite} then TBool else TDouble)"

definition resolve_numeric_fn :: "value_fn \<Rightarrow> numeric_args \<Rightarrow> typed result" where
  "resolve_numeric_fn f st =
     (if \<not> type_preserving f \<and> (na_known st = Some TInt \<or> na_known st = Some TUint)
      then Inl (refuse ''{display} takes a double; convert explicitly with double()'')
      else if na_absent st then Inr (Absent, TUnknown)
      else Inr (Func f (na_args st), numeric_fn_type f (na_known st)))"

fun logic_child :: "typed \<Rightarrow> resolved_value result" where
  "logic_child (rv, vt) =
     (if vt = TBool \<or> vt = TUnknown then Inr rv else Inl (refuse ''`{sym}` over a {}; Kleene logic joins booleans''))"

fun resolve_not :: "typed \<Rightarrow> typed result" where
  "resolve_not (rv, vt) =
     (if vt = TBool \<or> vt = TUnknown then Inr (NotValue rv, TBool)
      else Inl (refuse ''`!` over a {}; Kleene logic joins booleans''))"

fun resolve_cond :: "typed \<Rightarrow> resolved_value result" where
  "resolve_cond (rv, vt) =
     (if vt = TBool \<or> vt = TUnknown then Inr rv else Inl (refuse ''the ternary's condition is a {}; a condition is a boolean''))"

fun resolve_branches :: "resolved_value \<Rightarrow> typed \<Rightarrow> typed \<Rightarrow> typed result" where
  "resolve_branches crv (trv, tt) (erv, et) =
     bind_result
       (if tt = et then Inr tt
        else if tt = TUnknown then Inr et
        else if et = TUnknown then Inr tt
        else if (tt = TInt \<and> et = TDouble) \<or> (tt = TDouble \<and> et = TInt)
        then Inl (refuse ''the ternary's branches disagree: int versus double; stock CEL does not coerce - convert explicitly with double()'')
        else Inl (refuse ''the ternary's branches disagree: {} versus {}'')) (\<lambda>vt.
     Inr (Ternary crv trv erv, vt))"

text \<open>The arity check leaves no empty argument list; its refusal stands for that case.\<close>

fun resolve :: "column_lookup \<Rightarrow> value_expr \<Rightarrow> typed result" where
  "resolve cols VUnset = Inl (refuse ''empty ValueExpr node'')"
| "resolve cols (VColumn name) = resolve_column cols name"
| "resolve cols (VMap column key) = resolve_map_read cols False column key"
| "resolve cols (VTypedMap column key) = resolve_map_read cols True column key"
| "resolve cols (VIntLiteral v) = Inr (ConstInt v, TInt)"
| "resolve cols (VUintLiteral v) = Inr (ConstUint v, TUint)"
| "resolve cols (VFloatLiteral v) = Inr (ConstDouble v, TDouble)"
| "resolve cols VStableKeyHash =
     (if cl_at_ingest cols then Inr (StableKeyHash, TUint)
      else Inl (refuse ''hash.fnv64(stable_key()) computes at ingest, where the document's stable routing key is known; at query time read the derived column that stores it (docs/derived-columns.md)''))"
| "resolve cols (VToDouble inner) = bind_result (resolve cols inner) resolve_to_double"
| "resolve cols (VNegate inner) = bind_result (resolve cols inner) resolve_negate"
| "resolve cols (VArith op None right) = Inl (refuse ''arithmetic node without a left operand'')"
| "resolve cols (VArith op (Some left) None) = Inl (refuse ''arithmetic node without a right operand'')"
| "resolve cols (VArith op (Some left) (Some right)) =
     bind_result (resolve cols left) (\<lambda>l. bind_result (resolve cols right) (resolve_arith op l))"
| "resolve cols (VBoolLiteral v) = Inr (ConstBool v, TBool)"
| "resolve cols (VStringLiteral v) = Inl (refuse ''a string literal is not a value outside a `==`/`!=` comparison'')"
| "resolve cols (VCompare code left right) =
     bind_result (cmp_op_of code) (\<lambda>op.
     (case left of
        None \<Rightarrow> Inl (refuse ''comparison node without a left operand'')
      | Some l \<Rightarrow>
          (case right of
             None \<Rightarrow> Inl (refuse ''comparison node without a right operand'')
           | Some r \<Rightarrow>
               (case (lit_of l, lit_of r) of
                  (Some a, Some b) \<Rightarrow> compare_literals op a b
                | (Some lit, None) \<Rightarrow>
                    if is_ordering op then Inl string_ordering
                    else bind_result (resolve cols r) (compare_literal cols op lit)
                | (None, Some lit) \<Rightarrow>
                    if is_ordering op then Inl string_ordering
                    else bind_result (resolve cols l) (compare_literal cols op lit)
                | (None, None) \<Rightarrow>
                    bind_result (resolve cols l) (\<lambda>lt. bind_result (resolve cols r) (compare_values op lt))))))"
| "resolve cols (VFunc code args) =
     bind_result (value_fn_of code) (\<lambda>f.
     bind_result (check_fn_arity f (length args)) (\<lambda>_.
     (case fn_signature_of f of
        SigStringToUint \<Rightarrow>
          if \<not> cl_at_ingest cols
          then Inl (refuse ''{display} computes at ingest; at query time read the derived column that stores it (docs/derived-columns.md)'')
          else (case args of a # _ \<Rightarrow> bind_result (resolve cols a) (resolve_string_fn f) | [] \<Rightarrow> Inl (refuse ''{} takes {want}''))
      | SigIntToInt \<Rightarrow>
          (case args of a # _ \<Rightarrow> bind_result (resolve cols a) (resolve_int_fn f) | [] \<Rightarrow> Inl (refuse ''{} takes {want}''))
      | SigNumeric _ \<Rightarrow>
          bind_result
            (fold_result (\<lambda>a st. bind_result (resolve cols a) (\<lambda>t. numeric_arg t st)) args
               \<lparr>na_args = [], na_known = None, na_absent = False\<rparr>)
            (resolve_numeric_fn f))))"
| "resolve cols (VLogic code children) =
     bind_result (logic_op_of code) (\<lambda>is_and.
     if length children < 2 then Inl (refuse ''logic node with fewer than two operands'')
     else bind_result (map_result (\<lambda>c. bind_result (resolve cols c) logic_child) children) (\<lambda>rvs.
          Inr (Logic is_and rvs, TBool)))"
| "resolve cols (VNot inner) = bind_result (resolve cols inner) resolve_not"
| "resolve cols (VTernary None then_value else_value) = Inl (refuse ''ternary node without a condition'')"
| "resolve cols (VTernary (Some cond) None else_value) = Inl (refuse ''ternary node without a then-branch'')"
| "resolve cols (VTernary (Some cond) (Some then_value) None) = Inl (refuse ''ternary node without an else-branch'')"
| "resolve cols (VTernary (Some cond) (Some then_value) (Some else_value)) =
     bind_result (resolve cols cond) (\<lambda>c. bind_result (resolve_cond c) (\<lambda>crv.
     bind_result (resolve cols then_value) (\<lambda>t. bind_result (resolve cols else_value) (resolve_branches crv t))))"

section \<open>Evaluation\<close>

definition uint_arith :: "arith_op \<Rightarrow> u64 \<Rightarrow> u64 \<Rightarrow> u64 option" where
  "uint_arith op a b =
     (case op of
        OpAdd \<Rightarrow> checked_add_word a b
      | OpSub \<Rightarrow> if b \<le> a then Some (a - b) else None
      | OpMul \<Rightarrow> if unat a * unat b < 2 ^ 64 then Some (a * b) else None
      | OpDiv \<Rightarrow> if b = 0 then None else Some (a div b)
      | OpMod \<Rightarrow> if b = 0 then None else Some (a mod b))"

definition int_arith :: "arith_op \<Rightarrow> int \<Rightarrow> int \<Rightarrow> int option" where
  "int_arith op a b =
     (case op of
        OpAdd \<Rightarrow> checked_i64 (a + b)
      | OpSub \<Rightarrow> checked_i64 (a - b)
      | OpMul \<Rightarrow> checked_i64 (a * b)
      | OpDiv \<Rightarrow> if b = 0 then None else checked_i64 (a sdiv b)
      | OpMod \<Rightarrow> if b = 0 \<or> (a = i64_min \<and> b = - 1) then None else Some (a smod b))"

definition double_arith :: "arith_op \<Rightarrow> f64 \<Rightarrow> f64 \<Rightarrow> f64 option" where
  "double_arith op a b =
     (case op of
        OpAdd \<Rightarrow> Some (f64_add a b) | OpSub \<Rightarrow> Some (f64_sub a b)
      | OpMul \<Rightarrow> Some (f64_mul a b) | OpDiv \<Rightarrow> Some (f64_div a b) | OpMod \<Rightarrow> None)"

definition cmp_int :: "cmp_op \<Rightarrow> 'a::linorder \<Rightarrow> 'a \<Rightarrow> bool" where
  "cmp_int op a b =
     (case op of CmpEq \<Rightarrow> a = b | CmpNe \<Rightarrow> a \<noteq> b | CmpLt \<Rightarrow> a < b | CmpLe \<Rightarrow> a \<le> b | CmpGt \<Rightarrow> b < a | CmpGe \<Rightarrow> b \<le> a)"

definition cmp_double :: "cmp_op \<Rightarrow> f64 \<Rightarrow> f64 \<Rightarrow> bool" where
  "cmp_double op a b =
     (case op of
        CmpEq \<Rightarrow> f64_eq a b | CmpNe \<Rightarrow> \<not> f64_eq a b | CmpLt \<Rightarrow> f64_lt a b
      | CmpLe \<Rightarrow> f64_le a b | CmpGt \<Rightarrow> f64_lt b a | CmpGe \<Rightarrow> f64_le b a)"

definition civil_of_micros :: "int \<Rightarrow> (int \<times> nat \<times> nat) option" where
  "civil_of_micros micros = civil_from_days (floor_div micros 86400000000)"

fun as_double :: "val \<Rightarrow> f64 option" where
  "as_double (ValDouble x) = Some x"
| "as_double _ = None"

text \<open>The folds of \<open>math.greatest\<close> and \<open>math.least\<close>; an argument of another type is a panic.\<close>

fun extreme_int :: "bool \<Rightarrow> int \<Rightarrow> val list \<Rightarrow> int option" where
  "extreme_int greatest acc [] = Some acc"
| "extreme_int greatest acc (ValInt x # vs) =
     extreme_int greatest (if (greatest \<and> acc < x) \<or> (\<not> greatest \<and> x < acc) then x else acc) vs"
| "extreme_int greatest acc (_ # vs) = None"

fun extreme_uint :: "bool \<Rightarrow> u64 \<Rightarrow> val list \<Rightarrow> u64 option" where
  "extreme_uint greatest acc [] = Some acc"
| "extreme_uint greatest acc (ValUint x # vs) =
     extreme_uint greatest (if (greatest \<and> acc < x) \<or> (\<not> greatest \<and> x < acc) then x else acc) vs"
| "extreme_uint greatest acc (_ # vs) = None"

fun extreme_double :: "bool \<Rightarrow> f64 \<Rightarrow> val list \<Rightarrow> f64 option" where
  "extreme_double greatest acc [] = Some acc"
| "extreme_double greatest acc (ValDouble x # vs) =
     extreme_double greatest
       (if f64_is_nan x \<or> f64_is_nan acc then f64_nan
        else if (greatest \<and> f64_lt acc x) \<or> (\<not> greatest \<and> f64_lt x acc) then x else acc) vs"
| "extreme_double greatest acc (_ # vs) = None"

definition double_sign :: "f64 \<Rightarrow> f64" where
  "double_sign v =
     (if f64_is_nan v then v else if f64_lt 0 v then 0x3FF0000000000000 else if f64_lt v 0 then 0xBFF0000000000000 else 0)"

definition eval_unary_double :: "libm \<Rightarrow> value_fn \<Rightarrow> f64 \<Rightarrow> val option" where
  "eval_unary_double lm f x =
     (case f of
        FnCeil \<Rightarrow> Some (ValDouble (f64_integral f64_ceil x))
      | FnFloor \<Rightarrow> Some (ValDouble (f64_integral f64_floor x))
      | FnRound \<Rightarrow> Some (ValDouble (f64_integral f64_round_int x))
      | FnTrunc \<Rightarrow> Some (ValDouble (f64_integral f64_trunc_int x))
      | FnSqrt \<Rightarrow> Some (ValDouble (lm_sqrt lm x))
      | FnLn \<Rightarrow> Some (ValDouble (lm_ln lm x))
      | FnExp \<Rightarrow> Some (ValDouble (lm_exp lm x))
      | FnLog10 \<Rightarrow> Some (ValDouble (lm_log10 lm x))
      | FnIsNan \<Rightarrow> Some (ValBool (f64_is_nan x))
      | FnIsInf \<Rightarrow> Some (ValBool (f64_is_infinite x))
      | FnIsFinite \<Rightarrow> Some (ValBool (f64_is_finite x))
      | _ \<Rightarrow> None)"

definition eval_fn :: "libm \<Rightarrow> value_fn \<Rightarrow> val list \<Rightarrow> val option option" where
  "eval_fn lm f vals =
     (case vals of
        [] \<Rightarrow> None
      | v0 # rest \<Rightarrow>
         (case f of
            FnAbs \<Rightarrow>
              (case v0 of
                 ValInt v \<Rightarrow> Some (map_option ValInt (checked_i64 \<bar>v\<bar>))
               | ValUint v \<Rightarrow> Some (Some (ValUint v))
               | ValDouble v \<Rightarrow> Some (Some (ValDouble (f64_abs v)))
               | _ \<Rightarrow> None)
          | FnSign \<Rightarrow>
              (case v0 of
                 ValInt v \<Rightarrow> Some (Some (ValInt (sgn v)))
               | ValUint v \<Rightarrow> Some (Some (ValUint (if v \<noteq> 0 then 1 else 0)))
               | ValDouble v \<Rightarrow> Some (Some (ValDouble (double_sign v)))
               | _ \<Rightarrow> None)
          | FnPow \<Rightarrow>
              Option.bind (as_double v0) (\<lambda>x.
              Option.bind (case rest of [] \<Rightarrow> None | v1 # _ \<Rightarrow> as_double v1) (\<lambda>y.
              Some (Some (ValDouble (lm_powf lm x y)))))
          | FnFnv64 \<Rightarrow> None
          | FnCalendarYear \<Rightarrow> (case v0 of ValInt t \<Rightarrow> map_option (\<lambda>(y, _, _). Some (ValInt y)) (civil_of_micros t) | _ \<Rightarrow> None)
          | FnCalendarMonth \<Rightarrow> (case v0 of ValInt t \<Rightarrow> map_option (\<lambda>(_, m, _). Some (ValInt (int m))) (civil_of_micros t) | _ \<Rightarrow> None)
          | FnCalendarDay \<Rightarrow> (case v0 of ValInt t \<Rightarrow> map_option (\<lambda>(_, _, d). Some (ValInt (int d))) (civil_of_micros t) | _ \<Rightarrow> None)
          | FnGreatest \<Rightarrow>
              (case v0 of
                 ValInt x \<Rightarrow> map_option (Some \<circ> ValInt) (extreme_int True x rest)
               | ValUint x \<Rightarrow> map_option (Some \<circ> ValUint) (extreme_uint True x rest)
               | ValDouble x \<Rightarrow> map_option (Some \<circ> ValDouble) (extreme_double True x rest)
               | _ \<Rightarrow> None)
          | FnLeast \<Rightarrow>
              (case v0 of
                 ValInt x \<Rightarrow> map_option (Some \<circ> ValInt) (extreme_int False x rest)
               | ValUint x \<Rightarrow> map_option (Some \<circ> ValUint) (extreme_uint False x rest)
               | ValDouble x \<Rightarrow> map_option (Some \<circ> ValDouble) (extreme_double False x rest)
               | _ \<Rightarrow> None)
          | _ \<Rightarrow> Option.bind (as_double v0) (\<lambda>x. map_option Some (eval_unary_double lm f x))))"

text \<open>The operator \<open>?\<close> on an evaluation: a panic and an absence both end it.\<close>

definition on_value :: "'a option option \<Rightarrow> ('a \<Rightarrow> 'b option option) \<Rightarrow> 'b option option" where
  "on_value x f = Option.bind x (\<lambda>v. or_return v f)"

lemma on_value_simps [simp]:
  "on_value None f = None" "on_value (Some None) f = Some None" "on_value (Some (Some v)) f = f v"
  by (simp_all add: on_value_def)

text \<open>The loops over operands, given the operands' evaluations in order.\<close>

fun logic_loop :: "bool \<Rightarrow> bool \<Rightarrow> val option option list \<Rightarrow> val option option" where
  "logic_loop is_and absent [] = Some (if absent then None else Some (ValBool is_and))"
| "logic_loop is_and absent (r # rs) =
     (case r of
        None \<Rightarrow> None
      | Some None \<Rightarrow> logic_loop is_and True rs
      | Some (Some (ValBool b)) \<Rightarrow> if b \<noteq> is_and then Some (Some (ValBool (\<not> is_and))) else logic_loop is_and absent rs
      | Some (Some _) \<Rightarrow> None)"

fun collect_values :: "val option option list \<Rightarrow> val list option option" where
  "collect_values [] = Some (Some [])"
| "collect_values (r # rs) = on_value r (\<lambda>v. on_value (collect_values rs) (\<lambda>vs. Some (Some (v # vs))))"

fun eval_to_double :: "val \<Rightarrow> val option option" where
  "eval_to_double (ValInt v) = Some (Some (ValDouble (f64_of_int v)))"
| "eval_to_double (ValUint v) = Some (Some (ValDouble (f64_of_int (uint v))))"
| "eval_to_double (ValDouble v) = Some (Some (ValDouble v))"
| "eval_to_double _ = None"

fun eval_negate :: "val \<Rightarrow> val option option" where
  "eval_negate (ValInt v) = Some (map_option ValInt (checked_i64 (- v)))"
| "eval_negate (ValDouble v) = Some (Some (ValDouble (f64_neg v)))"
| "eval_negate _ = None"

fun eval_arith :: "arith_op \<Rightarrow> val \<Rightarrow> val \<Rightarrow> val option option" where
  "eval_arith op (ValInt a) (ValInt b) = Some (map_option ValInt (int_arith op a b))"
| "eval_arith op (ValUint a) (ValUint b) = Some (map_option ValUint (uint_arith op a b))"
| "eval_arith op (ValDouble a) (ValDouble b) = map_option (Some \<circ> ValDouble) (double_arith op a b)"
| "eval_arith op _ _ = None"

fun eval_compare :: "cmp_op \<Rightarrow> val \<Rightarrow> val \<Rightarrow> val option option" where
  "eval_compare op (ValInt a) (ValInt b) = Some (Some (ValBool (cmp_int op a b)))"
| "eval_compare op (ValUint a) (ValUint b) = Some (Some (ValBool (cmp_int op a b)))"
| "eval_compare op (ValDouble a) (ValDouble b) = Some (Some (ValBool (cmp_double op a b)))"
| "eval_compare op (ValBool a) (ValBool b) =
     (case op of CmpEq \<Rightarrow> Some (Some (ValBool (a = b))) | CmpNe \<Rightarrow> Some (Some (ValBool (a \<noteq> b))) | _ \<Rightarrow> None)"
| "eval_compare op _ _ = None"

fun eval_compare_str :: "bool \<Rightarrow> u32 option \<Rightarrow> val \<Rightarrow> val option option" where
  "eval_compare_str ne lit_ord (ValFacetOrd column ord) = Some (Some (ValBool ((lit_ord = Some ord) \<noteq> ne)))"
| "eval_compare_str ne lit_ord (ValMapFacetOrd column ord) = Some (Some (ValBool ((lit_ord = Some ord) \<noteq> ne)))"
| "eval_compare_str ne lit_ord _ = None"

fun eval_not :: "val \<Rightarrow> val option option" where
  "eval_not (ValBool b) = Some (Some (ValBool (\<not> b)))"
| "eval_not _ = None"

fun eval :: "libm \<Rightarrow> resolved_value \<Rightarrow> u32 \<Rightarrow> numeric_read \<Rightarrow> val option option" where
  "eval lm (NumCol ni) doc cols = Some (map_option ValDouble (num_value cols ni doc))"
| "eval lm (IntCol ii) doc cols = Some (map_option ValInt (int_value cols ii doc))"
| "eval lm (UintCol ui) doc cols = Some (map_option ValUint (uint_value cols ui doc))"
| "eval lm (FacetCol fi) doc cols = Some (map_option (ValFacetOrd fi) (facet_ord cols fi doc))"
| "eval lm (MapNum column key_ord) doc cols = Some (map_option ValDouble (map_value cols column key_ord doc))"
| "eval lm (MapInt column key_ord) doc cols =
     Some (map_option ValInt (Option.bind key_ord (\<lambda>key. map_int_value cols column key doc)))"
| "eval lm (MapUint column key_ord) doc cols =
     Some (map_option ValUint (Option.bind key_ord (\<lambda>key. map_uint_value cols column key doc)))"
| "eval lm (MapFacet column key_ord) doc cols =
     Some (map_option (ValMapFacetOrd column) (map_facet_value_ord cols column key_ord doc))"
| "eval lm Absent doc cols = Some None"
| "eval lm StableKeyHash doc cols = None"
| "eval lm (ConstInt v) doc cols = Some (Some (ValInt v))"
| "eval lm (ConstUint v) doc cols = Some (Some (ValUint v))"
| "eval lm (ConstDouble v) doc cols = Some (Some (ValDouble v))"
| "eval lm (ToDouble inner) doc cols = on_value (eval lm inner doc cols) eval_to_double"
| "eval lm (Negate inner) doc cols = on_value (eval lm inner doc cols) eval_negate"
| "eval lm (Arith op left right) doc cols =
     on_value (eval lm left doc cols) (\<lambda>l. on_value (eval lm right doc cols) (eval_arith op l))"
| "eval lm (ConstBool v) doc cols = Some (Some (ValBool v))"
| "eval lm (Compare op left right) doc cols =
     on_value (eval lm left doc cols) (\<lambda>l. on_value (eval lm right doc cols) (eval_compare op l))"
| "eval lm (CompareStr ne read lit_ord) doc cols = on_value (eval lm read doc cols) (eval_compare_str ne lit_ord)"
| "eval lm (Logic is_and children) doc cols = logic_loop is_and False (map (\<lambda>c. eval lm c doc cols) children)"
| "eval lm (NotValue inner) doc cols = on_value (eval lm inner doc cols) eval_not"
| "eval lm (Func f args) doc cols = on_value (collect_values (map (\<lambda>a. eval lm a doc cols) args)) (eval_fn lm f)"
| "eval lm (Ternary cond then_value otherwise) doc cols =
     on_value (eval lm cond doc cols) (\<lambda>c.
       (case c of
          ValBool True \<Rightarrow> eval lm then_value doc cols
        | ValBool False \<Rightarrow> eval lm otherwise doc cols
        | _ \<Rightarrow> None))"

end
