(* ===== verification/Value_Types.thy ===== *)
theory Value_Types
  imports Values
begin

text \<open>
  The type check of value expressions is sound: an expression that resolves at query time
  evaluates on every document without reaching an \<open>unreachable!\<close>, and to a value of its type.
\<close>

section \<open>Types are respected\<close>

fun has_type :: "val \<Rightarrow> value_type \<Rightarrow> bool" where
  "has_type (ValInt v) t = (t = TInt \<and> in_i64 v)"
| "has_type (ValUint v) t = (t = TUint)"
| "has_type (ValDouble v) t = (t = TDouble)"
| "has_type (ValFacetOrd c v) t = (t = TStr)"
| "has_type (ValMapFacetOrd c v) t = (t = TStr)"
| "has_type (ValBool v) t = (t = TBool)"

text \<open>What the types of the storage and of the wire give: every stored and literal int is an \<open>i64\<close>.\<close>

definition reads_i64 :: "numeric_read \<Rightarrow> bool" where
  "reads_i64 cols \<longleftrightarrow>
     (\<forall>ii doc v. int_value cols ii doc = Some v \<longrightarrow> in_i64 v) \<and>
     (\<forall>ci key doc v. map_int_value cols ci key doc = Some v \<longrightarrow> in_i64 v)"

fun literals_i64 :: "value_expr \<Rightarrow> bool" where
  "literals_i64 (VIntLiteral v) = in_i64 v"
| "literals_i64 (VArith op left right) =
     (list_all id (opt_list (map_option literals_i64 left)) \<and> list_all id (opt_list (map_option literals_i64 right)))"
| "literals_i64 (VToDouble inner) = literals_i64 inner"
| "literals_i64 (VNegate inner) = literals_i64 inner"
| "literals_i64 (VNot inner) = literals_i64 inner"
| "literals_i64 (VCompare op left right) =
     (list_all id (opt_list (map_option literals_i64 left)) \<and> list_all id (opt_list (map_option literals_i64 right)))"
| "literals_i64 (VLogic op children) = list_all id (map literals_i64 children)"
| "literals_i64 (VFunc f args) = list_all id (map literals_i64 args)"
| "literals_i64 (VTernary cond then_value else_value) =
     (list_all id (opt_list (map_option literals_i64 cond)) \<and> list_all id (opt_list (map_option literals_i64 then_value)) \<and>
      list_all id (opt_list (map_option literals_i64 else_value)))"
| "literals_i64 _ = True"

text \<open>An evaluation is sound for a type when it returns, and returns only values of that type.\<close>

definition yields :: "val option option \<Rightarrow> value_type \<Rightarrow> bool" where
  "yields x t \<longleftrightarrow> (\<exists>r. x = Some r \<and> (\<forall>v. r = Some v \<longrightarrow> has_type v t))"

lemma yields_simps [simp]:
  "yields None t \<longleftrightarrow> False" "yields (Some None) t" "yields (Some (Some v)) t \<longleftrightarrow> has_type v t"
  by (simp_all add: yields_def)

lemma has_type_iff [simp]:
  "has_type v TInt \<longleftrightarrow> (\<exists>i. v = ValInt i \<and> in_i64 i)"
  "has_type v TUint \<longleftrightarrow> (\<exists>i. v = ValUint i)"
  "has_type v TDouble \<longleftrightarrow> (\<exists>x. v = ValDouble x)"
  "has_type v TStr \<longleftrightarrow> (\<exists>c i. v = ValFacetOrd c i \<or> v = ValMapFacetOrd c i)"
  "has_type v TBool \<longleftrightarrow> (\<exists>b. v = ValBool b)"
  "has_type v TUnknown \<longleftrightarrow> False"
  by (cases v; simp)+

lemma yields_map:
  "(\<And>x. y = Some x \<Longrightarrow> has_type (f x) t) \<Longrightarrow> yields (Some (map_option f y)) t"
  by (cases y) simp_all

lemma yields_on:
  assumes "yields x t" "\<And>v. has_type v t \<Longrightarrow> yields (f v) t'"
  shows "yields (on_value x f) t'"
proof -
  obtain r where "x = Some r" "\<forall>v. r = Some v \<longrightarrow> has_type v t" using assms(1) by (auto simp: yields_def)
  then show ?thesis using assms(2) by (cases r) simp_all
qed

lemma yields_unknown: "yields x TUnknown \<longleftrightarrow> x = Some None"
  by (auto simp: yields_def)

lemma yields_absent: "yields x TUnknown \<Longrightarrow> yields x t"
  by (simp add: yields_unknown)

section \<open>Operators\<close>

lemma yields_to_double: "t \<notin> {TStr, TBool} \<Longrightarrow> has_type v t \<Longrightarrow> yields (eval_to_double v) TDouble"
  by (cases t) auto

lemma yields_negate: "t \<notin> {TUint, TStr, TBool} \<Longrightarrow> has_type v t \<Longrightarrow> yields (eval_negate v) t"
  by (cases t) (auto intro!: yields_map)

lemma int_arith_i64:
  assumes "int_arith op a b = Some c" "in_i64 a" "in_i64 b"
  shows "in_i64 c"
proof (cases op)
  case OpMod
  then have c: "c = a smod b" "b \<noteq> 0" using assms(1) by (auto simp: int_arith_def split: if_splits)
  have "\<bar>a smod b\<bar> < \<bar>b\<bar>" using c(2) unfolding signed_modulo_int_def by (auto simp: abs_mult sgn_if abs_mod_less)
  then show ?thesis using c assms(3) by (auto simp: in_i64_simps)
qed (use assms in \<open>auto simp: int_arith_def split: if_splits\<close>)

lemma yields_arith:
  assumes "t \<in> {TInt, TUint, TDouble}" "\<not> (op = OpMod \<and> t = TDouble)" "has_type l t" "has_type r t"
  shows "yields (eval_arith op l r) t"
proof -
  consider "t = TInt" | "t = TUint" | "t = TDouble" "op \<noteq> OpMod" using assms(1,2) by auto
  then show ?thesis
  proof cases
    case 1
    then obtain a b where v: "l = ValInt a" "r = ValInt b" "in_i64 a" "in_i64 b" using assms(3,4) by auto
    have "yields (Some (map_option ValInt (int_arith op a b))) TInt"
      by (rule yields_map) (simp add: int_arith_i64 [OF _ v(3,4)])
    then show ?thesis using 1 v by simp
  next
    case 2
    then obtain a b where v: "l = ValUint a" "r = ValUint b" using assms(3,4) by auto
    have "yields (Some (map_option ValUint (uint_arith op a b))) TUint" by (rule yields_map) simp
    then show ?thesis using 2 v by simp
  next
    case 3
    then show ?thesis using assms(3,4) by (cases op) (auto simp: double_arith_def)
  qed
qed

lemma yields_compare:
  assumes "t \<in> {TInt, TUint, TDouble, TBool}" "\<not> (is_ordering op \<and> t = TBool)" "has_type l t" "has_type r t"
  shows "yields (eval_compare op l r) TBool"
  using assms by (cases op) (auto simp: is_ordering_def)

lemma yields_compare_str: "has_type v TStr \<Longrightarrow> yields (eval_compare_str ne lit v) TBool"
  by auto

lemma yields_not: "has_type v TBool \<Longrightarrow> yields (eval_not v) TBool"
  by auto

lemma yields_logic:
  "list_all (\<lambda>r. yields r TBool) rs \<Longrightarrow> yields (logic_loop is_and absent rs) TBool"
proof (induction rs arbitrary: absent)
  case (Cons r rs)
  then have "yields r TBool" by simp
  then consider "r = Some None" | b where "r = Some (Some (ValBool b))" unfolding yields_def by (metis has_type_iff(5) not_Some_eq)
  then show ?case using Cons by cases auto
qed simp

section \<open>Functions\<close>

lemma collect_values_typed:
  "list_all (\<lambda>r. yields r t) rs \<Longrightarrow>
   \<exists>q. collect_values rs = Some q \<and> (\<forall>vs. q = Some vs \<longrightarrow> list_all (\<lambda>v. has_type v t) vs \<and> length vs = length rs)"
proof (induction rs)
  case (Cons r rs)
  then obtain q where q: "collect_values rs = Some q" "\<forall>vs. q = Some vs \<longrightarrow> list_all (\<lambda>v. has_type v t) vs \<and> length vs = length rs" by auto
  obtain x where x: "r = Some x" "\<forall>v. x = Some v \<longrightarrow> has_type v t" using Cons.prems by (auto simp: yields_def)
  show ?case
  proof (cases "x = None \<or> q = None")
    case True
    then show ?thesis using q(1) x by (cases x; cases q) simp_all
  next
    case False
    then show ?thesis using q x by auto
  qed
qed simp

lemma extreme_typed:
  "list_all (\<lambda>v. has_type v TInt) vs \<Longrightarrow> in_i64 i \<Longrightarrow> \<exists>x. extreme_int g i vs = Some x \<and> in_i64 x"
  "list_all (\<lambda>v. has_type v TUint) vs \<Longrightarrow> \<exists>x. extreme_uint g u vs = Some x"
  "list_all (\<lambda>v. has_type v TDouble) vs \<Longrightarrow> \<exists>x. extreme_double g d vs = Some x"
  by (induction vs arbitrary: i u d) auto

text \<open>Calendar functions of a timestamp: the day count is far from the ends of \<open>i64\<close>.\<close>

lemma first_day_far:
  assumes "0 \<le> k"
  shows "first_day n + 28 * k \<le> first_day (n + k)"
  using assms
proof (induction k rule: int_ge_induct)
  case (step k)
  have "first_day (n + (k + 1)) = first_day (n + k) + month_days (n + k)" using first_day_step [of "n + k"] by (simp add: add.assoc)
  then show ?case using step.IH month_days_bounds(1) [of "n + k"] by simp
qed simp

lemma month_of_bound:
  assumes "\<bar>z\<bar> \<le> 2 ^ 40"
  shows "\<bar>month_of z\<bar> \<le> 2 ^ 41"
proof -
  have f0: "first_day 0 = -719528" by (simp add: first_day_def year_days_def)
  note r = month_of_range [of z]
  show ?thesis
  proof (cases "0 \<le> month_of z")
    case True
    then show ?thesis using first_day_far [of "month_of z" 0] r(1) f0 assms by simp
  next
    case False
    then show ?thesis using first_day_far [of "- month_of z - 1" "month_of z + 1"] r(2) f0 assms by simp
  qed
qed

lemma civil_of_micros_i64:
  assumes "in_i64 t"
  obtains y m d where "civil_of_micros t = Some (y, m, d)" "in_i64 y" "m \<le> 12" "d \<le> 31"
proof -
  define z where "z = t div 86400000000"
  have z: "\<bar>z\<bar> \<le> 2 ^ 40" "in_i64 (z + 719468)"
    using div_near [of 86400000000 t] assms by (auto simp: z_def in_i64_simps)
  obtain y m d where c: "civil_from_days z = Some (y, m, d)" "valid_date (y, m, d)" using civil_from_days_valid [OF z(2)] by blast
  have "\<bar>12 * y + int m - 1\<bar> \<le> 2 ^ 41" using month_of_bound [OF z(1)] date_of_month(1) [OF c(1)] by simp
  then have "in_i64 y" using c(2) by (auto simp: in_i64_simps valid_date_def)
  moreover have "d \<le> 31" "m \<le> 12" using c(2) month_days_bounds(2) [of "12 * y + int m - 1"] by (simp_all add: valid_date_month)
  ultimately show ?thesis using c(1) by (intro that [of y m d]) (simp_all add: civil_of_micros_def floor_div_div z_def)
qed

lemma in_i64_nat: "n \<le> 31 \<Longrightarrow> in_i64 (int n)"
  by (simp add: in_i64_simps)

lemma yields_calendar:
  assumes "fn_signature_of f = SigIntToInt" "has_type v TInt"
  shows "yields (eval_fn lm f [v]) TInt"
proof -
  obtain t where t: "v = ValInt t" "in_i64 t" using assms(2) by auto
  obtain y m d where "civil_of_micros t = Some (y, m, d)" "in_i64 y" "m \<le> 12" "d \<le> 31" using civil_of_micros_i64 [OF t(2)] .
  then show ?thesis using assms(1) t(1) in_i64_nat [of m] in_i64_nat [of d] by (cases f) (simp_all add: fn_signature_of_def eval_fn_def)
qed

lemma yields_abs: "t \<in> {TInt, TUint, TDouble} \<Longrightarrow> has_type v t \<Longrightarrow> yields (eval_fn lm FnAbs (v # vs)) t"
  by (auto simp: eval_fn_def checked_i64_def)

lemma yields_sign: "t \<in> {TInt, TUint, TDouble} \<Longrightarrow> has_type v t \<Longrightarrow> yields (eval_fn lm FnSign (v # vs)) t"
  by (auto simp: eval_fn_def in_i64_simps sgn_if)

lemma yields_extreme:
  assumes "f \<in> {FnGreatest, FnLeast}" "t \<in> {TInt, TUint, TDouble}" "list_all (\<lambda>v. has_type v t) (v # vs)"
  shows "yields (eval_fn lm f (v # vs)) t"
proof -
  consider "t = TInt" | "t = TUint" | "t = TDouble" using assms(2) by auto
  then show ?thesis
  proof cases
    case 1
    then obtain i where i: "v = ValInt i" "in_i64 i" "list_all (\<lambda>v. has_type v TInt) vs" using assms(3) by auto
    then show ?thesis using assms(1) 1 extreme_typed(1) [OF i(3,2), of True] extreme_typed(1) [OF i(3,2), of False] by (auto simp: eval_fn_def)
  next
    case 2
    then obtain i where i: "v = ValUint i" "list_all (\<lambda>v. has_type v TUint) vs" using assms(3) by auto
    then show ?thesis using assms(1) 2 extreme_typed(2) [OF i(2), of True i] extreme_typed(2) [OF i(2), of False i] by (auto simp: eval_fn_def)
  next
    case 3
    then obtain i where i: "v = ValDouble i" "list_all (\<lambda>v. has_type v TDouble) vs" using assms(3) by auto
    then show ?thesis using assms(1) 3 extreme_typed(3) [OF i(2), of True i] extreme_typed(3) [OF i(2), of False i] by (auto simp: eval_fn_def)
  qed
qed

lemma yields_double_fn:
  assumes "fn_signature_of f = SigNumeric False" "f \<noteq> FnPow" "has_type v TDouble"
  shows "yields (eval_fn lm f (v # vs)) (numeric_fn_type f k)"
  using assms by (cases f) (auto simp: eval_fn_def fn_signature_of_def eval_unary_double_def numeric_fn_type_def type_preserving_def)

lemma yields_numeric_fn:
  assumes sig: "fn_signature_of f = SigNumeric b" and arity: "check_fn_arity f (length vs) = Inr ()"
    and t: "t \<in> {TInt, TUint, TDouble}" "\<not> type_preserving f \<Longrightarrow> t = TDouble" and vs: "list_all (\<lambda>v. has_type v t) vs"
  shows "yields (eval_fn lm f vs) (numeric_fn_type f (Some t))"
proof -
  have "vs \<noteq> []" using arity by (cases f) (auto simp: check_fn_arity_def)
  then obtain v ws where v: "vs = v # ws" "has_type v t" using vs by (cases vs) auto
  consider "f = FnAbs" | "f = FnSign" | "f \<in> {FnGreatest, FnLeast}" | "f = FnPow" | "fn_signature_of f = SigNumeric False" "f \<noteq> FnPow"
    using sig by (cases f) (auto simp: fn_signature_of_def)
  then show ?thesis
  proof cases
    case 1
    then show ?thesis using yields_abs [OF t(1) v(2)] v(1) by (simp add: numeric_fn_type_def type_preserving_def)
  next
    case 2
    then show ?thesis using yields_sign [OF t(1) v(2)] v(1) by (simp add: numeric_fn_type_def type_preserving_def)
  next
    case 3
    then show ?thesis using yields_extreme [OF 3 t(1)] vs v(1) by (auto simp: numeric_fn_type_def type_preserving_def)
  next
    case 4
    then have "t = TDouble" using t(2) by (simp add: type_preserving_def)
    moreover obtain w where "ws = [w]" using 4 arity v(1) by (auto simp: check_fn_arity_def length_Suc_conv)
    ultimately show ?thesis using 4 vs v(1) by (auto simp: eval_fn_def numeric_fn_type_def type_preserving_def)
  next
    case 5
    then have "t = TDouble" using t(2) by (cases f) (auto simp: type_preserving_def fn_signature_of_def)
    then show ?thesis using yields_double_fn [OF 5, of v] v by simp
  qed
qed

text \<open>The argument loop: without an absent argument, all arguments have the one known type.\<close>

definition args_ok :: "libm \<Rightarrow> numeric_read \<Rightarrow> u32 \<Rightarrow> 'a list \<Rightarrow> numeric_args \<Rightarrow> bool" where
  "args_ok lm cols doc as st \<longleftrightarrow>
     length (na_args st) = length as \<and> (\<forall>t. na_known st = Some t \<longrightarrow> t \<in> {TInt, TUint, TDouble}) \<and>
     (\<not> na_absent st \<longrightarrow> (\<forall>rv \<in> set (na_args st). \<exists>t. na_known st = Some t \<and> yields (eval lm rv doc cols) t))"

lemma args_ok_step:
  assumes "args_ok lm cols doc as st" "numeric_arg (rv, vt) st = Inr st'" "yields (eval lm rv doc cols) vt"
  shows "args_ok lm cols doc (as @ [a]) st'"
  using assms by (cases vt) (auto simp: args_ok_def bind_result_eq_Inr split: if_splits)

lemma yields_call:
  assumes sig: "fn_signature_of f = SigNumeric b" and arity: "check_fn_arity f (length as) = Inr ()"
    and st: "args_ok lm cols doc as st" and r: "resolve_numeric_fn f st = Inr (rv, vt)"
  shows "yields (eval lm rv doc cols) vt"
proof (cases "na_absent st")
  case True
  then show ?thesis using r by (auto simp: resolve_numeric_fn_def split: if_splits)
next
  case False
  then have rv: "rv = Func f (na_args st)" "vt = numeric_fn_type f (na_known st)"
    "\<not> type_preserving f \<Longrightarrow> na_known st \<noteq> Some TInt \<and> na_known st \<noteq> Some TUint"
    using r by (auto simp: resolve_numeric_fn_def split: if_splits)
  have len: "length (na_args st) = length as" using st by (simp add: args_ok_def)
  have "as \<noteq> []" using arity by (cases f) (auto simp: check_fn_arity_def)
  then obtain x xs where "na_args st = x # xs" using len by (cases "na_args st") auto
  then obtain t where t: "na_known st = Some t" "t \<in> {TInt, TUint, TDouble}" using st False by (auto simp: args_ok_def)
  have all: "list_all (\<lambda>r. yields r t) (map (\<lambda>a. eval lm a doc cols) (na_args st))"
    using st False t(1) by (auto simp: args_ok_def list_all_iff)
  obtain q where q: "collect_values (map (\<lambda>a. eval lm a doc cols) (na_args st)) = Some q"
    "\<forall>vs. q = Some vs \<longrightarrow> list_all (\<lambda>v. has_type v t) vs \<and> length vs = length as"
    using collect_values_typed [OF all] len by (auto simp only: length_map)
  show ?thesis
  proof (cases q)
    case None
    then show ?thesis using q rv(1) by simp
  next
    case (Some vs)
    then have "yields (eval_fn lm f vs) (numeric_fn_type f (Some t))"
      using q(2) arity t rv(3) by (intro yields_numeric_fn [OF sig]) auto
    then show ?thesis using q(1) Some rv t(1) by simp
  qed
qed

section \<open>Soundness of resolution\<close>

lemma yields_column:
  assumes "resolve_column cols name = Inr (rv, vt)" "reads_i64 read"
  shows "yields (eval lm rv doc read) vt"
  using assms by (auto simp: resolve_column_def reads_i64_def Let_def intro!: yields_map split: if_splits option.splits)

lemma yields_map_read:
  assumes "resolve_map_read cols typed column key = Inr (rv, vt)" "reads_i64 read"
  shows "yields (eval lm rv doc read) vt"
  using assms
  by (auto simp: resolve_map_read_def reads_i64_def Let_def bind_eq_Some_conv intro!: yields_map split: if_splits option.splits)

lemma yields_arith_node:
  assumes "resolve_arith code (lrv, lt) (rrv, rt) = Inr (rv, vt)"
    and l: "yields (eval lm lrv doc read) lt" and r: "yields (eval lm rrv doc read) rt"
  shows "yields (eval lm rv doc read) vt"
proof -
  obtain op where op: "rv = Arith op lrv rrv" "\<not> (op = OpMod \<and> vt = TDouble)"
    and t: "lt \<notin> {TStr, TBool}" "rt \<notin> {TStr, TBool}" "vt = (if lt = TUnknown \<or> rt = TUnknown then TUnknown else lt)"
      "lt \<noteq> TUnknown \<Longrightarrow> rt \<noteq> TUnknown \<Longrightarrow> lt = rt"
    using assms(1) by (auto simp: bind_result_eq_Inr split: if_splits)
  show ?thesis
  proof (cases "lt = TUnknown \<or> rt = TUnknown")
    case True
    have "yields (on_value (eval lm lrv doc read) (\<lambda>l. on_value (eval lm rrv doc read) (eval_arith op l))) vt"
      using True l r by (intro yields_on [OF l]) (auto simp: yields_unknown)
    then show ?thesis by (simp add: op)
  next
    case False
    then have "lt = rt" "vt = lt" "lt \<in> {TInt, TUint, TDouble}" using t by (cases lt; auto)+
    then show ?thesis using op l r by (auto simp only: eval.simps intro!: yields_on [OF l] yields_on [OF r] yields_arith)
  qed
qed

lemma yields_compare_node:
  assumes "compare_values op (lrv, lt) (rrv, rt) = Inr (rv, vt)"
    and l: "yields (eval lm lrv doc read) lt" and r: "yields (eval lm rrv doc read) rt"
  shows "yields (eval lm rv doc read) vt"
proof (cases "lt = TUnknown \<or> rt = TUnknown")
  case True
  then show ?thesis using assms(1) by auto
next
  case False
  then have n: "rv = Compare op lrv rrv" "vt = TBool" "lt = rt" "\<not> (is_ordering op \<and> rt = TBool)" "rt \<in> {TInt, TUint, TDouble, TBool}"
    using assms(1) by (cases lt; auto split: if_splits)+
  show ?thesis
    unfolding n(1,2) eval.simps
    by (rule yields_on [OF l]) (rule yields_on [OF r], rule yields_compare [OF n(5,4)], simp_all add: n(3))
qed

lemma yields_literal_node:
  assumes "compare_literal cols op lit (rv0, vt0) = Inr (rv, vt)" "yields (eval lm rv0 doc read) vt0"
  shows "yields (eval lm rv doc read) vt"
proof -
  obtain lit_ord where rv: "rv = CompareStr (op = CmpNe) rv0 lit_ord" "vt = TBool"
    and shape: "(\<exists>fi. rv0 = FacetCol fi) \<or> (\<exists>c k. rv0 = MapFacet c k) \<or> rv0 = Absent"
    using assms(1) by (auto simp: bind_result_eq_Inr split: resolved_value.splits)
  from shape have "yields (eval lm rv0 doc read) TStr"
    by (elim disjE exE) (auto intro!: yields_map)
  then show ?thesis unfolding rv eval.simps by (rule yields_on) (rule yields_compare_str)
qed

lemma yields_branches:
  assumes "resolve_branches crv (trv, tt) (erv, et) = Inr (rv, vt)"
    and c: "yields (eval lm crv doc read) TBool" and t: "yields (eval lm trv doc read) tt" and e: "yields (eval lm erv doc read) et"
  shows "yields (eval lm rv doc read) vt"
proof -
  have rv: "rv = Ternary crv trv erv" and vt: "tt = vt \<or> tt = TUnknown" "et = vt \<or> et = TUnknown"
    using assms(1) by (auto simp: bind_result_eq_Inr split: if_splits)
  have "yields (eval lm trv doc read) vt" "yields (eval lm erv doc read) vt" using t e vt yields_absent by blast+
  then show ?thesis unfolding rv eval.simps by (intro yields_on [OF c]) (auto split: bool.splits)
qed

lemma map_result_Inr:
  "map_result f xs = Inr ys \<longleftrightarrow> list_all2 (\<lambda>x y. f x = Inr y) xs ys"
  by (induction xs arbitrary: ys) (auto simp: bind_result_eq_Inr list_all2_Cons1)

lemma literals_opt [simp]: "list_all id (opt_list (map_option f x)) \<longleftrightarrow> (\<forall>y. x = Some y \<longrightarrow> f y)"
  by (cases x) simp_all

text \<open>Induction over the operands of a node.\<close>

fun operands :: "value_expr \<Rightarrow> value_expr list" where
  "operands (VArith op left right) = opt_list left @ opt_list right"
| "operands (VCompare op left right) = opt_list left @ opt_list right"
| "operands (VToDouble inner) = [inner]"
| "operands (VNegate inner) = [inner]"
| "operands (VNot inner) = [inner]"
| "operands (VLogic op children) = children"
| "operands (VFunc f args) = args"
| "operands (VTernary cond then_value else_value) = opt_list cond @ opt_list then_value @ opt_list else_value"
| "operands _ = []"

lemma operands_size: "x \<in> set (operands e) \<Longrightarrow> size x < size e"
  by (cases e) (auto simp: opt_list_def less_Suc_eq_le intro: size_list_estimation' [of _ _ _ size] split: option.splits)

lemma operands_induct: "(\<And>e. (\<And>x. x \<in> set (operands e) \<Longrightarrow> P x) \<Longrightarrow> P e) \<Longrightarrow> P e"
  by (induction e rule: measure_induct_rule [of size]) (metis operands_size)

lemma literals_operands: "literals_i64 e \<Longrightarrow> x \<in> set (operands e) \<Longrightarrow> literals_i64 x"
  by (cases e) (auto simp: opt_list_def list_all_iff split: option.splits)

lemma resolve_func_sound:
  assumes IH: "\<And>x rv vt. x \<in> set args \<Longrightarrow> resolve cols x = Inr (rv, vt) \<Longrightarrow> yields (eval lm rv doc read) vt"
    and q: "\<not> cl_at_ingest cols" and r: "resolve cols (VFunc code args) = Inr (rv, vt)"
  shows "yields (eval lm rv doc read) vt"
proof -
  obtain f where f: "value_fn_of code = Inr f" "check_fn_arity f (length args) = Inr ()" using r by (auto simp: bind_result_eq_Inr)
  show ?thesis
  proof (cases "fn_signature_of f")
    case (SigNumeric b)
    then obtain st where st: "fold_result (\<lambda>a st. bind_result (resolve cols a) (\<lambda>t. numeric_arg t st)) args
        \<lparr>na_args = [], na_known = None, na_absent = False\<rparr> = Inr st" "resolve_numeric_fn f st = Inr (rv, vt)"
      using r f by (auto simp: bind_result_eq_Inr)
    have "args_ok lm read doc args st"
      using st(1)
    proof (rule fold_result_rule)
      show "args_ok lm read doc [] \<lparr>na_args = [], na_known = None, na_absent = False\<rparr>" by (simp add: args_ok_def)
      fix ys :: "value_expr list" and x t t'
      assume x: "x \<in> set args" "args_ok lm read doc ys t" "bind_result (resolve cols x) (\<lambda>u. numeric_arg u t) = Inr t'"
      then obtain xrv xt where a: "resolve cols x = Inr (xrv, xt)" "numeric_arg (xrv, xt) t = Inr t'"
        by (auto simp: bind_result_eq_Inr simp del: numeric_arg.simps)
      show "args_ok lm read doc (ys @ [x]) t'" by (rule args_ok_step [OF x(2) a(2) IH [OF x(1) a(1)]])
    qed
    then show ?thesis by (rule yields_call [OF SigNumeric f(2) _ st(2)])
  next
    case SigStringToUint
    then show ?thesis using r f q by (simp add: bind_result_eq_Inr)
  next
    case SigIntToInt
    then obtain a as xrv xt where a: "args = a # as" "resolve cols a = Inr (xrv, xt)" "resolve_int_fn f (xrv, xt) = Inr (rv, vt)"
      using r f by (auto simp: bind_result_eq_Inr simp del: resolve_int_fn.simps split: list.splits)
    have y: "yields (eval lm xrv doc read) xt" using IH [of a] a by simp
    show ?thesis
    proof (cases "xt = TInt")
      case True
      then have n: "rv = Func f [xrv]" "vt = TInt" using a(3) by auto
      have "eval lm rv doc read = on_value (eval lm xrv doc read) (\<lambda>v. eval_fn lm f [v])"
      proof -
        obtain w where "eval lm xrv doc read = Some w" using y by (auto simp: yields_def)
        then show ?thesis unfolding n(1) by (cases w) simp_all
      qed
      then show ?thesis using yields_on [OF y [unfolded True] yields_calendar [OF SigIntToInt]] n(2) by simp
    next
      case False
      then show ?thesis using a(3) by (auto split: if_splits)
    qed
  qed
qed

lemma resolve_compare_sound:
  assumes IH: "\<And>x rv vt. x \<in> set (operands (VCompare code left right)) \<Longrightarrow> resolve cols x = Inr (rv, vt) \<Longrightarrow> yields (eval lm rv doc read) vt"
    and r: "resolve cols (VCompare code left right) = Inr (rv, vt)"
  shows "yields (eval lm rv doc read) vt"
proof -
  obtain op l r' where o: "cmp_op_of code = Inr op" "left = Some l" "right = Some r'"
    using r by (auto simp: bind_result_eq_Inr split: option.splits)
  have mem: "l \<in> set (operands (VCompare code left right))" "r' \<in> set (operands (VCompare code left right))" using o by simp_all
  consider a b where "lit_of l = Some a" "lit_of r' = Some b" | a where "lit_of l = Some a" "lit_of r' = None"
    | b where "lit_of l = None" "lit_of r' = Some b" | "lit_of l = None" "lit_of r' = None" by fastforce
  then show ?thesis
  proof cases
    case 1
    then show ?thesis using r o by (auto simp: compare_literals_def split: if_splits)
  next
    case 2
    then obtain xrv xt where x: "resolve cols r' = Inr (xrv, xt)" "compare_literal cols op a (xrv, xt) = Inr (rv, vt)"
      using r o by (auto simp: bind_result_eq_Inr simp del: compare_literal.simps split: if_splits)
    show ?thesis by (rule yields_literal_node [OF x(2) IH [OF mem(2) x(1)]])
  next
    case 3
    then obtain xrv xt where x: "resolve cols l = Inr (xrv, xt)" "compare_literal cols op b (xrv, xt) = Inr (rv, vt)"
      using r o by (auto simp: bind_result_eq_Inr simp del: compare_literal.simps split: if_splits)
    show ?thesis by (rule yields_literal_node [OF x(2) IH [OF mem(1) x(1)]])
  next
    case 4
    then obtain lrv lt rrv rt where x: "resolve cols l = Inr (lrv, lt)" "resolve cols r' = Inr (rrv, rt)"
      "compare_values op (lrv, lt) (rrv, rt) = Inr (rv, vt)"
      using r o by (auto simp: bind_result_eq_Inr simp del: compare_values.simps split: if_splits)
    show ?thesis by (rule yields_compare_node [OF x(3) IH [OF mem(1) x(1)] IH [OF mem(2) x(2)]])
  qed
qed

lemma resolve_logic_sound:
  assumes IH: "\<And>x rv vt. x \<in> set children \<Longrightarrow> resolve cols x = Inr (rv, vt) \<Longrightarrow> yields (eval lm rv doc read) vt"
    and r: "resolve cols (VLogic code children) = Inr (rv, vt)"
  shows "yields (eval lm rv doc read) vt"
proof -
  define g where "g c = bind_result (resolve cols c) logic_child" for c
  obtain is_and rvs where n: "rv = Logic is_and rvs" "vt = TBool" "list_all2 (\<lambda>x y. g x = Inr y) children rvs"
    using r unfolding resolve.simps g_def [symmetric] by (auto simp: bind_result_eq_Inr map_result_Inr split: if_splits)
  have "yields (eval lm c doc read) TBool" if c: "c \<in> set rvs" for c
  proof -
    obtain i where i: "i < length rvs" "c = rvs ! i" using c by (auto simp: in_set_conv_nth)
    have x: "children ! i \<in> set children" "g (children ! i) = Inr c"
      using n(3) i by (auto simp: list_all2_conv_all_nth)
    then obtain t where t: "resolve cols (children ! i) = Inr (c, t)" "t = TBool \<or> t = TUnknown" by (auto simp: g_def bind_result_eq_Inr split: if_splits)
    then show ?thesis using IH [OF x(1) t(1)] yields_absent by auto
  qed
  then have "list_all (\<lambda>r. yields r TBool) (map (\<lambda>c. eval lm c doc read) rvs)" by (simp add: list_all_iff)
  then show ?thesis unfolding n(1,2) eval.simps by (rule yields_logic)
qed

lemma resolve_sound:
  assumes q: "\<not> cl_at_ingest cols" "reads_i64 read"
  shows "resolve cols e = Inr (rv, vt) \<Longrightarrow> literals_i64 e \<Longrightarrow> yields (eval lm rv doc read) vt"
proof (induction e arbitrary: rv vt rule: operands_induct)
  case (1 e)
  have IH: "yields (eval lm rv doc read) vt" if "x \<in> set (operands e)" "resolve cols x = Inr (rv, vt)" for x rv vt
    using 1(1) [OF that(1,2)] literals_operands [OF 1(3) that(1)] .
  note r = 1(2)
  show ?case
  proof (cases e)
    case (VToDouble inner)
    then obtain xrv t where x: "resolve cols inner = Inr (xrv, t)" "resolve_to_double (xrv, t) = Inr (rv, vt)" using r by (auto simp: bind_result_eq_Inr)
    then have n: "rv = ToDouble xrv" "vt = TDouble" "t \<notin> {TStr, TBool}" by (auto split: if_splits)
    show ?thesis unfolding n(1,2) eval.simps using x(1) VToDouble by (intro yields_on [OF IH yields_to_double [OF n(3)]]) auto
  next
    case (VNegate inner)
    then obtain xrv t where x: "resolve cols inner = Inr (xrv, t)" "resolve_negate (xrv, t) = Inr (rv, vt)" using r by (auto simp: bind_result_eq_Inr)
    then have n: "rv = Negate xrv" "vt = t" "t \<notin> {TUint, TStr, TBool}" by (auto split: if_splits)
    show ?thesis unfolding n(1,2) eval.simps using x(1) VNegate by (intro yields_on [OF IH yields_negate [OF n(3)]]) auto
  next
    case (VNot inner)
    then obtain xrv t where x: "resolve cols inner = Inr (xrv, t)" "resolve_not (xrv, t) = Inr (rv, vt)" using r by (auto simp: bind_result_eq_Inr)
    then have n: "rv = NotValue xrv" "vt = TBool" "t = TBool \<or> t = TUnknown" by (auto split: if_splits)
    then have "yields (eval lm xrv doc read) TBool" using IH [of inner xrv t] x(1) VNot yields_absent by auto
    then show ?thesis unfolding n(1,2) eval.simps by (rule yields_on) (rule yields_not)
  next
    case (VArith op left right)
    then obtain l r' lrv lt rrv rt where x: "left = Some l" "right = Some r'" "resolve cols l = Inr (lrv, lt)" "resolve cols r' = Inr (rrv, rt)"
      "resolve_arith op (lrv, lt) (rrv, rt) = Inr (rv, vt)"
      using r by (cases left; cases right) (auto simp: bind_result_eq_Inr simp del: resolve_arith.simps)
    then have mem: "l \<in> set (operands e)" "r' \<in> set (operands e)" using VArith by simp_all
    show ?thesis by (rule yields_arith_node [OF x(5) IH [OF mem(1) x(3)] IH [OF mem(2) x(4)]])
  next
    case (VTernary cond then_value else_value)
    then obtain c t o' where o: "cond = Some c" "then_value = Some t" "else_value = Some o'"
      using r by (cases cond; cases then_value; cases else_value) auto
    then obtain crv ct trv tt erv et where x: "resolve cols c = Inr (crv, ct)" "ct = TBool \<or> ct = TUnknown" "resolve cols t = Inr (trv, tt)"
      "resolve cols o' = Inr (erv, et)" "resolve_branches crv (trv, tt) (erv, et) = Inr (rv, vt)"
      using r VTernary by (auto simp: bind_result_eq_Inr simp del: resolve_branches.simps split: if_splits)
    have mem: "c \<in> set (operands e)" "t \<in> set (operands e)" "o' \<in> set (operands e)" using VTernary o by simp_all
    have c: "yields (eval lm crv doc read) TBool" using IH [OF mem(1) x(1)] x(2) yields_absent by auto
    show ?thesis by (rule yields_branches [OF x(5) c IH [OF mem(2) x(3)] IH [OF mem(3) x(4)]])
  next
    case (VCompare code left right)
    show ?thesis by (rule resolve_compare_sound [OF IH [unfolded VCompare] r [unfolded VCompare]])
  next
    case (VFunc code args)
    show ?thesis by (rule resolve_func_sound [OF IH [unfolded VFunc operands.simps] q(1) r [unfolded VFunc]])
  next
    case (VLogic code children)
    show ?thesis by (rule resolve_logic_sound [OF IH [unfolded VLogic operands.simps] r [unfolded VLogic]])
  qed (use r q 1(3) yields_column yields_map_read in auto)
qed

text \<open>
  C5: the static type check of value expressions is sound. An expression that resolves against
  a serving shard evaluates on every document without a panic; a value it yields has the
  static type, an integer one within \<open>i64\<close>; and an expression of unknown type is absent on
  every document.
\<close>

theorem value_type_sound:
  assumes "resolve (shard_lookup tb) e = Inr (rv, vt)" "reads_i64 read" "literals_i64 e"
  shows "\<exists>r. eval lm rv doc read = Some r \<and> (\<forall>v. r = Some v \<longrightarrow> has_type v vt) \<and> (vt = TUnknown \<longrightarrow> r = None)"
proof -
  have "\<not> cl_at_ingest (shard_lookup tb)" by (simp add: shard_lookup_def)
  from resolve_sound [OF this assms(2,1,3), of lm doc] obtain r where
    r: "eval lm rv doc read = Some r" "\<forall>v. r = Some v \<longrightarrow> has_type v vt" by (auto simp: yields_def)
  moreover have "vt = TUnknown \<Longrightarrow> r = None" using r(2) by (cases r) simp_all
  ultimately show ?thesis by blast
qed

text \<open>\<open>lang == "de" ? size + 1 : -size\<close> over a shard with a facet and an integer column.\<close>

definition priced_tables :: shard_tables where
  "priced_tables = sample_tables\<lparr>integer_index := (\<lambda>c. if c = ''size'' then Some 0 else None)\<rparr>"

definition priced_columns :: numeric_read where
  "priced_columns = sample_columns\<lparr>int_value := (\<lambda>_ d. if d = 0 then Some i64_max else if d = 1 then Some 9 else None)\<rparr>"

definition priced_expr :: value_expr where
  "priced_expr =
     VTernary (Some (VCompare 1 (Some (VColumn ''lang'')) (Some (VStringLiteral ''de''))))
       (Some (VArith 1 (Some (VColumn ''size'')) (Some (VIntLiteral 1)))) (Some (VNegate (VColumn ''size'')))"

definition priced_value :: resolved_value where
  "priced_value =
     Ternary (CompareStr False (FacetCol 0) (Some 0)) (Arith OpAdd (IntCol 0) (ConstInt 1)) (Negate (IntCol 0))"

lemma priced_resolves: "resolve (shard_lookup priced_tables) priced_expr = Inr (priced_value, TInt)"
  by (simp add: priced_expr_def priced_value_def shard_lookup_def priced_tables_def sample_tables_def resolve_column_def
      cmp_op_of_def arith_op_of_def is_ordering_def Let_def)

lemma priced_ok: "reads_i64 priced_columns" "literals_i64 priced_expr"
  by (auto simp: reads_i64_def priced_columns_def sample_columns_def priced_expr_def in_i64_simps i64_max_def split: if_splits)

theorem value_type_sound_witness:
  "(\<exists>r. eval \<lparr>lm_sqrt = id, lm_ln = id, lm_exp = id, lm_log10 = id, lm_powf = (\<lambda>x _. x)\<rparr> priced_value 0 priced_columns = Some r \<and>
      (\<forall>v. r = Some v \<longrightarrow> has_type v TInt)) \<and>
   eval \<lparr>lm_sqrt = id, lm_ln = id, lm_exp = id, lm_log10 = id, lm_powf = (\<lambda>x _. x)\<rparr> priced_value 0 priced_columns = Some None \<and>
   eval \<lparr>lm_sqrt = id, lm_ln = id, lm_exp = id, lm_log10 = id, lm_powf = (\<lambda>x _. x)\<rparr> priced_value 1 priced_columns = Some (Some (ValInt (- 9)))"
proof (intro conjI)
  show "\<exists>r. eval \<lparr>lm_sqrt = id, lm_ln = id, lm_exp = id, lm_log10 = id, lm_powf = (\<lambda>x _. x)\<rparr> priced_value 0 priced_columns = Some r \<and>
      (\<forall>v. r = Some v \<longrightarrow> has_type v TInt)"
    using value_type_sound [OF priced_resolves priced_ok] by blast
qed (simp_all add: priced_value_def priced_columns_def sample_columns_def int_arith_def checked_i64_def in_i64_simps i64_max_def)

end
