(* ===== verification/Value_Ingest.thy ===== *)
theory Value_Ingest
  imports Value_Types
begin

text \<open>
  Evaluation of value expressions over a document's own values at ingest, the values of
  derived and materialized columns (\<open>src/values.rs\<close>). A panic is \<open>None\<close>, a refusal of the
  document \<open>Inl\<close>, absence the inner \<open>None\<close>.
\<close>

unbundle bit_operations_syntax

section \<open>The document's values\<close>

text \<open>\<open>IngestEnv\<close>; its hash maps are association lists.\<close>

record ingest_env =
  en_numerics :: "(string \<times> f64) list"
  en_integers :: "(string \<times> int) list"
  en_unsigned_integers :: "(string \<times> u64) list"
  en_map_numerics :: "((string \<times> string) \<times> f64) list"
  en_map_integers :: "((string \<times> string) \<times> int) list"
  en_map_unsigned_integers :: "((string \<times> string) \<times> u64) list"
  en_facets :: "(string \<times> string) list"
  en_stable_key :: "bytes option"

definition then_zero :: "bool \<Rightarrow> nat option" where
  "then_zero b = (if b then Some 0 else None)"

definition has_column :: "((string \<times> string) \<times> 'a) list \<Rightarrow> string \<Rightarrow> bool" where
  "has_column m name = list_ex (\<lambda>e. fst (fst e) = name) m"

text \<open>The document as a \<open>ColumnLookup\<close>: the indexes only identify types.\<close>

definition ingest_lookup :: "ingest_env \<Rightarrow> column_lookup" where
  "ingest_lookup env =
     \<lparr>cl_numeric_index = (\<lambda>n. then_zero (map_of (en_numerics env) n \<noteq> None)),
      cl_integer_index = (\<lambda>n. then_zero (map_of (en_integers env) n \<noteq> None)),
      cl_unsigned_integer_index = (\<lambda>n. then_zero (map_of (en_unsigned_integers env) n \<noteq> None)),
      cl_facet_index = (\<lambda>n. then_zero (map_of (en_facets env) n \<noteq> None)),
      cl_map_numeric_index = (\<lambda>n. then_zero (has_column (en_map_numerics env) n)), cl_map_numeric_key_ord = (\<lambda>_ _. Some 0),
      cl_map_integer_index = (\<lambda>n. then_zero (has_column (en_map_integers env) n)), cl_map_integer_key_ord = (\<lambda>_ _. Some 0),
      cl_map_unsigned_integer_index = (\<lambda>n. then_zero (has_column (en_map_unsigned_integers env) n)),
      cl_map_unsigned_integer_key_ord = (\<lambda>_ _. Some 0),
      cl_map_facet_index = (\<lambda>_. None), cl_map_facet_key_ord = (\<lambda>_ _. None), cl_facet_value_ord_of = (\<lambda>_ _. None),
      cl_map_facet_value_ord_of = (\<lambda>_ _. None), cl_at_ingest = True\<rparr>"

text \<open>The declared families a derived column is typed against before any document arrives.\<close>

record numeric_types =
  nt_numerics :: "string list"
  nt_integers :: "string list"
  nt_unsigned_integers :: "string list"
  nt_map_numerics :: "string list"
  nt_map_integers :: "string list"
  nt_map_unsigned_integers :: "string list"
  nt_facets :: "string list"

fun index_of :: "string \<Rightarrow> string list \<Rightarrow> nat option" where
  "index_of name [] = None"
| "index_of name (n # ns) = (if n = name then Some 0 else map_option Suc (index_of name ns))"

definition types_lookup :: "numeric_types \<Rightarrow> column_lookup" where
  "types_lookup nt =
     \<lparr>cl_numeric_index = (\<lambda>n. index_of n (nt_numerics nt)), cl_integer_index = (\<lambda>n. index_of n (nt_integers nt)),
      cl_unsigned_integer_index = (\<lambda>n. index_of n (nt_unsigned_integers nt)), cl_facet_index = (\<lambda>n. index_of n (nt_facets nt)),
      cl_map_numeric_index = (\<lambda>n. index_of n (nt_map_numerics nt)), cl_map_numeric_key_ord = (\<lambda>_ _. Some 0),
      cl_map_integer_index = (\<lambda>n. index_of n (nt_map_integers nt)), cl_map_integer_key_ord = (\<lambda>_ _. Some 0),
      cl_map_unsigned_integer_index = (\<lambda>n. index_of n (nt_map_unsigned_integers nt)),
      cl_map_unsigned_integer_key_ord = (\<lambda>_ _. Some 0),
      cl_map_facet_index = (\<lambda>_. None), cl_map_facet_key_ord = (\<lambda>_ _. None), cl_facet_value_ord_of = (\<lambda>_ _. None),
      cl_map_facet_value_ord_of = (\<lambda>_ _. None), cl_at_ingest = True\<rparr>"

definition fnv1a64_bytes :: "bytes \<Rightarrow> u64" where
  "fnv1a64_bytes bs = foldl (\<lambda>hash byte. (hash XOR ucast byte) * 0x100000001B3) 0xCBF29CE484222325 bs"

datatype ingest_val = InInt int | InUint u64 | InDouble f64 | is_InBool: InBool bool

section \<open>Evaluation\<close>

type_synonym 'a outcome = "'a result option"

abbreviation absent :: "ingest_val option outcome" where "absent \<equiv> Some (Inr None)"

abbreviation value_of :: "ingest_val \<Rightarrow> ingest_val option outcome" where "value_of v \<equiv> Some (Inr (Some v))"

definition and_then :: "'a outcome \<Rightarrow> ('a \<Rightarrow> 'b outcome) \<Rightarrow> 'b outcome" where
  "and_then m f = (case m of None \<Rightarrow> None | Some (Inl e) \<Rightarrow> Some (Inl e) | Some (Inr x) \<Rightarrow> f x)"

lemma and_then_simps [simp]:
  "and_then None f = None" "and_then (Some (Inl e)) f = Some (Inl e)" "and_then (Some (Inr x)) f = f x"
  by (simp_all add: and_then_def)

lemma and_then_ok: "and_then m f = Some (Inr y) \<longleftrightarrow> (\<exists>x. m = Some (Inr x) \<and> f x = Some (Inr y))"
  by (simp add: and_then_def split: option.splits sum.splits)

fun fold_outcome :: "('a \<Rightarrow> 's \<Rightarrow> 's outcome) \<Rightarrow> 'a list \<Rightarrow> 's \<Rightarrow> 's outcome" where
  "fold_outcome f [] s = Some (Inr s)"
| "fold_outcome f (x # xs) s = and_then (f x s) (fold_outcome f xs)"

lemma fold_outcome_cong [fundef_cong]:
  "xs = ys \<Longrightarrow> s = t \<Longrightarrow> (\<And>x s. x \<in> set ys \<Longrightarrow> f x s = g x s) \<Longrightarrow> fold_outcome f xs s = fold_outcome g ys t"
  by (induction ys arbitrary: xs s t) (auto simp: and_then_def split: option.splits sum.splits)

definition ingest_column :: "ingest_env \<Rightarrow> string \<Rightarrow> ingest_val option outcome" where
  "ingest_column env name =
     (let num = map_of (en_numerics env) name; int = map_of (en_integers env) name;
          uint = map_of (en_unsigned_integers env) name; facet = (map_of (en_facets env) name \<noteq> None)
      in if 1 < length (filter id [num \<noteq> None, int \<noteq> None, uint \<noteq> None, facet])
         then Some (Inl (refuse ''materialization input {name:?} arrives in more than one family on this document''))
         else if facet then Some (Inl (refuse ''facet {name:?} is a string; it feeds hash.fnv64() or a `==`/`!=` comparison, and is not itself a stored number''))
         else Some (Inr (case num of Some v \<Rightarrow> Some (InDouble v)
                    | None \<Rightarrow> (case int of Some v \<Rightarrow> Some (InInt v) | None \<Rightarrow> map_option InUint uint))))"

definition ingest_typed_map :: "ingest_env \<Rightarrow> string \<Rightarrow> string \<Rightarrow> ingest_val option" where
  "ingest_typed_map env column key =
     (case map_of (en_map_integers env) (column, key) of
        Some v \<Rightarrow> Some (InInt v)
      | None \<Rightarrow>
          (case map_of (en_map_unsigned_integers env) (column, key) of
             Some v \<Rightarrow> Some (InUint v)
           | None \<Rightarrow> map_option InDouble (map_of (en_map_numerics env) (column, key))))"

fun ingest_to_double :: "ingest_val option \<Rightarrow> ingest_val option outcome" where
  "ingest_to_double None = absent"
| "ingest_to_double (Some (InInt i)) = value_of (InDouble (f64_of_int i))"
| "ingest_to_double (Some (InUint i)) = value_of (InDouble (f64_of_int (uint i)))"
| "ingest_to_double (Some (InDouble d)) = value_of (InDouble d)"
| "ingest_to_double (Some (InBool b)) = Some (Inl (refuse ''double() over a bool; only numbers convert''))"

fun ingest_negate :: "bool \<Rightarrow> ingest_val option \<Rightarrow> ingest_val option outcome" where
  "ingest_negate strict None = absent"
| "ingest_negate strict (Some (InInt v)) =
     (case checked_i64 (- v) of
        Some w \<Rightarrow> value_of (InInt w)
      | None \<Rightarrow> if strict then Some (Inl (refuse ''integer overflow: -({v}) has no exact answer; a declared derived column refuses the document rather than storing a wrapped value or a fake absence'')) else absent)"
| "ingest_negate strict (Some (InUint v)) = Some (Inl (refuse ''unary minus over a uint''))"
| "ingest_negate strict (Some (InDouble v)) = value_of (InDouble (f64_neg v))"
| "ingest_negate strict (Some (InBool b)) = Some (Inl (refuse ''unary minus over a boolean; booleans negate with `!`''))"

definition arith_overflow :: "bool \<Rightarrow> status" where
  "arith_overflow zero_divisor =
     (let cause = (if zero_divisor then ''division by zero'' else ''overflow'')
      in refuse (''integer arithmetic '' @ cause @ '': {a} {} {b} has no exact answer;''
           @ '' a declared derived column refuses the document rather than storing a wrapped value or a fake absence''))"

fun ingest_arith :: "bool \<Rightarrow> arith_op \<Rightarrow> ingest_val option \<Rightarrow> ingest_val option \<Rightarrow> ingest_val option outcome" where
  "ingest_arith strict op None r = absent"
| "ingest_arith strict op (Some l) None = absent"
| "ingest_arith strict op (Some (InInt a)) (Some (InInt b)) =
     (case int_arith op a b of
        Some v \<Rightarrow> value_of (InInt v)
      | None \<Rightarrow> if strict then Some (Inl (arith_overflow (b = 0))) else absent)"
| "ingest_arith strict op (Some (InUint a)) (Some (InUint b)) =
     (case uint_arith op a b of
        Some v \<Rightarrow> value_of (InUint v)
      | None \<Rightarrow> if strict then Some (Inl (arith_overflow (b = 0))) else absent)"
| "ingest_arith strict op (Some (InDouble a)) (Some (InDouble b)) =
     (if op = OpMod then Some (Inl (refuse ''`%` is integer-only in CEL; there is no double remainder''))
      else map_option (\<lambda>d. Inr (Some (InDouble d))) (double_arith op a b))"
| "ingest_arith strict op (Some l) (Some r) =
     (if is_InBool l \<or> is_InBool r
      then Some (Inl (refuse ''a boolean joins no arithmetic; wrap it in a ternary that yields a number''))
      else Some (Inl (refuse ''materialization arithmetic mixes numeric types on this document; stock CEL does not coerce - convert explicitly with double()'')))"

fun ingest_compare :: "cmp_op \<Rightarrow> ingest_val option \<Rightarrow> ingest_val option \<Rightarrow> ingest_val option outcome" where
  "ingest_compare op None r = absent"
| "ingest_compare op (Some l) None = absent"
| "ingest_compare op (Some (InInt a)) (Some (InInt b)) = value_of (InBool (cmp_int op a b))"
| "ingest_compare op (Some (InUint a)) (Some (InUint b)) = value_of (InBool (cmp_int op a b))"
| "ingest_compare op (Some (InDouble a)) (Some (InDouble b)) = value_of (InBool (cmp_double op a b))"
| "ingest_compare op (Some (InBool a)) (Some (InBool b)) =
     (case op of CmpEq \<Rightarrow> value_of (InBool (a = b)) | CmpNe \<Rightarrow> value_of (InBool (a \<noteq> b))
      | _ \<Rightarrow> Some (Inl (refuse ''booleans do not order; only `==` and `!=` compare them'')))"
| "ingest_compare op (Some l) (Some r) = Some (Inl (refuse ''a materialization comparison mixes numeric types on this document; stock CEL does not coerce - convert explicitly with double()''))"

text \<open>A comparison with a string literal on one side: the other side is read only as a facet column.\<close>

definition ingest_literals :: "cmp_op \<Rightarrow> string \<Rightarrow> string \<Rightarrow> ingest_val option outcome" where
  "ingest_literals op a b =
     (if is_ordering op then Some (Inl string_ordering) else value_of (InBool (if op = CmpNe then a \<noteq> b else a = b)))"

definition ingest_literal :: "ingest_env \<Rightarrow> cmp_op \<Rightarrow> string \<Rightarrow> value_expr \<Rightarrow> ingest_val option outcome" where
  "ingest_literal env op lit other =
     (if is_ordering op then Some (Inl string_ordering)
      else Some (Inr (case other of
             VColumn name \<Rightarrow> map_option (\<lambda>v. InBool (if op = CmpNe then v \<noteq> lit else v = lit)) (map_of (en_facets env) name)
           | _ \<Rightarrow> None)))"

fun ingest_calendar :: "value_fn \<Rightarrow> ingest_val option \<Rightarrow> ingest_val option outcome" where
  "ingest_calendar f None = absent"
| "ingest_calendar f (Some (InInt micros)) =
     map_option (\<lambda>(y, m, d). Inr (Some (InInt (case f of FnCalendarYear \<Rightarrow> y | FnCalendarMonth \<Rightarrow> int m | _ \<Rightarrow> int d))))
       (civil_of_micros micros)"
| "ingest_calendar f (Some _) =
     Some (Inl (refuse ''{display} takes an int of epoch microseconds (a timestamp column) on this document''))"

definition ingest_hash :: "ingest_env \<Rightarrow> value_expr \<Rightarrow> ingest_val option" where
  "ingest_hash env arg =
     (case arg of
        VColumn name \<Rightarrow> map_option (\<lambda>v. InUint (fnv1a64_bytes (bytes_of v))) (map_of (en_facets env) name)
      | _ \<Rightarrow> None)"

text \<open>The argument loop of a numeric call.\<close>

record ingest_args =
  ia_vals :: "val option list"
  ia_known :: "value_type option"

definition push_typed :: "value_type \<Rightarrow> val \<Rightarrow> ingest_args \<Rightarrow> ingest_args outcome" where
  "push_typed t v st =
     (if ia_known st \<noteq> None \<and> ia_known st \<noteq> Some t
      then Some (Inl (refuse ''{display} mixes numeric types on this document; stock CEL does not coerce - convert explicitly with double()''))
      else Some (Inr (st\<lparr>ia_known := Some t, ia_vals := ia_vals st @ [Some v]\<rparr>)))"

fun ingest_arg :: "ingest_val option \<Rightarrow> ingest_args \<Rightarrow> ingest_args outcome" where
  "ingest_arg None st = Some (Inr (st\<lparr>ia_vals := ia_vals st @ [None]\<rparr>))"
| "ingest_arg (Some (InBool b)) st = Some (Inl (refuse ''{display} over a bool; it takes numbers''))"
| "ingest_arg (Some (InInt v)) st = push_typed TInt (ValInt v) st"
| "ingest_arg (Some (InUint v)) st = push_typed TUint (ValUint v) st"
| "ingest_arg (Some (InDouble v)) st = push_typed TDouble (ValDouble v) st"

fun all_present :: "'a option list \<Rightarrow> 'a list option" where
  "all_present [] = Some []"
| "all_present (x # xs) = Option.bind x (\<lambda>y. map_option ((#) y) (all_present xs))"

fun ingest_of :: "val \<Rightarrow> ingest_val option" where
  "ingest_of (ValInt i) = Some (InInt i)"
| "ingest_of (ValUint i) = Some (InUint i)"
| "ingest_of (ValDouble d) = Some (InDouble d)"
| "ingest_of (ValBool b) = Some (InBool b)"
| "ingest_of _ = None"

definition ingest_apply :: "libm \<Rightarrow> value_fn \<Rightarrow> val list \<Rightarrow> ingest_val option outcome" where
  "ingest_apply lm f vals =
     Option.bind (eval_fn lm f vals) (\<lambda>r. case r of None \<Rightarrow> absent | Some v \<Rightarrow> map_option (\<lambda>i. Inr (Some i)) (ingest_of v))"

definition ingest_call :: "libm \<Rightarrow> bool \<Rightarrow> value_fn \<Rightarrow> ingest_args \<Rightarrow> ingest_val option outcome" where
  "ingest_call lm strict f st =
     (if \<not> type_preserving f \<and> (ia_known st = Some TInt \<or> ia_known st = Some TUint)
      then Some (Inl (refuse ''{display} takes a double; convert explicitly with double()''))
      else
        (case all_present (ia_vals st) of
           None \<Rightarrow> absent
         | Some vals \<Rightarrow>
             if strict \<and> f = FnAbs
             then (case vals of
                     [] \<Rightarrow> None
                   | v0 # _ \<Rightarrow>
                       if v0 = ValInt i64_min
                       then Some (Inl (refuse ''integer overflow: math.abs(i64::MIN) has no exact i64 result''))
                       else ingest_apply lm f vals)
             else ingest_apply lm f vals))"

text \<open>Logic: every operand evaluates; the state is \<open>absent\<close> and \<open>determined\<close>.\<close>

fun ingest_logic :: "bool \<Rightarrow> ingest_val option \<Rightarrow> bool \<times> bool \<Rightarrow> (bool \<times> bool) outcome" where
  "ingest_logic is_and None (ab, det) = Some (Inr (True, det))"
| "ingest_logic is_and (Some (InBool b)) (ab, det) = Some (Inr (ab, det \<or> b \<noteq> is_and))"
| "ingest_logic is_and (Some _) st = Some (Inl (refuse ''`{sym}` over a number; Kleene logic joins booleans''))"

fun logic_answer :: "bool \<Rightarrow> bool \<times> bool \<Rightarrow> ingest_val option" where
  "logic_answer is_and (ab, det) =
     (if det then Some (InBool (\<not> is_and)) else if ab then None else Some (InBool is_and))"

fun ingest_not :: "ingest_val option \<Rightarrow> ingest_val option outcome" where
  "ingest_not None = absent"
| "ingest_not (Some (InBool b)) = value_of (InBool (\<not> b))"
| "ingest_not (Some _) = Some (Inl (refuse ''`!` over a number; Kleene logic joins booleans''))"

definition lift_result :: "'a result \<Rightarrow> 'a outcome" where
  "lift_result = Some"

fun eval_ingest_inner :: "libm \<Rightarrow> bool \<Rightarrow> ingest_env \<Rightarrow> value_expr \<Rightarrow> ingest_val option outcome" where
  "eval_ingest_inner lm strict env VUnset = Some (Inl (refuse ''empty ValueExpr node''))"
| "eval_ingest_inner lm strict env (VColumn name) = ingest_column env name"
| "eval_ingest_inner lm strict env VStableKeyHash =
     Some (Inr (map_option (\<lambda>key. InUint (fnv1a64_bytes key)) (en_stable_key env)))"
| "eval_ingest_inner lm strict env (VMap column key) =
     Some (Inr (map_option InDouble (map_of (en_map_numerics env) (column, key))))"
| "eval_ingest_inner lm strict env (VTypedMap column key) = Some (Inr (ingest_typed_map env column key))"
| "eval_ingest_inner lm strict env (VIntLiteral v) = value_of (InInt v)"
| "eval_ingest_inner lm strict env (VUintLiteral v) = value_of (InUint v)"
| "eval_ingest_inner lm strict env (VFloatLiteral v) = value_of (InDouble v)"
| "eval_ingest_inner lm strict env (VToDouble inner) = and_then (eval_ingest_inner lm strict env inner) ingest_to_double"
| "eval_ingest_inner lm strict env (VNegate inner) = and_then (eval_ingest_inner lm strict env inner) (ingest_negate strict)"
| "eval_ingest_inner lm strict env (VArith code None right) = Some (Inl (refuse ''arithmetic node without a left operand''))"
| "eval_ingest_inner lm strict env (VArith code (Some left) None) =
     Some (Inl (refuse ''arithmetic node without a right operand''))"
| "eval_ingest_inner lm strict env (VArith code (Some left) (Some right)) =
     and_then (eval_ingest_inner lm strict env left) (\<lambda>l.
     and_then (eval_ingest_inner lm strict env right) (\<lambda>r.
     and_then (lift_result (arith_op_of code)) (\<lambda>op. ingest_arith strict op l r)))"
| "eval_ingest_inner lm strict env (VBoolLiteral v) = value_of (InBool v)"
| "eval_ingest_inner lm strict env (VStringLiteral v) =
     Some (Inl (refuse ''a string literal is not a value outside a `==`/`!=` comparison''))"
| "eval_ingest_inner lm strict env (VCompare code left right) =
     and_then (lift_result (cmp_op_of code)) (\<lambda>op.
     (case left of
        None \<Rightarrow> Some (Inl (refuse ''comparison node without a left operand''))
      | Some l \<Rightarrow>
          (case right of
             None \<Rightarrow> Some (Inl (refuse ''comparison node without a right operand''))
           | Some r \<Rightarrow>
               (case (lit_of l, lit_of r) of
                  (Some a, Some b) \<Rightarrow> ingest_literals op a b
                | (Some lit, None) \<Rightarrow> ingest_literal env op lit r
                | (None, Some lit) \<Rightarrow> ingest_literal env op lit l
                | (None, None) \<Rightarrow>
                    and_then (eval_ingest_inner lm strict env l) (\<lambda>lv.
                    and_then (eval_ingest_inner lm strict env r) (ingest_compare op lv))))))"
| "eval_ingest_inner lm strict env (VFunc code args) =
     and_then (lift_result (value_fn_of code)) (\<lambda>f.
     and_then (lift_result (check_fn_arity f (length args))) (\<lambda>_.
     (case fn_signature_of f of
        SigStringToUint \<Rightarrow> (case args of a # _ \<Rightarrow> Some (Inr (ingest_hash env a)) | [] \<Rightarrow> None)
      | SigIntToInt \<Rightarrow>
          (case args of a # _ \<Rightarrow> and_then (eval_ingest_inner lm strict env a) (ingest_calendar f) | [] \<Rightarrow> None)
      | SigNumeric _ \<Rightarrow>
          and_then
            (fold_outcome (\<lambda>a st. and_then (eval_ingest_inner lm strict env a) (\<lambda>v. ingest_arg v st)) args
               \<lparr>ia_vals = [], ia_known = None\<rparr>)
            (ingest_call lm strict f))))"
| "eval_ingest_inner lm strict env (VLogic code children) =
     and_then (lift_result (logic_op_of code)) (\<lambda>is_and.
     if length children < 2 then Some (Inl (refuse ''logic node with fewer than two operands''))
     else and_then
            (fold_outcome (\<lambda>c st. and_then (eval_ingest_inner lm strict env c) (\<lambda>v. ingest_logic is_and v st)) children (False, False))
            (\<lambda>st. Some (Inr (logic_answer is_and st))))"
| "eval_ingest_inner lm strict env (VNot inner) = and_then (eval_ingest_inner lm strict env inner) ingest_not"
| "eval_ingest_inner lm strict env (VTernary None then_value else_value) = Some (Inl (refuse ''ternary node without a condition''))"
| "eval_ingest_inner lm strict env (VTernary (Some cond) None else_value) =
     Some (Inl (refuse ''ternary node without a then-branch''))"
| "eval_ingest_inner lm strict env (VTernary (Some cond) (Some then_value) None) =
     Some (Inl (refuse ''ternary node without an else-branch''))"
| "eval_ingest_inner lm strict env (VTernary (Some cond) (Some then_value) (Some else_value)) =
     and_then (eval_ingest_inner lm strict env cond) (\<lambda>c.
     (case c of
        None \<Rightarrow> absent
      | Some (InBool True) \<Rightarrow> eval_ingest_inner lm strict env then_value
      | Some (InBool False) \<Rightarrow> eval_ingest_inner lm strict env else_value
      | Some _ \<Rightarrow> Some (Inl (refuse ''the ternary's condition is a number; a condition is a boolean''))))"

definition eval_ingest :: "libm \<Rightarrow> value_expr \<Rightarrow> ingest_env \<Rightarrow> ingest_val option outcome" where
  "eval_ingest lm expr env =
     and_then (lift_result (resolve (ingest_lookup env) expr)) (\<lambda>_. eval_ingest_inner lm False env expr)"

definition eval_ingest_derived :: "libm \<Rightarrow> value_expr \<Rightarrow> ingest_env \<Rightarrow> ingest_val option outcome" where
  "eval_ingest_derived lm expr env =
     and_then (lift_result (resolve (ingest_lookup env) expr)) (\<lambda>_. eval_ingest_inner lm True env expr)"

end
