(* ===== verification/Ingest_Correct.thy ===== *)
theory Ingest_Correct
  imports Value_Ingest
begin

text \<open>
  Evaluation at ingest agrees with evaluation at query time on the row the document is stored
  as, and no document makes it panic.
\<close>

section \<open>Loops over operands\<close>

lemma and_then_assoc: "and_then (and_then m f) g = and_then m (\<lambda>x. and_then (f x) g)"
  by (simp add: and_then_def split: option.splits sum.splits)

lemma ex_cons: "(\<exists>vs. (\<exists>z zs. vs = z # zs \<and> P z zs) \<and> Q vs) \<longleftrightarrow> (\<exists>z zs. P z zs \<and> Q (z # zs))"
  by blast

lemma fold_outcome_values:
  "fold_outcome (\<lambda>c st. and_then (h c) (\<lambda>v. g v st)) cs s = Some (Inr t) \<longleftrightarrow>
   (\<exists>vs. list_all2 (\<lambda>c v. h c = Some (Inr v)) cs vs \<and> fold_outcome g vs s = Some (Inr t))"
proof (induction cs arbitrary: s)
  case (Cons c cs)
  have "(\<exists>vs. list_all2 (\<lambda>c v. h c = Some (Inr v)) (c # cs) vs \<and> fold_outcome g vs s = Some (Inr t)) \<longleftrightarrow>
    (\<exists>v vs s'. h c = Some (Inr v) \<and> g v s = Some (Inr s') \<and> list_all2 (\<lambda>c v. h c = Some (Inr v)) cs vs \<and> fold_outcome g vs s' = Some (Inr t))"
    unfolding list_all2_Cons1 ex_cons conj_assoc by (simp add: and_then_ok) blast
  then show ?case by (simp add: and_then_ok Cons.IH) blast
qed simp

lemma fold_result_values:
  "fold_result (\<lambda>c st. bind_result (h c) (\<lambda>v. g v st)) cs s = Inr t \<longleftrightarrow>
   (\<exists>vs. list_all2 (\<lambda>c v. h c = Inr v) cs vs \<and> fold_result g vs s = Inr t)"
proof (induction cs arbitrary: s)
  case (Cons c cs)
  have "(\<exists>vs. list_all2 (\<lambda>c v. h c = Inr v) (c # cs) vs \<and> fold_result g vs s = Inr t) \<longleftrightarrow>
    (\<exists>v vs s'. h c = Inr v \<and> g v s = Inr s' \<and> list_all2 (\<lambda>c v. h c = Inr v) cs vs \<and> fold_result g vs s' = Inr t)"
    unfolding list_all2_Cons1 ex_cons by (simp add: bind_result_eq_Inr) blast
  then show ?case by (simp add: bind_result_eq_Inr Cons.IH) blast
qed simp

section \<open>The stored row\<close>

fun to_val :: "ingest_val \<Rightarrow> val" where
  "to_val (InInt i) = ValInt i"
| "to_val (InUint i) = ValUint i"
| "to_val (InDouble d) = ValDouble d"
| "to_val (InBool b) = ValBool b"

lemma ingest_of_Some: "ingest_of v = Some i \<longleftrightarrow> v = to_val i"
  by (cases v; cases i) auto

text \<open>
  Row \<open>doc\<close> of the shard holds the document: each family's column reads back what the document
  carries, a facet through its dictionary. Map facets are no ingest input: the row has none.
\<close>

definition column_stored :: "(string \<Rightarrow> nat option) \<Rightarrow> (nat \<Rightarrow> u32 \<Rightarrow> 'a option) \<Rightarrow> u32 \<Rightarrow> (string \<times> 'a) list \<Rightarrow> bool" where
  "column_stored index get doc m \<longleftrightarrow> (\<forall>name. map_of m name = Option.bind (index name) (\<lambda>i. get i doc))"

definition map_stored ::
  "(string \<Rightarrow> nat option) \<Rightarrow> (nat \<Rightarrow> string \<Rightarrow> u32 option) \<Rightarrow> (nat \<Rightarrow> u32 \<Rightarrow> u32 \<Rightarrow> 'a option) \<Rightarrow> u32 \<Rightarrow>
   ((string \<times> string) \<times> 'a) list \<Rightarrow> bool" where
  "map_stored index key_ord get doc m \<longleftrightarrow>
     (\<forall>column key. map_of m (column, key) =
        Option.bind (index column) (\<lambda>ci. Option.bind (key_ord ci key) (\<lambda>k. get ci k doc)))"

definition facet_stored :: "shard_tables \<Rightarrow> numeric_read \<Rightarrow> u32 \<Rightarrow> (string \<times> string) list \<Rightarrow> bool" where
  "facet_stored tb read doc m \<longleftrightarrow>
     (\<forall>name. case facet_index tb name of
        None \<Rightarrow> map_of m name = None
      | Some fi \<Rightarrow>
          (case map_of m name of
             None \<Rightarrow> facet_ord read fi doc = None
           | Some v \<Rightarrow> \<exists>ord. facet_ord read fi doc = Some ord \<and>
               (\<forall>lit. facet_value_ord_of tb fi lit = Some ord \<longleftrightarrow> lit = v)))"

definition stored_row :: "shard_tables \<Rightarrow> numeric_read \<Rightarrow> u32 \<Rightarrow> ingest_env \<Rightarrow> bool" where
  "stored_row tb read doc env \<longleftrightarrow>
     column_stored (numeric_index tb) (num_value read) doc (en_numerics env) \<and>
     column_stored (integer_index tb) (int_value read) doc (en_integers env) \<and>
     column_stored (unsigned_integer_index tb) (uint_value read) doc (en_unsigned_integers env) \<and>
     map_stored (map_numeric_index tb) (map_numeric_key_ord tb) (map_value read) doc (en_map_numerics env) \<and>
     map_stored (map_integer_index tb) (map_integer_key_ord tb) (map_int_value read) doc (en_map_integers env) \<and>
     map_stored (map_unsigned_integer_index tb) (map_unsigned_integer_key_ord tb) (map_uint_value read) doc
       (en_map_unsigned_integers env) \<and>
     facet_stored tb read doc (en_facets env) \<and> (\<forall>ci key. map_facet_value_ord read ci key doc = None)"

text \<open>The outcome of the query evaluator that stands for an ingest value.\<close>

definition same_value :: "val option option \<Rightarrow> ingest_val option \<Rightarrow> bool" where
  "same_value q r \<longleftrightarrow> q = Some (map_option to_val r)"

lemma same_value_absent [simp]: "same_value (Some None) r \<longleftrightarrow> r = None"
  by (auto simp: same_value_def)

section \<open>Leaves and operators\<close>

lemma same_column:
  assumes "resolve_column (shard_lookup tb) name = Inr (rv, vt)" "stored_row tb read doc env" "ingest_column env name = Some (Inr r)"
  shows "same_value (eval lm rv doc read) r"
proof -
  note s = assms(2) [unfolded stored_row_def column_stored_def]
  have f: "map_of (en_facets env) name = None" using assms(3) by (auto simp: ingest_column_def Let_def split: if_splits)
  have fo: "facet_ord read fi doc = None" if "facet_index tb name = Some fi" for fi
    using s f that by (auto simp: facet_stored_def dest!: spec [of _ name])
  show ?thesis using assms(1,3) f fo s
    by (auto simp: resolve_column_def shard_lookup_def ingest_column_def same_value_def Let_def option.map_comp o_def
        split: if_splits option.splits)
qed

lemma same_typed_map:
  assumes "resolve_map_read (shard_lookup tb) True column key = Inr (rv, vt)" "stored_row tb read doc env"
  shows "same_value (eval lm rv doc read) (ingest_typed_map env column key)"
  using assms
  by (auto simp: resolve_map_read_def shard_lookup_def ingest_typed_map_def same_value_def stored_row_def map_stored_def
      Let_def option.map_comp o_def split: if_splits option.splits)

lemma same_map:
  assumes "resolve_map_read (shard_lookup tb) False column key = Inr (rv, vt)" "stored_row tb read doc env"
  shows "same_value (eval lm rv doc read) (map_option InDouble (map_of (en_map_numerics env) (column, key)))"
  using assms
  by (auto simp: resolve_map_read_def shard_lookup_def same_value_def stored_row_def map_stored_def
      Let_def option.map_comp o_def split: if_splits option.splits)

lemma same_to_double:
  "same_value q r \<Longrightarrow> ingest_to_double r = Some (Inr r') \<Longrightarrow> same_value (on_value q eval_to_double) r'"
  by (cases r rule: ingest_to_double.cases) (auto simp: same_value_def)

lemma same_negate:
  "same_value q r \<Longrightarrow> ingest_negate strict r = Some (Inr r') \<Longrightarrow> same_value (on_value q eval_negate) r'"
  by (cases "(strict, r)" rule: ingest_negate.cases) (auto simp: same_value_def split: option.splits if_splits)

lemma same_not: "same_value q r \<Longrightarrow> ingest_not r = Some (Inr r') \<Longrightarrow> same_value (on_value q eval_not) r'"
  by (cases r rule: ingest_not.cases) (auto simp: same_value_def)

lemma same_arith:
  assumes "same_value p l" "same_value q r" "ingest_arith strict op l r = Some (Inr r')"
  shows "same_value (on_value p (\<lambda>v. on_value q (eval_arith op v))) r'"
proof (cases "l = None \<or> r = None")
  case True
  then show ?thesis using assms by (cases l; cases r) (simp_all add: same_value_def)
next
  case False
  then obtain a b where "l = Some a" "r = Some b" by auto
  then show ?thesis using assms
    by (cases a; cases b) (simp_all add: same_value_def split: option.splits if_splits, auto)
qed

lemma same_compare:
  assumes "same_value p l" "same_value q r" "ingest_compare op l r = Some (Inr r')"
  shows "same_value (on_value p (\<lambda>v. on_value q (eval_compare op v))) r'"
proof (cases "l = None \<or> r = None")
  case True
  then show ?thesis using assms by (cases l; cases r) (simp_all add: same_value_def)
next
  case False
  then obtain a b where "l = Some a" "r = Some b" by auto
  then show ?thesis using assms
    by (cases a; cases b) (simp_all add: same_value_def split: cmp_op.splits, auto)
qed

lemma facet_only_column:
  assumes "resolve cols e = Inr (FacetCol fi, vt)"
  shows "\<exists>name. e = VColumn name"
proof (cases e)
  case (VArith op l r)
  then show ?thesis using assms by (cases l; cases r) (auto simp: bind_result_eq_Inr split: if_splits)
next
  case (VTernary c t o')
  then show ?thesis using assms by (cases c; cases t; cases o') (auto simp: bind_result_eq_Inr split: if_splits)
next
  case (VCompare code l r)
  then show ?thesis using assms
    by (cases l; cases r) (auto simp: bind_result_eq_Inr compare_literals_def split: if_splits option.splits)
next
  case (VFunc code args)
  then show ?thesis using assms
    by (auto simp: bind_result_eq_Inr resolve_numeric_fn_def split: if_splits fn_signature.splits list.splits)
next
  case (VLogic code cs)
  define g where "g c = bind_result (resolve cols c) logic_child" for c
  show ?thesis using assms unfolding VLogic resolve.simps g_def [symmetric] by (auto simp: bind_result_eq_Inr split: if_splits)
qed (use assms in \<open>auto simp: bind_result_eq_Inr resolve_map_read_def Let_def split: if_splits option.splits\<close>)

text \<open>A read against a string literal: the facet's ordinal stands for the document's string.\<close>

lemma same_literal:
  assumes "resolve (shard_lookup tb) e = Inr (xrv, xt)" "compare_literal (shard_lookup tb) op lit (xrv, xt) = Inr (rv, vt)"
    "stored_row tb read doc env" "\<not> is_ordering op"
    "ingest_literal env op lit e = Some (Inr r)"
  shows "same_value (eval lm rv doc read) r"
proof -
  have row: "\<And>ci key. map_facet_value_ord read ci key doc = None" "facet_stored tb read doc (en_facets env)"
    using assms(3) by (simp_all add: stored_row_def)
  obtain lo where rv: "rv = CompareStr (op = CmpNe) xrv lo"
    "(\<exists>fi. xrv = FacetCol fi \<and> lo = facet_value_ord_of tb fi lit) \<or> (\<exists>ci k. xrv = MapFacet ci k) \<or> xrv = Absent"
    using assms(2) by (auto simp: bind_result_eq_Inr shard_lookup_def split: resolved_value.splits)
  show ?thesis
  proof (cases "\<exists>name. e = VColumn name")
    case True
    then obtain name where e: "e = VColumn name" by blast
    have col: "(\<exists>fi. xrv = FacetCol fi \<and> facet_index tb name = Some fi) \<or> xrv = Absent \<and> facet_index tb name = None"
      using assms(1) rv(2) unfolding e by (auto simp: resolve_column_def shard_lookup_def Let_def split: if_splits option.splits)
    have r: "r = map_option (\<lambda>v. InBool (if op = CmpNe then v \<noteq> lit else v = lit)) (map_of (en_facets env) name)"
      using assms(4,5) e by (simp add: ingest_literal_def)
    note st = row(2) [unfolded facet_stored_def, rule_format, of name]
    show ?thesis
    proof (cases "xrv = Absent")
      case True
      then show ?thesis using col st rv(1) r by simp
    next
      case False
      then obtain fi where fi: "xrv = FacetCol fi" "facet_index tb name = Some fi" using col by blast
      then have lo: "lo = facet_value_ord_of tb fi lit" using rv(2) by simp
      show ?thesis
      proof (cases "map_of (en_facets env) name")
        case None
        then show ?thesis using st fi r rv(1) by simp
      next
        case (Some v)
        then obtain ord where o: "facet_ord read fi doc = Some ord" "(lo = Some ord) = (lit = v)" using st fi lo by auto
        then show ?thesis using Some fi(1) r rv(1) by (auto simp: same_value_def)
      qed
    qed
  next
    case False
    then have "r = None" using assms(4,5) by (cases e) (simp_all add: ingest_literal_def)
    moreover have "\<not> (\<exists>fi. xrv = FacetCol fi)"
    proof
      assume "\<exists>fi. xrv = FacetCol fi"
      then obtain fi where f: "resolve (shard_lookup tb) e = Inr (FacetCol fi, xt)" using assms(1) by blast
      show False using False facet_only_column [OF f] by blast
    qed
    ultimately show ?thesis using rv row(1) by auto
  qed
qed

section \<open>Calls and logic\<close>

lemma collect_present: "collect_values (map Some vs) = Some (all_present vs)"
proof (induction vs)
  case (Cons v vs)
  then show ?case by (cases v; cases "all_present vs") simp_all
qed simp

lemma numeric_args_fold:
  "fold_result numeric_arg ts st = Inr st' \<Longrightarrow>
     na_args st' = na_args st @ map fst ts \<and> (na_absent st' \<longleftrightarrow> na_absent st \<or> TUnknown \<in> snd ` set ts)"
proof (induction ts arbitrary: st)
  case (Cons t ts)
  then obtain s where s: "numeric_arg t st = Inr s" "fold_result numeric_arg ts s = Inr st'" by (auto simp: bind_result_eq_Inr)
  have "na_args s = na_args st @ [fst t]" "na_absent s \<longleftrightarrow> na_absent st \<or> snd t = TUnknown"
    using s(1) by (cases t; auto simp: bind_result_eq_Inr split: if_splits)+
  then show ?case using Cons.IH [OF s(2)] by auto
qed simp

lemma ingest_args_fold:
  "fold_outcome ingest_arg vs st = Some (Inr st') \<Longrightarrow> ia_vals st' = ia_vals st @ map (map_option to_val) vs"
proof (induction vs arbitrary: st)
  case (Cons v vs)
  then obtain s where s: "ingest_arg v st = Some (Inr s)" "fold_outcome ingest_arg vs s = Some (Inr st')" by (auto simp: and_then_ok)
  have "ia_vals s = ia_vals st @ [map_option to_val v]"
    using s(1) by (cases "(v, st)" rule: ingest_arg.cases) (auto simp: push_typed_def split: if_splits)
  then show ?case using Cons.IH [OF s(2)] by simp
qed simp

lemma present_None: "None \<in> set xs \<Longrightarrow> all_present xs = None"
  by (induction xs) (auto split: bind_splits)

lemma same_apply:
  assumes "ingest_call lm strict f st = Some (Inr r)"
  shows "same_value (on_value (Some (all_present (ia_vals st))) (eval_fn lm f)) r"
proof (cases "all_present (ia_vals st)")
  case None
  then show ?thesis using assms by (auto simp: ingest_call_def split: if_splits)
next
  case (Some vals)
  then have "ingest_apply lm f vals = Some (Inr r)" using assms by (auto simp: ingest_call_def split: if_splits list.splits)
  then show ?thesis using Some
    by (auto simp: ingest_apply_def same_value_def ingest_of_Some split: option.splits bind_splits)
qed

lemma determined_stays: "fold_outcome (ingest_logic is_and) vs (ab, True) = Some (Inr st) \<Longrightarrow> snd st"
proof (induction vs arbitrary: ab)
  case (Cons v vs)
  then show ?case by (cases "(is_and, v, (ab, True))" rule: ingest_logic.cases) auto
qed auto

lemma same_logic:
  "fold_outcome (ingest_logic is_and) vs (ab, False) = Some (Inr st) \<Longrightarrow>
   same_value (logic_loop is_and ab (map (\<lambda>v. Some (map_option to_val v)) vs)) (logic_answer is_and st)"
proof (induction vs arbitrary: ab)
  case (Cons v vs)
  show ?case
  proof (cases "\<exists>b. v = Some (InBool b) \<and> b \<noteq> is_and")
    case True
    then have "fold_outcome (ingest_logic is_and) vs (ab, True) = Some (Inr st)" using Cons.prems by auto
    then have "snd st" by (rule determined_stays)
    then show ?thesis using True by (cases st) (auto simp: same_value_def)
  next
    case False
    then show ?thesis using Cons by (cases "(is_and, v, (ab, False))" rule: ingest_logic.cases) auto
  qed
qed (auto simp: same_value_def)

lemma same_calendar:
  assumes "fn_signature_of f = SigIntToInt" "resolve_int_fn f (xrv, xt) = Inr (rv, vt)"
    "eval lm xrv doc read = Some (map_option to_val w)" "xt = TUnknown \<longrightarrow> w = None" "ingest_calendar f w = Some (Inr r)"
  shows "same_value (eval lm rv doc read) r"
proof (cases w)
  case None
  then show ?thesis using assms by (auto split: if_splits)
next
  case (Some i)
  then obtain micros y m d where i: "i = InInt micros" "civil_of_micros micros = Some (y, m, d)"
    "r = Some (InInt (case f of FnCalendarYear \<Rightarrow> y | FnCalendarMonth \<Rightarrow> int m | _ \<Rightarrow> int d))"
    using assms(5) by (cases i) auto
  have "rv = Func f [xrv]" using assms(2,4) Some by (auto split: if_splits)
  moreover have "f \<in> {FnCalendarYear, FnCalendarMonth, FnCalendarDay}" using assms(1) by (cases f) (auto simp: fn_signature_of_def)
  ultimately show ?thesis using assms(3) Some i by (auto simp: same_value_def eval_fn_def)
qed

section \<open>Agreement\<close>

lemma same_func:
  assumes IH: "\<And>x rv vt r. x \<in> set args \<Longrightarrow> resolve cols x = Inr (rv, vt) \<Longrightarrow> ev x = Some (Inr r) \<Longrightarrow>
        same_value (eval lm rv doc read) r \<and> (vt = TUnknown \<longrightarrow> r = None)"
    and st: "fold_result (\<lambda>a st. bind_result (resolve cols a) (\<lambda>t. numeric_arg t st)) args
        \<lparr>na_args = [], na_known = None, na_absent = False\<rparr> = Inr st" "resolve_numeric_fn f st = Inr (rv, vt)"
    and it: "fold_outcome (\<lambda>a st. and_then (ev a) (\<lambda>v. ingest_arg v st)) args \<lparr>ia_vals = [], ia_known = None\<rparr> = Some (Inr it)"
      "ingest_call lm strict f it = Some (Inr r)"
  shows "same_value (eval lm rv doc read) r"
proof -
  obtain ts where ts: "list_all2 (\<lambda>a t. resolve cols a = Inr t) args ts" "fold_result numeric_arg ts \<lparr>na_args = [], na_known = None, na_absent = False\<rparr> = Inr st"
    using st(1) unfolding fold_result_values by blast
  obtain vs where vs: "list_all2 (\<lambda>a v. ev a = Some (Inr v)) args vs" "fold_outcome ingest_arg vs \<lparr>ia_vals = [], ia_known = None\<rparr> = Some (Inr it)"
    using it(1) unfolding fold_outcome_values by blast
  have na: "na_args st = map fst ts" "na_absent st \<longleftrightarrow> TUnknown \<in> snd ` set ts" using numeric_args_fold [OF ts(2)] by simp_all
  have ia: "ia_vals it = map (map_option to_val) vs" using ingest_args_fold [OF vs(2)] by simp
  have len: "length ts = length args" "length vs = length args" using ts(1) vs(1) by (auto dest: list_all2_lengthD)
  have nth: "eval lm (fst (ts ! i)) doc read = Some (map_option to_val (vs ! i)) \<and> (snd (ts ! i) = TUnknown \<longrightarrow> vs ! i = None)"
    if i: "i < length args" for i
    using IH [of "args ! i" "fst (ts ! i)" "snd (ts ! i)" "vs ! i"] list_all2_nthD [OF ts(1) i] list_all2_nthD [OF vs(1) i] i
    by (simp add: same_value_def)
  show ?thesis
  proof (cases "na_absent st")
    case True
    then obtain i where "i < length args" "snd (ts ! i) = TUnknown" using na(2) len by (auto simp: in_set_conv_nth)
    then have "None \<in> set (ia_vals it)" using nth [of i] len unfolding ia by (force simp: in_set_conv_nth)
    then have "all_present (ia_vals it) = None" by (rule present_None)
    then have "r = None" using same_apply [OF it(2)] by simp
    then show ?thesis using True st(2) by (auto simp: resolve_numeric_fn_def split: if_splits)
  next
    case False
    then have rv: "rv = Func f (map fst ts)" using st(2) na(1) by (auto simp: resolve_numeric_fn_def split: if_splits)
    have "map (\<lambda>a. eval lm a doc read) (map fst ts) = map Some (ia_vals it)"
      unfolding ia by (rule nth_equalityI) (use nth len in simp_all)
    then show ?thesis using same_apply [OF it(2)] unfolding rv eval.simps collect_present [symmetric] by simp
  qed
qed

text \<open>One lemma per node with several operands; \<open>agree\<close> is the induction hypothesis of an operand.\<close>

definition agree :: "libm \<Rightarrow> bool \<Rightarrow> ingest_env \<Rightarrow> shard_tables \<Rightarrow> numeric_read \<Rightarrow> u32 \<Rightarrow> value_expr \<Rightarrow> bool" where
  "agree lm strict env tb read doc x \<longleftrightarrow>
     (\<forall>rv vt r. resolve (shard_lookup tb) x = Inr (rv, vt) \<longrightarrow> eval_ingest_inner lm strict env x = Some (Inr r) \<longrightarrow>
        same_value (eval lm rv doc read) r \<and> (vt = TUnknown \<longrightarrow> r = None))"

lemma agreeD:
  "agree lm strict env tb read doc x \<Longrightarrow> resolve (shard_lookup tb) x = Inr (rv, vt) \<Longrightarrow> eval_ingest_inner lm strict env x = Some (Inr r) \<Longrightarrow>
   same_value (eval lm rv doc read) r \<and> (vt = TUnknown \<longrightarrow> r = None)"
  by (simp add: agree_def)

lemma same_arith_node:
  assumes "resolve (shard_lookup tb) (VArith code left right) = Inr (rv, vt)" "eval_ingest_inner lm strict env (VArith code left right) = Some (Inr r)"
    and IH: "\<And>x. x \<in> set (operands (VArith code left right)) \<Longrightarrow> agree lm strict env tb read doc x"
  shows "same_value (eval lm rv doc read) r"
proof -
  obtain l r' where o: "left = Some l" "right = Some r'" using assms(1) by (cases left; cases right) auto
  obtain lrv lt rrv rt where x: "resolve (shard_lookup tb) l = Inr (lrv, lt)" "resolve (shard_lookup tb) r' = Inr (rrv, rt)"
    "resolve_arith code (lrv, lt) (rrv, rt) = Inr (rv, vt)"
    using assms(1) o by (auto simp: bind_result_eq_Inr simp del: resolve_arith.simps)
  obtain op where op: "arith_op_of code = Inr op" "rv = Arith op lrv rrv" using x(3) by (auto simp: bind_result_eq_Inr split: if_splits)
  obtain a b where v: "eval_ingest_inner lm strict env l = Some (Inr a)" "eval_ingest_inner lm strict env r' = Some (Inr b)"
    "ingest_arith strict op a b = Some (Inr r)"
    using assms(2) o op(1) by (auto simp: and_then_ok lift_result_def)
  show ?thesis unfolding op(2) eval.simps
    using agreeD [OF IH x(1) v(1)] agreeD [OF IH x(2) v(2)] o by (intro same_arith [OF _ _ v(3)]) simp_all
qed

lemma same_ternary_node:
  assumes "resolve (shard_lookup tb) (VTernary c t e) = Inr (rv, vt)" "eval_ingest_inner lm strict env (VTernary c t e) = Some (Inr r)"
    and IH: "\<And>x. x \<in> set (operands (VTernary c t e)) \<Longrightarrow> agree lm strict env tb read doc x"
  shows "same_value (eval lm rv doc read) r"
proof -
  obtain c' t' e' where o: "c = Some c'" "t = Some t'" "e = Some e'" using assms(1) by (cases c; cases t; cases e) auto
  obtain crv ct trv tt erv et where x: "resolve (shard_lookup tb) c' = Inr (crv, ct)" "resolve (shard_lookup tb) t' = Inr (trv, tt)"
    "resolve (shard_lookup tb) e' = Inr (erv, et)" "rv = Ternary crv trv erv"
    using assms(1) o by (auto simp: bind_result_eq_Inr split: if_splits)
  obtain b where b: "eval_ingest_inner lm strict env c' = Some (Inr b)" using assms(2) o by (auto simp: and_then_ok)
  have c: "eval lm crv doc read = Some (map_option to_val b)" using agreeD [OF IH x(1) b] o by (simp add: same_value_def)
  consider "b = None" | "b = Some (InBool True)" | "b = Some (InBool False)"
    using assms(2) o b by (auto split: option.splits ingest_val.splits)
  then show ?thesis
  proof cases
    case 1
    then show ?thesis using assms(2) o b c x(4) by simp
  next
    case 2
    then have "eval_ingest_inner lm strict env t' = Some (Inr r)" using assms(2) o b by simp
    then show ?thesis using agreeD [OF IH x(2)] o 2 c x(4) by simp
  next
    case 3
    then have "eval_ingest_inner lm strict env e' = Some (Inr r)" using assms(2) o b by simp
    then show ?thesis using agreeD [OF IH x(3)] o 3 c x(4) by simp
  qed
qed

lemma same_logic_node:
  assumes "resolve (shard_lookup tb) (VLogic code cs) = Inr (rv, vt)" "eval_ingest_inner lm strict env (VLogic code cs) = Some (Inr r)"
    and IH: "\<And>x. x \<in> set cs \<Longrightarrow> agree lm strict env tb read doc x"
  shows "same_value (eval lm rv doc read) r"
proof -
  define g where "g c = bind_result (resolve (shard_lookup tb) c) logic_child" for c
  obtain is_and rvs where n: "logic_op_of code = Inr is_and" "rv = Logic is_and rvs" "list_all2 (\<lambda>x y. g x = Inr y) cs rvs" "\<not> length cs < 2"
    using assms(1) unfolding resolve.simps g_def [symmetric] by (auto simp: bind_result_eq_Inr map_result_Inr split: if_splits)
  obtain st where st: "fold_outcome (\<lambda>c st. and_then (eval_ingest_inner lm strict env c) (\<lambda>v. ingest_logic is_and v st)) cs (False, False) = Some (Inr st)"
    "r = logic_answer is_and st"
    using assms(2) n(1,4) by (auto simp: and_then_ok lift_result_def simp del: logic_answer.simps)
  obtain vs where vs: "list_all2 (\<lambda>c v. eval_ingest_inner lm strict env c = Some (Inr v)) cs vs"
    "fold_outcome (ingest_logic is_and) vs (False, False) = Some (Inr st)" using st(1) unfolding fold_outcome_values by blast
  have len: "length rvs = length cs" "length vs = length cs" using n(3) vs(1) by (auto dest: list_all2_lengthD)
  have nth: "eval lm (rvs ! i) doc read = Some (map_option to_val (vs ! i))" if i: "i < length cs" for i
  proof -
    have "g (cs ! i) = Inr (rvs ! i)" using list_all2_nthD [OF n(3) i] .
    then obtain t where t: "resolve (shard_lookup tb) (cs ! i) = Inr (rvs ! i, t)" by (auto simp: g_def bind_result_eq_Inr split: if_splits)
    show ?thesis using agreeD [OF IH t list_all2_nthD [OF vs(1) i]] i by (simp add: same_value_def)
  qed
  have "map (\<lambda>c. eval lm c doc read) rvs = map (\<lambda>v. Some (map_option to_val v)) vs"
    by (rule nth_equalityI) (use nth len in simp_all)
  then show ?thesis using same_logic [OF vs(2)] unfolding n(2) st(2) eval.simps by simp
qed

lemma same_compare_node:
  assumes row: "stored_row tb read doc env"
    and r: "resolve (shard_lookup tb) (VCompare code left right) = Inr (rv, vt)"
    and v: "eval_ingest_inner lm strict env (VCompare code left right) = Some (Inr r)"
    and IH: "\<And>x. x \<in> set (operands (VCompare code left right)) \<Longrightarrow> agree lm strict env tb read doc x"
  shows "same_value (eval lm rv doc read) r"
proof -
  let ?cols = "shard_lookup tb"
  obtain op a b where o: "cmp_op_of code = Inr op" "left = Some a" "right = Some b"
    using r by (auto simp: bind_result_eq_Inr split: option.splits)
  consider x y where "lit_of a = Some x" "lit_of b = Some y" | x where "lit_of a = Some x" "lit_of b = None"
    | y where "lit_of a = None" "lit_of b = Some y" | "lit_of a = None" "lit_of b = None" by fastforce
  then show ?thesis
  proof cases
    case 1
    then show ?thesis using r v o
      by (auto simp: compare_literals_def ingest_literals_def lift_result_def same_value_def split: if_splits)
  next
    case 2
    then obtain xrv xt where x: "resolve ?cols b = Inr (xrv, xt)" "compare_literal ?cols op x (xrv, xt) = Inr (rv, vt)" "\<not> is_ordering op"
      using r o by (auto simp: bind_result_eq_Inr simp del: compare_literal.simps split: if_splits)
    show ?thesis by (rule same_literal [OF x(1,2) row x(3)]) (use v o 2 in \<open>simp add: lift_result_def\<close>)
  next
    case 3
    then obtain xrv xt where x: "resolve ?cols a = Inr (xrv, xt)" "compare_literal ?cols op y (xrv, xt) = Inr (rv, vt)" "\<not> is_ordering op"
      using r o by (auto simp: bind_result_eq_Inr simp del: compare_literal.simps split: if_splits)
    show ?thesis by (rule same_literal [OF x(1,2) row x(3)]) (use v o 3 in \<open>simp add: lift_result_def\<close>)
  next
    case 4
    then obtain lrv lt rrv rt where x: "resolve ?cols a = Inr (lrv, lt)" "resolve ?cols b = Inr (rrv, rt)"
      "compare_values op (lrv, lt) (rrv, rt) = Inr (rv, vt)"
      using r o by (auto simp: bind_result_eq_Inr simp del: compare_values.simps split: if_splits)
    obtain p q where w: "eval_ingest_inner lm strict env a = Some (Inr p)" "eval_ingest_inner lm strict env b = Some (Inr q)"
      "ingest_compare op p q = Some (Inr r)"
      using v o 4 by (auto simp: and_then_ok lift_result_def)
    have pq: "same_value (eval lm lrv doc read) p \<and> (lt = TUnknown \<longrightarrow> p = None)" "same_value (eval lm rrv doc read) q \<and> (rt = TUnknown \<longrightarrow> q = None)"
      using agreeD [OF IH x(1) w(1)] agreeD [OF IH x(2) w(2)] o by simp_all
    show ?thesis
    proof (cases "lt = TUnknown \<or> rt = TUnknown")
      case True
      then have "p = None \<or> q = None" using pq by blast
      then have "r = None" using w(3) by (cases p; cases q) simp_all
      then show ?thesis using x(3) True by auto
    next
      case False
      then have "rv = Compare op lrv rrv" using x(3) by (auto split: if_splits)
      then show ?thesis using same_compare [OF _ _ w(3)] pq by simp
    qed
  qed
qed

lemma same_func_node:
  assumes r: "resolve (shard_lookup tb) (VFunc code args) = Inr (rv, vt)"
    and v: "eval_ingest_inner lm strict env (VFunc code args) = Some (Inr r)"
    and IH: "\<And>x. x \<in> set args \<Longrightarrow> agree lm strict env tb read doc x"
  shows "same_value (eval lm rv doc read) r"
proof -
  let ?cols = "shard_lookup tb"
  obtain f where f: "value_fn_of code = Inr f" "check_fn_arity f (length args) = Inr ()" using r by (auto simp: bind_result_eq_Inr)
  show ?thesis
  proof (cases "fn_signature_of f")
    case (SigNumeric b)
    obtain st where st: "fold_result (\<lambda>a st. bind_result (resolve ?cols a) (\<lambda>t. numeric_arg t st)) args
        \<lparr>na_args = [], na_known = None, na_absent = False\<rparr> = Inr st" "resolve_numeric_fn f st = Inr (rv, vt)"
      using r f SigNumeric by (auto simp: bind_result_eq_Inr)
    obtain it where it: "fold_outcome (\<lambda>a st. and_then (eval_ingest_inner lm strict env a) (\<lambda>v. ingest_arg v st)) args
        \<lparr>ia_vals = [], ia_known = None\<rparr> = Some (Inr it)" "ingest_call lm strict f it = Some (Inr r)"
      using v f SigNumeric by (auto simp: and_then_ok lift_result_def)
    show ?thesis by (rule same_func [OF agreeD [OF IH] st it])
  next
    case SigStringToUint
    then show ?thesis using r f by (simp add: shard_lookup_def)
  next
    case SigIntToInt
    obtain a as xrv xt where a: "args = a # as" "resolve ?cols a = Inr (xrv, xt)" "resolve_int_fn f (xrv, xt) = Inr (rv, vt)"
      using r f SigIntToInt by (auto simp: bind_result_eq_Inr simp del: resolve_int_fn.simps split: list.splits)
    obtain w where w: "eval_ingest_inner lm strict env a = Some (Inr w)" "ingest_calendar f w = Some (Inr r)"
      using v f SigIntToInt a(1) by (auto simp: and_then_ok lift_result_def)
    have e: "eval lm xrv doc read = Some (map_option to_val w)" "xt = TUnknown \<longrightarrow> w = None"
      using agreeD [OF IH a(2) w(1)] a(1) by (simp_all add: same_value_def)
    show ?thesis by (rule same_calendar [OF SigIntToInt a(3) e w(2)])
  qed
qed

lemma ingest_agrees_inner:
  assumes row: "stored_row tb read doc env" and i64: "reads_i64 read"
  shows "resolve (shard_lookup tb) e = Inr (rv, vt) \<Longrightarrow> literals_i64 e \<Longrightarrow> eval_ingest_inner lm strict env e = Some (Inr r) \<Longrightarrow>
    same_value (eval lm rv doc read) r \<and> (vt = TUnknown \<longrightarrow> r = None)"
proof (induction e arbitrary: rv vt r rule: operands_induct)
  case (1 e)
  let ?cols = "shard_lookup tb"
  let ?ev = "eval_ingest_inner lm strict env"
  have q: "\<not> cl_at_ingest ?cols" by (simp add: shard_lookup_def)
  have IH: "agree lm strict env tb read doc x" if "x \<in> set (operands e)" for x
    unfolding agree_def using 1(1) [OF that _ literals_operands [OF 1(3) that]] by blast
  note r = 1(2) and v = 1(4)
  have "same_value (eval lm rv doc read) r"
  proof (cases e)
    case (VToDouble inner)
    obtain xrv t w where x: "resolve ?cols inner = Inr (xrv, t)" "rv = ToDouble xrv" "?ev inner = Some (Inr w)" "ingest_to_double w = Some (Inr r)"
      using r v VToDouble by (auto simp: bind_result_eq_Inr and_then_ok split: if_splits)
    show ?thesis unfolding x(2) eval.simps using agreeD [OF IH x(1,3)] VToDouble by (intro same_to_double [OF _ x(4)]) simp
  next
    case (VNegate inner)
    obtain xrv t w where x: "resolve ?cols inner = Inr (xrv, t)" "rv = Negate xrv" "?ev inner = Some (Inr w)" "ingest_negate strict w = Some (Inr r)"
      using r v VNegate by (auto simp: bind_result_eq_Inr and_then_ok split: if_splits)
    show ?thesis unfolding x(2) eval.simps using agreeD [OF IH x(1,3)] VNegate by (intro same_negate [OF _ x(4)]) simp
  next
    case (VNot inner)
    obtain xrv t w where x: "resolve ?cols inner = Inr (xrv, t)" "rv = NotValue xrv" "?ev inner = Some (Inr w)" "ingest_not w = Some (Inr r)"
      using r v VNot by (auto simp: bind_result_eq_Inr and_then_ok split: if_splits)
    show ?thesis unfolding x(2) eval.simps using agreeD [OF IH x(1,3)] VNot by (intro same_not [OF _ x(4)]) simp
  next
    case (VArith code left right)
    show ?thesis by (rule same_arith_node [OF r [unfolded VArith] v [unfolded VArith]]) (use IH VArith in simp)
  next
    case (VCompare code left right)
    show ?thesis by (rule same_compare_node [OF row r [unfolded VCompare] v [unfolded VCompare]]) (use IH VCompare in simp)
  next
    case (VTernary cond then_value else_value)
    show ?thesis by (rule same_ternary_node [OF r [unfolded VTernary] v [unfolded VTernary]]) (use IH VTernary in simp)
  next
    case (VFunc code args)
    show ?thesis by (rule same_func_node [OF r [unfolded VFunc] v [unfolded VFunc]]) (use IH VFunc in simp)
  next
    case (VLogic code children)
    show ?thesis by (rule same_logic_node [OF r [unfolded VLogic] v [unfolded VLogic]]) (use IH VLogic in simp)
  next
    case (VColumn name)
    show ?thesis by (rule same_column [OF _ row]) (use r v VColumn in simp_all)
  next
    case (VMap column key)
    then show ?thesis using same_map [OF _ row, of column key rv vt lm] r v by simp
  next
    case (VTypedMap column key)
    then show ?thesis using same_typed_map [OF _ row, of column key rv vt lm] r v by simp
  qed (use r v q in \<open>auto simp: same_value_def split: if_splits\<close>)
  moreover have "vt = TUnknown \<Longrightarrow> eval lm rv doc read = Some None"
    using resolve_sound [OF q i64 r 1(3)] yields_unknown by simp
  ultimately show ?case by auto
qed


definition priced_env :: ingest_env where
  "priced_env =
     \<lparr>en_numerics = [], en_integers = [(''size'', 9)], en_unsigned_integers = [], en_map_numerics = [], en_map_integers = [],
      en_map_unsigned_integers = [], en_facets = [(''lang'', ''en'')], en_stable_key = None\<rparr>"

lemma priced_stored: "stored_row priced_tables priced_columns 1 priced_env"
  by (auto simp: stored_row_def column_stored_def map_stored_def facet_stored_def priced_tables_def priced_columns_def sample_tables_def
      sample_columns_def priced_env_def split: if_splits)

lemma priced_ingests: "eval_ingest_derived lm priced_expr priced_env = Some (Inr (Some (InInt (- 9))))"
  by (simp add: eval_ingest_derived_def lift_result_def priced_expr_def priced_env_def ingest_lookup_def then_zero_def resolve_column_def
      cmp_op_of_def arith_op_of_def is_ordering_def ingest_literal_def ingest_column_def checked_i64_def in_i64_simps Let_def)


section \<open>No document makes it panic\<close>

definition env_i64 :: "ingest_env \<Rightarrow> bool" where
  "env_i64 env \<longleftrightarrow> list_all (\<lambda>(_, v). in_i64 v) (en_integers env) \<and> list_all (\<lambda>(_, v). in_i64 v) (en_map_integers env)"

definition ok_value :: "ingest_val option \<Rightarrow> bool" where
  "ok_value r \<longleftrightarrow> (\<forall>v. r = Some (InInt v) \<longrightarrow> in_i64 v)"

lemma ok_value_simps [simp]:
  "ok_value None" "ok_value (Some (InInt v)) \<longleftrightarrow> in_i64 v" "ok_value (Some (InUint u))" "ok_value (Some (InDouble d))" "ok_value (Some (InBool b))"
  by (simp_all add: ok_value_def)

text \<open>An outcome that is no panic, with a result satisfying \<open>P\<close> unless it is a refusal.\<close>

definition answered :: "('a \<Rightarrow> bool) \<Rightarrow> 'a outcome \<Rightarrow> bool" where
  "answered P x \<longleftrightarrow> (case x of None \<Rightarrow> False | Some (Inl e) \<Rightarrow> True | Some (Inr y) \<Rightarrow> P y)"

lemma answered_simps [simp]:
  "\<not> answered P None" "answered P (Some (Inl e))" "answered P (Some (Inr y)) \<longleftrightarrow> P y"
  by (simp_all add: answered_def)

lemma answered_then: "answered P x \<Longrightarrow> (\<And>y. x = Some (Inr y) \<Longrightarrow> P y \<Longrightarrow> answered Q (f y)) \<Longrightarrow> answered Q (and_then x f)"
  by (auto simp: answered_def and_then_def split: option.splits sum.splits)

lemma answered_lift: "(\<And>y. x = Inr y \<Longrightarrow> answered Q (f y)) \<Longrightarrow> answered Q (and_then (lift_result x) f)"
  by (cases x) (simp_all add: lift_result_def)

lemma answered_fold:
  assumes "I [] s" "\<And>ys x t. x \<in> set xs \<Longrightarrow> I ys t \<Longrightarrow> answered (I (ys @ [x])) (f x t)"
  shows "answered (I xs) (fold_outcome f xs s)"
proof -
  have "answered (I (ys @ xs)) (fold_outcome f xs s)" if "I ys s" "\<And>ys x t. x \<in> set xs \<Longrightarrow> I ys t \<Longrightarrow> answered (I (ys @ [x])) (f x t)" for ys
    using that
  proof (induction xs arbitrary: ys s)
    case (Cons x xs)
    show ?case unfolding fold_outcome.simps
    proof (rule answered_then)
      show "answered (I (ys @ [x])) (f x s)" using Cons.prems by simp
      show "answered (I (ys @ x # xs)) (fold_outcome f xs t)" if "I (ys @ [x]) t" for t
        using Cons.IH [OF that] Cons.prems(2) by simp
    qed
  qed simp
  from this [of "[]"] show ?thesis using assms by simp
qed

definition typed_args :: "'a list \<Rightarrow> ingest_args \<Rightarrow> bool" where
  "typed_args as st \<longleftrightarrow>
     length (ia_vals st) = length as \<and>
     (\<forall>v. Some v \<in> set (ia_vals st) \<longrightarrow> (\<exists>t \<in> {TInt, TUint, TDouble}. ia_known st = Some t \<and> has_type v t))"

lemma answered_arg: "typed_args as st \<Longrightarrow> ok_value v \<Longrightarrow> answered (typed_args (as @ [a])) (ingest_arg v st)"
  by (cases "(v, st)" rule: ingest_arg.cases) (auto simp: typed_args_def push_typed_def ok_value_def)

lemma all_present_set: "all_present xs = Some vs \<Longrightarrow> xs = map Some vs"
  by (induction xs arbitrary: vs) (auto split: bind_splits)

lemma answered_call:
  assumes "fn_signature_of f = SigNumeric b" "check_fn_arity f (length as) = Inr ()" "typed_args as st"
  shows "answered ok_value (ingest_call lm strict f st)"
proof (cases "all_present (ia_vals st)")
  case None
  then show ?thesis by (simp add: ingest_call_def)
next
  case (Some vals)
  note vs = all_present_set [OF Some]
  have len: "length vals = length as" using assms(3) vs by (simp add: typed_args_def)
  have "as \<noteq> []" using assms(2) by (cases f) (auto simp: check_fn_arity_def)
  then obtain v0 vs' where v0: "vals = v0 # vs'" using len by (cases vals) auto
  have all: "\<exists>t \<in> {TInt, TUint, TDouble}. ia_known st = Some t \<and> has_type v t" if "v \<in> set vals" for v
    using assms(3) that unfolding typed_args_def vs by (metis imageI list.set_map)
  obtain t where t: "t \<in> {TInt, TUint, TDouble}" "ia_known st = Some t" using all [of v0] v0 by auto
  have ts: "list_all (\<lambda>v. has_type v t) vals" unfolding list_all_iff using all t(2) by (metis option.inject)
  have "answered ok_value (ingest_apply lm f vals)" if p: "\<not> type_preserving f \<Longrightarrow> t = TDouble"
  proof -
    have "yields (eval_fn lm f vals) (numeric_fn_type f (Some t))"
      using assms(2) len by (intro yields_numeric_fn [OF assms(1) _ t(1) p ts]) simp_all
    moreover have "numeric_fn_type f (Some t) \<in> {TInt, TUint, TDouble, TBool}" using t(1) by (auto simp: numeric_fn_type_def)
    ultimately show ?thesis by (auto simp: yields_def ingest_apply_def split: option.splits)
  qed
  then show ?thesis using Some v0 t(1,2) by (auto simp: ingest_call_def)
qed

lemma map_of_i64: "list_all (\<lambda>(_, v). in_i64 v) m \<Longrightarrow> map_of m k = Some v \<Longrightarrow> in_i64 v"
  by (auto simp: list_all_iff dest!: map_of_SomeD)

lemma answered_column: "env_i64 env \<Longrightarrow> answered ok_value (ingest_column env name)"
  by (auto simp: ingest_column_def env_i64_def Let_def ok_value_def dest: map_of_i64 split: option.splits)

lemma ok_typed_map: "env_i64 env \<Longrightarrow> ok_value (ingest_typed_map env column key)"
  by (auto simp: ingest_typed_map_def env_i64_def ok_value_def dest: map_of_i64 split: option.splits)

lemma answered_to_double: "answered ok_value (ingest_to_double r)"
  by (cases r rule: ingest_to_double.cases) simp_all

lemma answered_negate: "answered ok_value (ingest_negate strict r)"
  by (cases "(strict, r)" rule: ingest_negate.cases) (auto simp: checked_i64_def split: option.splits)

lemma answered_not: "answered ok_value (ingest_not r)"
  by (cases r rule: ingest_not.cases) simp_all

lemma answered_arith:
  assumes "ok_value l" "ok_value r"
  shows "answered ok_value (ingest_arith strict op l r)"
proof (cases "l = None \<or> r = None")
  case True
  then show ?thesis by (cases l; cases r) simp_all
next
  case False
  then obtain a b where o: "l = Some a" "r = Some b" by auto
  show ?thesis
  proof (cases "\<exists>i j. a = InInt i \<and> b = InInt j")
    case True
    then show ?thesis using o assms int_arith_i64 by (auto split: option.splits)
  next
    case False
    then show ?thesis using o by (cases a; cases b) (auto simp: double_arith_def split: option.splits arith_op.splits)
  qed
qed

lemma answered_compare: "answered ok_value (ingest_compare op l r)"
proof (cases "l = None \<or> r = None")
  case True
  then show ?thesis by (cases l; cases r) simp_all
next
  case False
  then obtain a b where "l = Some a" "r = Some b" by auto
  then show ?thesis by (cases a; cases b) (simp_all split: cmp_op.splits)
qed

lemma answered_literal: "answered ok_value (ingest_literals op a b)" "answered ok_value (ingest_literal env op lit e)"
  by (auto simp: ingest_literals_def ingest_literal_def ok_value_def split: value_expr.splits)

lemma answered_calendar:
  assumes "fn_signature_of f = SigIntToInt" "ok_value w"
  shows "answered ok_value (ingest_calendar f w)"
proof (cases "\<exists>micros. w = Some (InInt micros)")
  case True
  then obtain micros where w: "w = Some (InInt micros)" "in_i64 micros" using assms(2) by auto
  have "yields (eval_fn lm f [ValInt micros]) TInt" for lm using yields_calendar [OF assms(1), of "ValInt micros"] w(2) by simp
  moreover have "f \<in> {FnCalendarYear, FnCalendarMonth, FnCalendarDay}" using assms(1) by (cases f) (auto simp: fn_signature_of_def)
  ultimately show ?thesis unfolding w(1)
    by (cases "civil_of_micros micros") (auto simp: eval_fn_def)
next
  case False
  then show ?thesis by (cases "(f, w)" rule: ingest_calendar.cases) auto
qed

lemma answered_logic: "answered (\<lambda>_. True) (ingest_logic is_and v st)"
  by (cases "(is_and, v, st)" rule: ingest_logic.cases) simp_all

lemma ok_logic_answer: "ok_value (logic_answer is_and st)"
  by (cases st) simp

lemma answered_func:
  assumes IH: "\<And>x. x \<in> set args \<Longrightarrow> answered ok_value (eval_ingest_inner lm strict env x)"
  shows "answered ok_value (eval_ingest_inner lm strict env (VFunc code args))"
  unfolding eval_ingest_inner.simps
proof (intro answered_lift)
  fix f u assume f: "value_fn_of code = Inr f" "check_fn_arity f (length args) = Inr u"
  then have ne: "args \<noteq> []" by (cases f) (auto simp: check_fn_arity_def)
  show "answered ok_value (case fn_signature_of f of
        SigNumeric _ \<Rightarrow> and_then
            (fold_outcome (\<lambda>a st. and_then (eval_ingest_inner lm strict env a) (\<lambda>v. ingest_arg v st)) args \<lparr>ia_vals = [], ia_known = None\<rparr>)
            (ingest_call lm strict f)
      | SigStringToUint \<Rightarrow> (case args of [] \<Rightarrow> None | a # _ \<Rightarrow> Some (Inr (ingest_hash env a)))
      | SigIntToInt \<Rightarrow> (case args of [] \<Rightarrow> None | a # _ \<Rightarrow> and_then (eval_ingest_inner lm strict env a) (ingest_calendar f)))"
  proof (cases "fn_signature_of f")
    case (SigNumeric b)
    have "answered (typed_args args)
      (fold_outcome (\<lambda>a st. and_then (eval_ingest_inner lm strict env a) (\<lambda>v. ingest_arg v st)) args \<lparr>ia_vals = [], ia_known = None\<rparr>)"
      by (rule answered_fold) (auto simp: typed_args_def [of "[]"] intro!: answered_then [OF IH] answered_arg)
    then show ?thesis unfolding SigNumeric fn_signature.case
      by (rule answered_then) (use f SigNumeric in \<open>auto intro: answered_call\<close>)
  next
    case SigStringToUint
    then show ?thesis using ne by (cases args) (auto simp: ingest_hash_def ok_value_def split: value_expr.splits)
  next
    case SigIntToInt
    then show ?thesis using ne IH answered_calendar [OF SigIntToInt] by (cases args) (auto intro!: answered_then [OF IH])
  qed
qed

lemma answered_inner:
  assumes env: "env_i64 env"
  shows "literals_i64 e \<Longrightarrow> answered ok_value (eval_ingest_inner lm strict env e)"
proof (induction e rule: operands_induct)
  case (1 e)
  have IH: "answered ok_value (eval_ingest_inner lm strict env x)" if "x \<in> set (operands e)" for x
    using 1(1) [OF that] literals_operands [OF 1(2) that] .
  show ?case
  proof (cases e)
    case (VArith code l r)
    then show ?thesis using IH
      by (cases l; cases r) (auto intro!: answered_then [where P = ok_value] answered_lift answered_arith)
  next
    case (VTernary c t o')
    show ?thesis
    proof (cases "c = None \<or> t = None \<or> o' = None")
      case True
      then show ?thesis unfolding VTernary by (cases c; cases t; cases o') simp_all
    next
      case False
      then obtain c' t' e' where o: "c = Some c'" "t = Some t'" "o' = Some e'" by auto
      show ?thesis unfolding VTernary o eval_ingest_inner.simps
        by (rule answered_then [OF IH]) (use IH VTernary o in \<open>auto split: option.splits ingest_val.splits bool.splits\<close>)
    qed
  next
    case (VCompare code l r)
    show ?thesis unfolding VCompare eval_ingest_inner.simps
      by (rule answered_lift)
        (use IH VCompare in \<open>auto simp: answered_literal
           intro!: answered_then [where P = ok_value] answered_compare split: option.splits\<close>)
  next
    case (VFunc code args)
    show ?thesis unfolding VFunc by (rule answered_func) (use IH VFunc in simp)
  next
    case (VLogic code cs)
    have "answered (\<lambda>_. True) (fold_outcome (\<lambda>c st. and_then (eval_ingest_inner lm strict env c) (\<lambda>v. ingest_logic is_and v st)) cs s)" for is_and s
      by (rule answered_fold) (use IH VLogic in \<open>auto intro!: answered_then [where P = ok_value] answered_logic\<close>)
    then show ?thesis unfolding VLogic eval_ingest_inner.simps
      by (intro answered_lift) (auto intro!: answered_then ok_logic_answer simp del: logic_answer.simps)
  qed (use IH 1(2) env in \<open>auto intro!: answered_then [where P = ok_value] answered_to_double answered_negate answered_not
         simp: answered_column ok_typed_map ok_value_def [of "map_option _ _"]\<close>)
qed

text \<open>
  C7: ingest answers every document. Whatever the document carries and whatever expression was
  declared, well typed or not, evaluation at ingest never panics: it refuses the document or
  returns a value or absence, an integer value within \<open>i64\<close>.
\<close>

theorem ingest_never_panics:
  assumes "env_i64 env" "literals_i64 e"
  shows "(\<exists>y. eval_ingest lm e env = Some y \<and> (\<forall>v. y = Inr (Some (InInt v)) \<longrightarrow> in_i64 v)) \<and>
    (\<exists>y. eval_ingest_derived lm e env = Some y \<and> (\<forall>v. y = Inr (Some (InInt v)) \<longrightarrow> in_i64 v))"
proof -
  have "answered ok_value (eval_ingest lm e env)" "answered ok_value (eval_ingest_derived lm e env)"
    unfolding eval_ingest_def eval_ingest_derived_def by (intro answered_lift answered_inner assms)+
  moreover have "\<exists>y. x = Some y \<and> (\<forall>v. y = Inr (Some (InInt v)) \<longrightarrow> in_i64 v)" if "answered ok_value x" for x
    using that by (auto simp: answered_def ok_value_def split: option.splits sum.splits)
  ultimately show ?thesis by blast
qed

text \<open>\<open>-size\<close> at the smallest \<open>i64\<close>: absent for a materialized column, refused for a derived one.\<close>

theorem ingest_never_panics_witness:
  "\<exists>y. eval_ingest_derived \<lparr>lm_sqrt = id, lm_ln = id, lm_exp = id, lm_log10 = id, lm_powf = (\<lambda>x _. x)\<rparr> (VNegate (VColumn ''size''))
      (priced_env\<lparr>en_integers := [(''size'', i64_min)]\<rparr>) = Some y \<and> (\<exists>s. y = Inl s)"
proof -
  have "env_i64 (priced_env\<lparr>en_integers := [(''size'', i64_min)]\<rparr>)"
    by (simp add: env_i64_def priced_env_def in_i64_simps i64_min_def)
  from ingest_never_panics [OF this, of "VNegate (VColumn ''size'')" "\<lparr>lm_sqrt = id, lm_ln = id, lm_exp = id, lm_log10 = id, lm_powf = (\<lambda>x _. x)\<rparr>"]
  show ?thesis
    by (auto simp: eval_ingest_derived_def lift_result_def priced_env_def ingest_lookup_def then_zero_def resolve_column_def
        ingest_column_def checked_i64_def in_i64_simps i64_min_def Let_def)
qed

section \<open>A string-valued ternary is never hashed\<close>

text \<open>\<open>hash.fnv64(size > 0 ? lang : region)\<close>, the tables that declare its columns and a document that carries them.\<close>

definition hash_expr :: value_expr where
  "hash_expr =
     VFunc 17 [VTernary (Some (VCompare 5 (Some (VColumn ''size'')) (Some (VIntLiteral 0)))) (Some (VColumn ''lang'')) (Some (VColumn ''region''))]"

definition hash_types :: numeric_types where
  "hash_types =
     \<lparr>nt_numerics = [], nt_integers = [''size''], nt_unsigned_integers = [], nt_map_numerics = [], nt_map_integers = [],
      nt_map_unsigned_integers = [], nt_facets = [''lang'', ''region'']\<rparr>"

definition hash_env :: ingest_env where
  "hash_env = priced_env\<lparr>en_facets := [(''lang'', ''en''), (''region'', ''eu'')]\<rparr>"

lemmas hash_simps = hash_expr_def hash_types_def hash_env_def priced_env_def types_lookup_def ingest_lookup_def then_zero_def
  resolve_column_def value_fn_of_def value_fns_def check_fn_arity_def fn_signature_of_def cmp_op_of_def is_ordering_def

text \<open>
  C8: the type check admits a hash over a string-valued ternary, and ingest loses it. Against
  tables that declare every column it reads, \<open>hash.fnv64(size > 0 ? lang : region)\<close> has type uint,
  the kind its column declares. A document that carries all three inputs evaluates it to
  absence, while the hash of the facet the ternary selects is a value.
\<close>

theorem ternary_hash_absent:
  "map_option snd (case resolve (types_lookup hash_types) hash_expr of Inl _ \<Rightarrow> None | Inr t \<Rightarrow> Some t) = Some TUint \<and>
   eval_ingest_derived lm hash_expr hash_env = Some (Inr None) \<and>
   eval_ingest_derived lm (VFunc 17 [VColumn ''lang'']) hash_env = Some (Inr (Some (InUint (fnv1a64_bytes (bytes_of ''en'')))))"
proof (intro conjI)
  show "map_option snd (case resolve (types_lookup hash_types) hash_expr of Inl _ \<Rightarrow> None | Inr t \<Rightarrow> Some t) = Some TUint"
    by (simp add: hash_simps Let_def ensure_def)
  show "eval_ingest_derived lm hash_expr hash_env = Some (Inr None)"
    by (simp add: eval_ingest_derived_def lift_result_def ingest_hash_def hash_simps Let_def ensure_def)
  show "eval_ingest_derived lm (VFunc 17 [VColumn ''lang'']) hash_env = Some (Inr (Some (InUint (fnv1a64_bytes (bytes_of ''en'')))))"
    by (simp add: eval_ingest_derived_def lift_result_def ingest_hash_def hash_simps Let_def ensure_def)
qed

end
