(* ===== verification/Spec2Isabelle.thy ===== *)
theory Spec2Isabelle
  imports Boolean_Bits Collapsed Fanout Segment_Prune Authorization Ingest_Correct
begin

text \<open>
  A verification development for protomolt-search, a distributed vector and lexical search
  engine in Rust. A coordinator fans a request out to shard nodes; each node resolves the
  request's filter against its own columns, scans or walks its rows and answers with its top
  hits; the coordinator merges the answers. Policies and views decide what a caller may see,
  and value expressions compute columns, at ingest or per query.

  \<^bold>\<open>Conventions\<close> (Prelude). \<open>u8\<close>, \<open>u32\<close> and \<open>u64\<close> are words, \<open>usize\<close> is \<open>nat\<close>, \<open>i64\<close> is \<open>int\<close> with its
  range checked where the code checks it. A panic is \<open>None\<close>, a refusal \<open>Inl\<close> of a status whose message
  is the format template of the code. Third-party code is a parameter with named hypotheses.

  \<^bold>\<open>Search.\<close>
  \<^item> Score, Ranking: \<open>f32\<close> scores at their bit pattern; the locales \<open>preranking\<close>, \<open>ranking\<close>, \<open>cutoff\<close>
    and \<open>keyed_ranking\<close>, whose lemmas characterise a top-\<open>k\<close>, interpreted on each order of the code.
  \<^item> Merge (\<open>src/merge.rs\<close>): merge of shard lists and the floor tracker. The merge is the top \<open>k\<close> of
    all hits and may be fed each shard's own top \<open>k\<close>; the tracker holds the maximum.
  \<^item> Chunked, Scan, Scan_Correct, Collapsed (\<open>src/chunked.rs\<close>, with the kernel of \<open>src/vector.rs\<close> as
    a parameter): the batched scan, solo scan and collapse-by-parent scan return exactly the top
    hits, for every sequence of floors adopted on the way.
  \<^item> Fanout (\<open>src/coordinator.rs\<close>, \<open>search_shard\<close> of \<open>src/node.rs\<close>): the floor protocol as a step
    relation. In every interleaving no hit of the answer is lost, every floor is attained, and
    the shards can finish.
  \<^item> Boolean_Bits (\<open>src/boolean_bits.rs\<close>): slot bitmaps, by the locale \<open>slot_algebra\<close>.

  \<^bold>\<open>Filters.\<close>
  \<^item> Float64, Filter_Eval, Filter_Wire, Filter_Resolve (\<open>src/filter.rs\<close>, \<open>src/node.rs\<close>): doubles as exact
    rationals; validation of the wire tree; its resolution against a shard, which gives every
    row the verdict of the tree on its own values; evaluation as Kleene's logic.
  \<^item> Segment_Prune (\<open>src/segment_prune.rs\<close>): a segment left unopened holds no row the filter accepts.

  \<^bold>\<open>Value expressions.\<close>
  \<^item> Value_Expr, Derived (\<open>src/values.rs\<close>, \<open>src/derived.rs\<close>): compiled expressions, the columns they read,
    and compilation of a declaration.
  \<^item> Float_Arith: \<open>f64\<close> arithmetic, the exact result rounded to nearest even; \<open>libm\<close> is a parameter.
  \<^item> Calendar (\<open>src/calendar.rs\<close>): the conversions are the Gregorian calendar, and buckets partition
    the instants, by the locale \<open>bucketing\<close>.
  \<^item> Values, Value_Types (\<open>src/values.rs\<close>): \<open>resolve\<close> and \<open>eval\<close>. What resolves evaluates without a panic
    to a value of its type.
  \<^item> Value_Ingest, Ingest_Correct (\<open>src/values.rs\<close>): \<open>eval_ingest\<close> and \<open>eval_ingest_derived\<close>. Ingest never
    panics, and what it computes is what a query computes on the stored row. A hash over a
    string-valued ternary passes the type check and is always absent.

  \<^bold>\<open>Access.\<close>
  \<^item> Sha256 (\<open>src/sha256.rs\<close>): the streaming digest is the standard's, for every split of the input.
  \<^item> Field_Scope, Visibility, Authorization (\<open>src/field_permissions.rs\<close>, \<open>src/visibility.rs\<close>,
    \<open>src/authorization.rs\<close>): admission and disclosure by column, views that never widen, and policy
    epochs as a step relation: replacement drains the operations of the old policy.

  \<^bold>\<open>Bounds.\<close> Recursions are structural or have a measure, so no result depends on chosen fuel. The
  limits in the theorems are the code's: filters of 32 levels and 256 leaves, offsets of 18 hours.

  \<^bold>\<open>Not modelled.\<close> Storage (posting lists, segments on disk, the write-ahead log, snapshots, the
  redb catalogs) needs the file formats and a crash model of the file system. The gRPC services,
  relays and the Raft adapters are asynchronous I/O over third-party packages. Vector kernels
  and BM25 scoring need \<open>f32\<close> arithmetic, of which only the order is here. The CEL parser, text
  analysis, ranking extensions, placement and the control plane are left out for their size.
  In \<open>src/derived.rs\<close> the checks against the tables, the write of derived values into a document
  and the fingerprint are left out.
\<close>

end
